(* ===== verification/Alloc_Prelude.thy ===== *)
theory Alloc_Prelude
  imports Main "HOL-Library.Word"
begin

unbundle bit_operations_syntax

text \<open>
  Shared vocabulary of the development: the machine types of the allocator, the C idiom
  \<open>(x + a - 1) & ~(a - 1)\<close> that rounds up to a power of two, byte-addressed memory with
  little-endian 64-bit loads and stores (the \<open>*(void **)p\<close> of the source), chains of such
  pointers (the intrusive free lists), address intervals, and results that may be errors.
\<close>

section \<open>Machine types\<close>

type_synonym addr = "64 word"
type_synonym u8 = "8 word"
type_synonym u16 = "16 word"
type_synonym u32 = "32 word"
type_synonym u64 = "64 word"
type_synonym mem = "addr \<Rightarrow> u8"
type_synonym thread = nat

named_theorems unat_simps \<open>values of word operations that do not wrap\<close>
named_theorems config_simps \<open>the constants of malloc_config.h as numerals\<close>

section \<open>Errors as values\<close>

text \<open>
  The four \<open>abort()\<close> calls of \<open>debug.c\<close>, a pointer dereference that leaves the metadata the
  allocator created, an array index out of range, a division by zero, a loop that never ends, and
  a second acquisition of a mutex.
\<close>

datatype error =
    Abort_invalid_alloc addr
  | Abort_already_allocated addr
  | Abort_invalid_free addr
  | Abort_double_free addr
  | Bad_deref addr
  | Out_of_bounds int
  | Div_by_zero
  | Diverges
  | Deadlock

type_synonym 'a result = "error + 'a"

definition bindR :: "'a result \<Rightarrow> ('a \<Rightarrow> 'b result) \<Rightarrow> 'b result" where
  "bindR r f = (case r of Inl e \<Rightarrow> Inl e | Inr x \<Rightarrow> f x)"

text \<open>The result of a loop that may not end: \<open>None\<close> is the loop that does not.\<close>

definition ends :: "'a result option \<Rightarrow> 'a result" where
  "ends x = (case x of None \<Rightarrow> Inl Diverges | Some r \<Rightarrow> r)"

definition of_option :: "error \<Rightarrow> 'a option \<Rightarrow> 'a result" where
  "of_option e x = (case x of None \<Rightarrow> Inl e | Some y \<Rightarrow> Inr y)"

section \<open>Rounding to a power of two\<close>

definition align_down :: "u64 \<Rightarrow> u64 \<Rightarrow> u64" where
  "align_down x a = x AND NOT (a - 1)"

definition align_up :: "u64 \<Rightarrow> u64 \<Rightarrow> u64" where
  "align_up x a = (x + a - 1) AND NOT (a - 1)"

definition is_pow2 :: "u64 \<Rightarrow> bool" where
  "is_pow2 a \<longleftrightarrow> a \<noteq> 0 \<and> a AND (a - 1) = 0"

section \<open>Byte memory\<close>

definition load64 :: "mem \<Rightarrow> addr \<Rightarrow> u64" where
  "load64 m a = foldr (\<lambda>i w. push_bit (8 * i) (ucast (m (a + of_nat i))) OR w) [0..<8] 0"

definition store64 :: "mem \<Rightarrow> addr \<Rightarrow> u64 \<Rightarrow> mem" where
  "store64 m a v = (\<lambda>x. if x - a < 8 then ucast (drop_bit (8 * unat (x - a)) v) else m x)"

definition mem_set :: "mem \<Rightarrow> addr \<Rightarrow> u8 \<Rightarrow> u64 \<Rightarrow> mem" where
  "mem_set m p c n = (\<lambda>x. if x - p < n then c else m x)"

definition mem_cpy :: "mem \<Rightarrow> addr \<Rightarrow> addr \<Rightarrow> u64 \<Rightarrow> mem" where
  "mem_cpy m dst src n = (\<lambda>x. if x - dst < n then m (src + (x - dst)) else m x)"

section \<open>Intervals of addresses\<close>

definition span :: "addr \<Rightarrow> nat \<Rightarrow> nat set" where
  "span p n = {unat p ..< unat p + n}"

section \<open>Intrusive lists\<close>

primrec chain :: "mem \<Rightarrow> addr \<Rightarrow> addr list \<Rightarrow> bool" where
  "chain m p [] \<longleftrightarrow> p = 0"
| "chain m p (x # xs) \<longleftrightarrow> p = x \<and> x \<noteq> 0 \<and> chain m (load64 m x) xs"

section \<open>Results\<close>

lemma bindR_simps [simp]:
  "bindR (Inl e) f = Inl e"
  "bindR (Inr x) f = f x"
  by (simp_all add: bindR_def)

lemma bindR_eq_Inr: "bindR r f = Inr y \<longleftrightarrow> (\<exists>x. r = Inr x \<and> f x = Inr y)"
  by (auto simp: bindR_def split: sum.splits)

lemma bindR_eq_Inl: "bindR r f = Inl e \<longleftrightarrow> r = Inl e \<or> (\<exists>x. r = Inr x \<and> f x = Inl e)"
  by (auto simp: bindR_def split: sum.splits)

lemma of_option_simps [simp]:
  "of_option e None = Inl e"
  "of_option e (Some x) = Inr x"
  by (simp_all add: of_option_def)

lemma ends_Some [simp]: "ends (Some r) = r"
  by (simp add: ends_def)

lemma of_option_eq_Inr: "of_option e x = Inr y \<longleftrightarrow> x = Some y"
  by (auto simp: of_option_def split: option.splits)

section \<open>Words read as numbers\<close>

lemma unat64_bound [simp]: "unat (w :: u64) < 18446744073709551616"
  using unsigned_less [of w] by simp

lemma unat_add_small [unat_simps]:
  "unat (a :: 'a::len word) + unat b < 2 ^ LENGTH('a) \<Longrightarrow> unat (a + b) = unat a + unat b"
  using unat_add_lem by blast

lemma unat_of_nat_small [unat_simps]:
  "n < 2 ^ LENGTH('a) \<Longrightarrow> unat (of_nat n :: 'a::len word) = n"
  by (simp add: unat_of_nat)

lemma unat_ucast_up [unat_simps]:
  assumes "LENGTH('a) \<le> LENGTH('b)"
  shows "unat (ucast (w :: 'a::len word) :: 'b::len word) = unat w"
proof -
  have "unat w < 2 ^ LENGTH('a)" by (rule unsigned_less)
  also have "(2::nat) ^ LENGTH('a) \<le> 2 ^ LENGTH('b)" using assms by (simp add: power_increasing)
  finally show ?thesis by (simp add: unsigned_ucast_eq take_bit_nat_eq_self)
qed

section \<open>Powers of two and rounding\<close>

lemma unat_pow2: "k < LENGTH('a) \<Longrightarrow> unat ((2 :: 'a::len word) ^ k) = 2 ^ k"
proof -
  assume k: "k < LENGTH('a)"
  have "unat ((2 :: 'a word) ^ k) = unat (of_nat (2 ^ k) :: 'a word)" by simp
  then show ?thesis using k by (simp only: unat_of_nat) simp
qed

lemma and_not_mask_eq: "w AND NOT (mask n) = w - take_bit n (w :: 'a::len word)"
proof -
  have "w AND NOT (mask n) = push_bit n (drop_bit n w)"
    by (rule bit_word_eqI) (auto simp: bit_simps)
  then show ?thesis using bits_ident [of n w] by (simp add: eq_diff_eq)
qed

lemma unat_and_not_mask: "unat (w AND NOT (mask n)) = unat (w :: 'a::len word) - unat w mod 2 ^ n"
proof -
  have t: "unat (take_bit n w) = unat w mod 2 ^ n"
    by (simp only: unsigned_take_bit_eq) (simp add: take_bit_eq_mod)
  then have "take_bit n w \<le> w" by (simp add: word_le_nat_alt)
  then show ?thesis by (simp add: and_not_mask_eq unat_sub t)
qed

lemma unat_align_down: "k < 64 \<Longrightarrow> unat (align_down x (2 ^ k)) = unat x - unat x mod 2 ^ k"
  by (simp add: align_down_def unat_and_not_mask flip: mask_eq_exp_minus_1)

lemma unat_align_up:
  assumes "k < 64" "unat x + 2 ^ k - 1 < 2 ^ 64"
  shows "unat (align_up x (2 ^ k)) = (unat x + 2 ^ k - 1) - (unat x + 2 ^ k - 1) mod 2 ^ k"
proof -
  have "(2 :: 64 word) ^ k \<noteq> 0" using assms(1) by simp
  then have "unat (mask k :: 64 word) = 2 ^ k - 1"
    using assms(1) by (simp add: mask_eq_exp_minus_1 unat_minus_one unat_pow2)
  then have "unat (x + mask k) = unat x + 2 ^ k - 1"
    using assms by (subst unat_add_lem [THEN iffD1]) auto
  moreover have "align_up x (2 ^ k) = (x + mask k) AND NOT (mask k)"
    by (simp add: align_up_def mask_eq_exp_minus_1 algebra_simps)
  ultimately show ?thesis by (simp add: unat_and_not_mask)
qed

lemma is_pow2_power: "k < 64 \<Longrightarrow> is_pow2 (2 ^ k)"
proof -
  assume k: "k < 64"
  have "(2 :: 64 word) ^ k \<noteq> 0" using k by simp
  moreover have "(2 :: 64 word) ^ k AND mask k = 0"
    by (rule bit_word_eqI) (auto simp: bit_simps)
  ultimately show ?thesis by (simp add: is_pow2_def mask_eq_exp_minus_1)
qed

lemma bit_unat_top: "2 ^ k \<le> unat (w :: 64 word) \<Longrightarrow> unat w < 2 ^ Suc k \<Longrightarrow> bit w k"
proof -
  assume a: "2 ^ k \<le> unat w" "unat w < 2 ^ Suc k"
  have "unat w div 2 ^ k = 1"
    using a by (simp add: div_nat_eqI)
  then have "bit (unat w) k" by (simp add: bit_iff_odd)
  then show "bit w k" by (simp add: bit_unsigned_iff)
qed

lemma is_pow2D: 
  assumes "is_pow2 a" shows "\<exists>k<64. a = 2 ^ k"
proof -
  have pos: "0 < unat a" using assms by (simp add: is_pow2_def unat_gt_0)
  then obtain k where k: "2 ^ k \<le> unat a" "unat a < 2 ^ Suc k"
    using ex_power_ivl1 [of 2 "unat a"] by auto
  have "k < 64"
  proof (rule ccontr)
    assume "\<not> k < 64"
    then have "(2 :: nat) ^ 64 \<le> 2 ^ k" by (intro power_increasing) auto
    then show False using k(1) unat64_bound [of a] by simp
  qed
  have "unat a = 2 ^ k"
  proof (rule ccontr)
    assume ne: "unat a \<noteq> 2 ^ k"
    have "unat (a - 1) = unat a - 1" using pos by (intro unat_minus_one) auto
    then have "bit (a - 1) k" using k ne by (intro bit_unat_top) auto
    moreover have "bit a k" using k by (rule bit_unat_top)
    ultimately have "bit (a AND (a - 1)) k" by (simp add: bit_and_iff)
    then show False using assms by (simp add: is_pow2_def)
  qed
  then have "a = 2 ^ k" using \<open>k < 64\<close> by (simp add: word_unat_eq_iff unat_pow2)
  with \<open>k < 64\<close> show ?thesis by blast
qed

section \<open>Loads and stores\<close>

lemma bit_load64: "bit (load64 m a) n \<longleftrightarrow> n < 64 \<and> bit (m (a + of_nat (n div 8))) (n mod 8)"
proof -
  have "bit (foldr (\<lambda>i w. push_bit (8 * i) (ucast (m (a + of_nat i)) :: 64 word) OR w) xs 0) n \<longleftrightarrow>
      n < 64 \<and> (\<exists>i\<in>set xs. 8 * i \<le> n \<and> n < 8 * i + 8 \<and> bit (m (a + of_nat i)) (n - 8 * i))" for xs
    by (induction xs) (auto simp: bit_simps dest: bit_imp_le_length)
  then have "bit (load64 m a) n \<longleftrightarrow>
      n < 64 \<and> (\<exists>i<8. 8 * i \<le> n \<and> n < 8 * i + 8 \<and> bit (m (a + of_nat i)) (n - 8 * i))"
    by (simp add: load64_def atLeast0LessThan lessThan_def)
  also have "\<dots> \<longleftrightarrow> n < 64 \<and> bit (m (a + of_nat (n div 8))) (n mod 8)"
  proof -
    have "8 * i \<le> n \<and> n < 8 * i + 8 \<longleftrightarrow> i = n div 8" for i by auto
    moreover have "n - 8 * (n div 8) = n mod 8" by (simp add: minus_mult_div_eq_mod)
    moreover have "n < 64 \<Longrightarrow> n div 8 < 8" by simp
    ultimately show ?thesis by metis
  qed
  finally show ?thesis .
qed

lemma load64_cong:
  assumes "\<And>i. i < 8 \<Longrightarrow> m (a + of_nat i) = m' (a + of_nat i)"
  shows "load64 m a = load64 m' a"
  by (rule bit_word_eqI) (auto simp: bit_load64 assms)

lemma load64_store64_same [simp]: "load64 (store64 m a v) a = v"
proof (rule bit_word_eqI)
  fix n assume "n < LENGTH(64)"
  then have n: "n < 64" by simp
  then have "n div 8 < 8" by simp
  then have u: "unat (of_nat (n div 8) :: 64 word) = n div 8" by (intro unat_of_nat_small) simp
  then have "(of_nat (n div 8) :: 64 word) < 8" using \<open>n div 8 < 8\<close> by (simp add: word_less_nat_alt)
  with u n show "bit (load64 (store64 m a v) a) n = bit v n"
    by (simp add: bit_load64 store64_def bit_simps)
qed

lemma store64_apart: "8 \<le> x - a \<Longrightarrow> store64 m a v x = m x"
  by (auto simp: store64_def dest: leD)

lemma apart_aligned8:
  assumes "unat a mod 8 = 0" "unat b mod 8 = 0" "a \<noteq> b" "i < 8"
  shows "8 \<le> (a + of_nat i) - (b :: 64 word)"
proof -
  obtain x y where x: "unat a = 8 * x" and y: "unat b = 8 * y"
    using assms(1,2) by (metis mod_0_imp_dvd dvdE)
  have ne: "x \<noteq> y" using assms(3) x y by (auto simp: word_unat_eq_iff)
  have xb: "8 * x < 2 ^ 64" "8 * y < 2 ^ 64"
    using x y unat64_bound [of a] unat64_bound [of b] by simp_all
  have ai: "unat (a + of_nat i) = 8 * x + i"
    using x assms(4) xb by (subst unat_add_lem [THEN iffD1]) (auto simp: unat_of_nat_small)
  show ?thesis using x y ai ne xb assms(4)
    by (auto simp: word_le_nat_alt unat_sub_if_size word_size)
qed

lemma load64_store64_apart:
  assumes "unat a mod 8 = 0" "unat b mod 8 = 0" "a \<noteq> b"
  shows "load64 (store64 m b v) a = load64 m a"
  using apart_aligned8 [OF assms] by (intro load64_cong store64_apart)

section \<open>Chains\<close>

lemma chain_cong:
  "(\<And>x. x \<in> set xs \<Longrightarrow> load64 m x = load64 m' x) \<Longrightarrow> chain m p xs = chain m' p xs"
  by (induction xs arbitrary: p) auto

lemma chain_unique: "chain m p xs \<Longrightarrow> chain m p ys \<Longrightarrow> xs = ys"
proof (induction xs arbitrary: p ys)
  case Nil then show ?case by (cases ys) auto
next
  case (Cons x xs) then show ?case by (cases ys) auto
qed

lemma chain_0 [simp]: "chain m 0 xs \<longleftrightarrow> xs = []"
  by (cases xs) auto

lemma chain_nonzero: "p \<noteq> 0 \<Longrightarrow> chain m p xs \<longleftrightarrow> (\<exists>ys. xs = p # ys \<and> chain m (load64 m p) ys)"
  by (cases xs) auto

lemma chain_store_notin:
  assumes "chain m p xs" "\<And>x. x \<in> set xs \<Longrightarrow> unat x mod 8 = 0" "unat a mod 8 = 0" "a \<notin> set xs"
  shows "chain (store64 m a v) p xs"
  using assms chain_cong [of xs "store64 m a v" m p] by (metis load64_store64_apart)

lemma chain_distinct: "chain m p xs \<Longrightarrow> distinct xs"
proof (induction xs arbitrary: p)
  case Nil then show ?case by simp
next
  case (Cons x xs)
  have "x \<notin> set xs"
  proof
    assume "x \<in> set xs"
    then obtain us vs where xs: "xs = us @ x # vs" by (meson split_list)
    have "chain m q (us @ x # vs) \<Longrightarrow> chain m (load64 m x) vs" for q
      by (induction us arbitrary: q) auto
    then have "chain m (load64 m x) vs" using Cons.prems xs by auto
    moreover have "chain m (load64 m x) xs" using Cons.prems by simp
    ultimately have "xs = vs" by (rule chain_unique [symmetric])
    then show False using xs by simp
  qed
  then show ?case using Cons by auto
qed

lemma chain_splice:
  assumes "chain m p xs" "xs \<noteq> []" "chain m q ys" "set xs \<inter> set ys = {}"
    and al: "\<And>x. x \<in> set xs \<union> set ys \<Longrightarrow> unat x mod 8 = 0"
  shows "chain (store64 m (last xs) q) p (xs @ ys)"
  using assms
proof (induction xs arbitrary: p)
  case Nil
  then show ?case by simp
next
  case (Cons x xs)
  show ?case
  proof (cases "xs = []")
    case True
    have "chain (store64 m x q) q ys"
      using Cons.prems by (intro chain_store_notin) auto
    then show ?thesis using True Cons.prems by simp
  next
    case False
    have "distinct (x # xs)" using Cons.prems(1) by (rule chain_distinct)
    then have "x \<noteq> last xs" using False by auto
    then have "load64 (store64 m (last xs) q) x = load64 m x"
      using Cons.prems(5) False by (intro load64_store64_apart) auto
    moreover have "chain (store64 m (last xs) q) (load64 m x) (xs @ ys)"
      using Cons.prems False by (intro Cons.IH) auto
    ultimately show ?thesis using Cons.prems False by simp
  qed
qed

end
