(* ===== verification/Malloc_Config.thy ===== *)
theory Malloc_Config
  imports Alloc_Prelude
begin

unbundle bit_operations_syntax

text \<open>
  The constants of \<open>include/malloc_config.h\<close>, with the header's own expressions, and their
  values as rewrite rules (collection \<open>config_simps\<close>).
\<close>

definition SEGMENT_SHIFT :: nat where "SEGMENT_SHIFT = 22"
definition SEGMENT_SIZE :: u64 where "SEGMENT_SIZE = push_bit SEGMENT_SHIFT 1"
definition SEGMENT_MASK :: u64 where "SEGMENT_MASK = NOT (SEGMENT_SIZE - 1)"

definition PAGE_SHIFT :: nat where "PAGE_SHIFT = 16"
definition PAGE_SIZE_ALLOC :: u64 where "PAGE_SIZE_ALLOC = push_bit PAGE_SHIFT 1"
definition PAGE_MASK :: u64 where "PAGE_MASK = NOT (PAGE_SIZE_ALLOC - 1)"

definition PAGES_PER_SEGMENT :: nat where
  "PAGES_PER_SEGMENT = unat (SEGMENT_SIZE div PAGE_SIZE_ALLOC)"
definition PAGES_DATA_START :: nat where "PAGES_DATA_START = 1"

definition SMALL_MAX :: u64 where "SMALL_MAX = 128"
definition MEDIUM_MAX :: u64 where "MEDIUM_MAX = 128 * 1024"
definition LARGE_THRESHOLD :: u64 where "LARGE_THRESHOLD = MEDIUM_MAX"

definition SMALL_BIN_COUNT :: nat where "SMALL_BIN_COUNT = 16"
definition BIN_COUNT :: nat where "BIN_COUNT = 75"

definition MAX_ARENAS :: nat where "MAX_ARENAS = 64"
definition SEGMENT_REGISTRY_SIZE :: nat where "SEGMENT_REGISTRY_SIZE = 256"
definition MIN_ALIGN :: nat where "MIN_ALIGN = 16"
definition DEBUG_BITMAP_BYTES :: nat where
  "DEBUG_BITMAP_BYTES = unat PAGE_SIZE_ALLOC div MIN_ALIGN div 8"
definition BOOTSTRAP_BUF_SIZE :: u64 where "BOOTSTRAP_BUF_SIZE = 64 * 1024"

definition UINT32_MAX :: u32 where "UINT32_MAX = 4294967295"
definition UINT16_MAX :: u16 where "UINT16_MAX = 65535"

lemma config_values [config_simps]:
  "SEGMENT_SHIFT = 22"
  "SEGMENT_SIZE = 4194304"
  "SEGMENT_MASK = NOT (mask 22)"
  "PAGE_SHIFT = 16"
  "PAGE_SIZE_ALLOC = 65536"
  "PAGE_MASK = NOT (mask 16)"
  "PAGES_PER_SEGMENT = 64"
  "PAGES_DATA_START = 1"
  "SMALL_MAX = 128"
  "MEDIUM_MAX = 131072"
  "LARGE_THRESHOLD = 131072"
  "SMALL_BIN_COUNT = 16"
  "BIN_COUNT = 75"
  "MAX_ARENAS = 64"
  "SEGMENT_REGISTRY_SIZE = 256"
  "MIN_ALIGN = 16"
  "DEBUG_BITMAP_BYTES = 512"
  "BOOTSTRAP_BUF_SIZE = 65536"
  "UINT32_MAX = 4294967295"
  "UINT16_MAX = 65535"
  by (simp_all add: SEGMENT_SHIFT_def SEGMENT_SIZE_def SEGMENT_MASK_def PAGE_SHIFT_def
      PAGE_SIZE_ALLOC_def PAGE_MASK_def PAGES_PER_SEGMENT_def PAGES_DATA_START_def SMALL_MAX_def
      MEDIUM_MAX_def LARGE_THRESHOLD_def SMALL_BIN_COUNT_def BIN_COUNT_def MAX_ARENAS_def
      SEGMENT_REGISTRY_SIZE_def MIN_ALIGN_def DEBUG_BITMAP_BYTES_def BOOTSTRAP_BUF_SIZE_def
      UINT32_MAX_def UINT16_MAX_def push_bit_eq_mult mask_eq_exp_minus_1)

end
