(* ===== verification/Malloc_Types.thy ===== *)
theory Malloc_Types
  imports Malloc_Config
begin

text \<open>
  The data of \<open>include/malloc_types.h\<close>. A field keeps its C width. A \<open>void *\<close> or \<open>segment_t *\<close> is an
  address (0 is NULL); a \<open>page_meta_t *\<close> is the pair of its segment's address and its index in
  \<open>segment_t.pages\<close>; an \<open>arena_t *\<close> is an index into \<open>g_state.arenas\<close>. Metadata lives in typed
  stores (\<open>h_segs\<close>, \<open>h_larges\<close>, \<open>t_tld\<close>), user data and the links of the free lists in the byte
  memory \<open>h_mem\<close>. \<open>h_log\<close> is the sequence of system calls made so far, latest first. A mutex
  is the flag that it is held.
\<close>

type_synonym page_ptr = "addr \<times> nat"

datatype page_state = PAGE_UNUSED | PAGE_ACTIVE | PAGE_FULL | PAGE_RETIRED

record page_meta =
  pm_arena :: "nat option"
  pm_segment :: addr
  pm_owner_tid :: u32
  pm_bin_idx :: u8
  pm_state :: page_state
  pm_slot_size :: u32
  pm_capacity :: u16
  pm_used :: u16
  pm_bump_offset :: u32
  pm_bump_end :: u32
  pm_local_free :: addr
  pm_local_free_count :: u16
  pm_remote_free :: u64
  pm_remote_free_count :: u16
  pm_next :: "page_ptr option"
  pm_prev :: "page_ptr option"
  pm_page_index :: u16
  pm_debug_bitmap :: "u8 list"

record segment =
  sg_magic :: u32
  sg_page_count :: u16
  sg_pages_used :: u16
  sg_arena :: "nat option"
  sg_next :: addr
  sg_prev :: addr
  sg_pages :: "page_meta list"

definition SEGMENT_MAGIC :: u32 where "SEGMENT_MAGIC = 0xA110CA7E"

record arena =
  ar_lock :: bool
  ar_id :: u32
  ar_thread_count :: "32 word"
  ar_bins :: "page_ptr option list"
  ar_segments :: addr
  ar_segment_count :: u32
  ar_allocated :: u64
  ar_freed :: u64
  ar_alloc_count :: u64
  ar_free_count :: u64

record tld =
  tl_self :: addr
  tl_arena :: "nat option"
  tl_thread_id :: u32
  tl_bin_page :: "page_ptr option list"
  tl_stat_allocated :: u64
  tl_stat_freed :: u64
  tl_stat_alloc_count :: u64
  tl_stat_free_count :: u64
  tl_stat_ops :: u32

record large_alloc_t =
  la_base :: addr
  la_size :: u64
  la_user_size :: u64
  la_next :: addr
  la_prev :: addr

datatype os_event = Mmap addr u64 | Munmap addr u64 | Madvise addr u64

record gstate =
  g_initialized :: int
  g_arenas :: "arena list"
  g_arena_count :: "32 word"
  g_arena_next :: "32 word"
  g_large_list :: addr
  g_large_lock :: bool
  g_bootstrap_used :: u64
  g_large_allocated :: u64
  g_large_alloc_count :: u64
  g_mmap_bytes :: u64
  g_peak_in_use :: u64
  g_registry :: "u64 list"
  g_bin_size :: "u32 list"
  g_size_to_bin_small :: "u8 list"
  h_mem :: mem
  h_segs :: "addr \<Rightarrow> segment option"
  h_larges :: "addr \<Rightarrow> large_alloc_t option"
  h_log :: "os_event list"
  t_tld :: "thread \<Rightarrow> tld option"
  t_thread_id_counter :: u32
  t_errno :: "thread \<Rightarrow> int"

text \<open>
  What the code takes from outside the repository: the page size, the kernel's answers to
  \<open>mmap\<close> (a function of the calls so far and the length, None for \<open>MAP_FAILED\<close>), which pages
  the kernel drops at an \<open>madvise\<close>, the address the linker gave to \<open>g_state.bootstrap_buf\<close>, and
  whether the library was built with \<open>MALLOC_DEBUG\<close>.
\<close>

record env =
  page_size :: u64
  mmap_ret :: "os_event list \<Rightarrow> u64 \<Rightarrow> addr option"
  reclaims :: "os_event list \<Rightarrow> addr \<Rightarrow> bool"
  bootstrap_buf :: addr
  malloc_debug :: bool

section \<open>Zeroed records\<close>

text \<open>What \<open>memset(p, 0, sizeof *p)\<close> and static storage make of the structures.\<close>

definition zero_page :: page_meta where
  "zero_page = \<lparr>pm_arena = None, pm_segment = 0, pm_owner_tid = 0, pm_bin_idx = 0,
     pm_state = PAGE_UNUSED, pm_slot_size = 0, pm_capacity = 0, pm_used = 0,
     pm_bump_offset = 0, pm_bump_end = 0, pm_local_free = 0, pm_local_free_count = 0,
     pm_remote_free = 0, pm_remote_free_count = 0, pm_next = None, pm_prev = None,
     pm_page_index = 0, pm_debug_bitmap = replicate DEBUG_BITMAP_BYTES 0\<rparr>"

definition zero_segment :: segment where
  "zero_segment = \<lparr>sg_magic = 0, sg_page_count = 0, sg_pages_used = 0, sg_arena = None,
     sg_next = 0, sg_prev = 0, sg_pages = replicate PAGES_PER_SEGMENT zero_page\<rparr>"

definition zero_arena :: arena where
  "zero_arena = \<lparr>ar_lock = False, ar_id = 0, ar_thread_count = 0,
     ar_bins = replicate BIN_COUNT None, ar_segments = 0, ar_segment_count = 0,
     ar_allocated = 0, ar_freed = 0, ar_alloc_count = 0, ar_free_count = 0\<rparr>"

definition zero_tld :: "addr \<Rightarrow> tld" where
  "zero_tld p = \<lparr>tl_self = p, tl_arena = None, tl_thread_id = 0,
     tl_bin_page = replicate BIN_COUNT None, tl_stat_allocated = 0, tl_stat_freed = 0,
     tl_stat_alloc_count = 0, tl_stat_free_count = 0, tl_stat_ops = 0\<rparr>"

definition zero_gstate :: gstate where
  "zero_gstate = \<lparr>g_initialized = 0, g_arenas = replicate MAX_ARENAS zero_arena,
     g_arena_count = 0, g_arena_next = 0, g_large_list = 0, g_large_lock = False,
     g_bootstrap_used = 0, g_large_allocated = 0, g_large_alloc_count = 0, g_mmap_bytes = 0,
     g_peak_in_use = 0, g_registry = replicate SEGMENT_REGISTRY_SIZE 0,
     g_bin_size = replicate BIN_COUNT 0,
     g_size_to_bin_small = replicate (unat SMALL_MAX div 8 + 1) 0,
     h_mem = (\<lambda>_. 0), h_segs = (\<lambda>_. None), h_larges = (\<lambda>_. None), h_log = [],
     t_tld = (\<lambda>_. None), t_thread_id_counter = 0, t_errno = (\<lambda>_. 0)\<rparr>"

text \<open>
  Evaluation keeps the parts of these arrays that the runs below never touch folded: all but the first byte of a debug
  bitmap, and the 60 arenas that are not set up.
\<close>

definition zero_bitmap :: "u8 list" where
  "zero_bitmap = replicate DEBUG_BITMAP_BYTES 0"

definition zero_arenas :: "arena list" where
  "zero_arenas = replicate MAX_ARENAS zero_arena"

lemma fold_zero_bitmap [code_unfold]: "replicate DEBUG_BITMAP_BYTES 0 = zero_bitmap"
  by (simp add: zero_bitmap_def)

lemma fold_zero_arenas [code_unfold]: "replicate MAX_ARENAS zero_arena = zero_arenas"
  by (simp add: zero_arenas_def)

lemma zero_bitmap_code [code]: "zero_bitmap = 0 # Code.abort STR '''' (\<lambda>_. replicate 511 0)"
proof -
  have eq: "DEBUG_BITMAP_BYTES = Suc 511" by (simp add: config_simps)
  show ?thesis unfolding zero_bitmap_def eq replicate.simps Code.abort_def ..
qed

lemma zero_arenas_code [code]:
  "zero_arenas = zero_arena # zero_arena # zero_arena # zero_arena # Code.abort STR '''' (\<lambda>_. replicate 60 zero_arena)"
proof -
  have eq: "MAX_ARENAS = Suc (Suc (Suc (Suc 60)))" unfolding MAX_ARENAS_def by simp
  show ?thesis unfolding zero_arenas_def eq replicate.simps Code.abort_def ..
qed

section \<open>Dereferencing metadata pointers\<close>

definition pg_at :: "(addr \<Rightarrow> segment option) \<Rightarrow> page_ptr \<Rightarrow> page_meta option" where
  "pg_at segs pp = (case segs (fst pp) of None \<Rightarrow> None
     | Some sg \<Rightarrow> if snd pp < length (sg_pages sg) then Some (sg_pages sg ! snd pp) else None)"

abbreviation get_page :: "gstate \<Rightarrow> page_ptr \<Rightarrow> page_meta option" where
  "get_page g \<equiv> pg_at (h_segs g)"

definition deref_page :: "gstate \<Rightarrow> page_ptr \<Rightarrow> page_meta result" where
  "deref_page g pp = of_option (Bad_deref (fst pp)) (get_page g pp)"

definition upd_seg :: "addr \<Rightarrow> (segment \<Rightarrow> segment) \<Rightarrow> gstate \<Rightarrow> gstate" where
  "upd_seg b f g = g\<lparr>h_segs := (h_segs g)(b := map_option f (h_segs g b))\<rparr>"

definition upd_page :: "page_ptr \<Rightarrow> (page_meta \<Rightarrow> page_meta) \<Rightarrow> gstate \<Rightarrow> gstate" where
  "upd_page pp f = upd_seg (fst pp) (\<lambda>sg. sg\<lparr>sg_pages := (sg_pages sg)[snd pp := f (sg_pages sg ! snd pp)]\<rparr>)"

definition upd_arena :: "nat \<Rightarrow> (arena \<Rightarrow> arena) \<Rightarrow> gstate \<Rightarrow> gstate" where
  "upd_arena i f g = g\<lparr>g_arenas := (g_arenas g)[i := f (g_arenas g ! i)]\<rparr>"

definition upd_large :: "addr \<Rightarrow> (large_alloc_t \<Rightarrow> large_alloc_t) \<Rightarrow> gstate \<Rightarrow> gstate" where
  "upd_large b f g = g\<lparr>h_larges := (h_larges g)(b := map_option f (h_larges g b))\<rparr>"

definition deref_large :: "gstate \<Rightarrow> addr \<Rightarrow> large_alloc_t result" where
  "deref_large g p = of_option (Bad_deref p) (h_larges g p)"

text \<open>A store through a pointer to metadata.\<close>

definition write_large :: "addr \<Rightarrow> (large_alloc_t \<Rightarrow> large_alloc_t) \<Rightarrow> gstate \<Rightarrow> gstate result" where
  "write_large p f g = (if h_larges g p = None then Inl (Bad_deref p) else Inr (upd_large p f g))"

definition write_page :: "page_ptr \<Rightarrow> (page_meta \<Rightarrow> page_meta) \<Rightarrow> gstate \<Rightarrow> gstate result" where
  "write_page pp f g = (if get_page g pp = None then Inl (Bad_deref (fst pp)) else Inr (upd_page pp f g))"

definition write_seg :: "addr \<Rightarrow> (segment \<Rightarrow> segment) \<Rightarrow> gstate \<Rightarrow> gstate result" where
  "write_seg b f g = (if h_segs g b = None then Inl (Bad_deref b) else Inr (upd_seg b f g))"

definition upd_tld :: "thread \<Rightarrow> (tld \<Rightarrow> tld) \<Rightarrow> gstate \<Rightarrow> gstate" where
  "upd_tld t f g = g\<lparr>t_tld := (t_tld g)(t := map_option f (t_tld g t))\<rparr>"

lemma h_segs_upd_seg [simp]: "h_segs (upd_seg b f g) = (h_segs g)(b := map_option f (h_segs g b))"
  by (simp add: upd_seg_def)

lemma pg_at_upd_page [simp]:
  "get_page (upd_page pp f g) pp' = (if pp' = pp then map_option f (get_page g pp) else get_page g pp')"
  by (cases pp; cases pp') (auto simp: upd_page_def pg_at_def split: option.splits)

lemma h_segs_upd_page:
  "h_segs (upd_page pp f g) b =
     map_option (\<lambda>sg. if b = fst pp then sg\<lparr>sg_pages := (sg_pages sg)[snd pp := f (sg_pages sg ! snd pp)]\<rparr> else sg)
       (h_segs g b)"
  by (cases "h_segs g b") (auto simp: upd_page_def)

text \<open>Updates of one store leave the other fields alone.\<close>

lemma upd_page_frame [simp]:
  "g_initialized (upd_page pp f g) = g_initialized g" "g_arenas (upd_page pp f g) = g_arenas g"
  "g_arena_count (upd_page pp f g) = g_arena_count g" "g_arena_next (upd_page pp f g) = g_arena_next g"
  "g_large_list (upd_page pp f g) = g_large_list g" "g_large_lock (upd_page pp f g) = g_large_lock g"
  "g_registry (upd_page pp f g) = g_registry g" "g_bin_size (upd_page pp f g) = g_bin_size g"
  "g_size_to_bin_small (upd_page pp f g) = g_size_to_bin_small g" "h_mem (upd_page pp f g) = h_mem g"
  "h_larges (upd_page pp f g) = h_larges g" "h_log (upd_page pp f g) = h_log g" "t_tld (upd_page pp f g) = t_tld g"
  "t_thread_id_counter (upd_page pp f g) = t_thread_id_counter g" "t_errno (upd_page pp f g) = t_errno g"
  by (simp_all add: upd_page_def upd_seg_def)

lemma upd_seg_frame [simp]:
  "g_initialized (upd_seg b f g) = g_initialized g" "g_arenas (upd_seg b f g) = g_arenas g"
  "g_arena_count (upd_seg b f g) = g_arena_count g" "g_arena_next (upd_seg b f g) = g_arena_next g"
  "g_large_list (upd_seg b f g) = g_large_list g" "g_large_lock (upd_seg b f g) = g_large_lock g"
  "g_registry (upd_seg b f g) = g_registry g" "g_bin_size (upd_seg b f g) = g_bin_size g"
  "g_size_to_bin_small (upd_seg b f g) = g_size_to_bin_small g" "h_mem (upd_seg b f g) = h_mem g"
  "h_larges (upd_seg b f g) = h_larges g" "h_log (upd_seg b f g) = h_log g" "t_tld (upd_seg b f g) = t_tld g"
  "t_thread_id_counter (upd_seg b f g) = t_thread_id_counter g" "t_errno (upd_seg b f g) = t_errno g"
  by (simp_all add: upd_seg_def)

lemma upd_arena_frame [simp]:
  "g_initialized (upd_arena a f g) = g_initialized g" "h_segs (upd_arena a f g) = h_segs g"
  "g_arena_count (upd_arena a f g) = g_arena_count g" "g_arena_next (upd_arena a f g) = g_arena_next g"
  "g_large_list (upd_arena a f g) = g_large_list g" "g_large_lock (upd_arena a f g) = g_large_lock g"
  "g_registry (upd_arena a f g) = g_registry g" "g_bin_size (upd_arena a f g) = g_bin_size g"
  "g_size_to_bin_small (upd_arena a f g) = g_size_to_bin_small g" "h_mem (upd_arena a f g) = h_mem g"
  "h_larges (upd_arena a f g) = h_larges g" "h_log (upd_arena a f g) = h_log g" "t_tld (upd_arena a f g) = t_tld g"
  "t_thread_id_counter (upd_arena a f g) = t_thread_id_counter g" "t_errno (upd_arena a f g) = t_errno g"
  by (simp_all add: upd_arena_def)

lemma upd_tld_frame [simp]:
  "g_initialized (upd_tld t f g) = g_initialized g" "g_arenas (upd_tld t f g) = g_arenas g"
  "g_arena_count (upd_tld t f g) = g_arena_count g" "g_arena_next (upd_tld t f g) = g_arena_next g"
  "g_large_list (upd_tld t f g) = g_large_list g" "g_large_lock (upd_tld t f g) = g_large_lock g"
  "g_registry (upd_tld t f g) = g_registry g" "g_bin_size (upd_tld t f g) = g_bin_size g"
  "g_size_to_bin_small (upd_tld t f g) = g_size_to_bin_small g" "h_mem (upd_tld t f g) = h_mem g"
  "h_larges (upd_tld t f g) = h_larges g" "h_log (upd_tld t f g) = h_log g" "h_segs (upd_tld t f g) = h_segs g"
  "t_thread_id_counter (upd_tld t f g) = t_thread_id_counter g" "t_errno (upd_tld t f g) = t_errno g"
  by (simp_all add: upd_tld_def)

lemma t_tld_upd_tld [simp]: "t_tld (upd_tld t f g) t' = (if t' = t then map_option f (t_tld g t) else t_tld g t')"
  by (simp add: upd_tld_def)

lemma g_arenas_upd_arena:
  "length (g_arenas (upd_arena a f g)) = length (g_arenas g)"
  "i < length (g_arenas g) \<Longrightarrow> g_arenas (upd_arena a f g) ! i = (if i = a then f (g_arenas g ! i) else g_arenas g ! i)"
  by (auto simp: upd_arena_def nth_list_update)

end
