(* ===== verification/Segment_Registry.thy ===== *)
theory Segment_Registry
  imports Malloc_Types
begin

unbundle bit_operations_syntax

text \<open>
  The segment registry of \<open>src/segment.c\<close>: a hash set of segment addresses in an array of 256 words,
  open addressing with linear probing, 0 for an empty slot.
\<close>

definition seg_hash :: "addr \<Rightarrow> nat" where
  "seg_hash a = unat (drop_bit SEGMENT_SHIFT a AND of_nat (SEGMENT_REGISTRY_SIZE - 1))"

definition probe_slot :: "nat \<Rightarrow> nat \<Rightarrow> nat" where
  "probe_slot idx i = (idx + i) AND (SEGMENT_REGISTRY_SIZE - 1)"

function register_from :: "u64 list \<Rightarrow> addr \<Rightarrow> nat \<Rightarrow> nat \<Rightarrow> u64 list" where
  "register_from r base idx i =
     (if i < SEGMENT_REGISTRY_SIZE then
        let slot = probe_slot idx i
        in if r ! slot = 0 then r[slot := base]
           else if r ! slot = base then r
           else register_from r base idx (i + 1)
      else r)"
  by pat_completeness auto
termination
  by (relation "measure (\<lambda>(r, base, idx, i). SEGMENT_REGISTRY_SIZE - i)") auto

function unregister_from :: "u64 list \<Rightarrow> addr \<Rightarrow> nat \<Rightarrow> nat \<Rightarrow> u64 list" where
  "unregister_from r base idx i =
     (if i < SEGMENT_REGISTRY_SIZE then
        let slot = probe_slot idx i
        in if r ! slot = base then r[slot := 0]
           else if r ! slot = 0 then r
           else unregister_from r base idx (i + 1)
      else r)"
  by pat_completeness auto
termination
  by (relation "measure (\<lambda>(r, base, idx, i). SEGMENT_REGISTRY_SIZE - i)") auto

function registered_from :: "u64 list \<Rightarrow> addr \<Rightarrow> nat \<Rightarrow> nat \<Rightarrow> bool" where
  "registered_from r base idx i =
     (if i < SEGMENT_REGISTRY_SIZE then
        let slot = probe_slot idx i
        in if r ! slot = base then True
           else if r ! slot = 0 then False
           else registered_from r base idx (i + 1)
      else False)"
  by pat_completeness auto
termination
  by (relation "measure (\<lambda>(r, base, idx, i). SEGMENT_REGISTRY_SIZE - i)") auto

declare register_from.simps [simp del] unregister_from.simps [simp del] registered_from.simps [simp del]

definition segment_register :: "addr \<Rightarrow> u64 list \<Rightarrow> u64 list" where
  "segment_register base r = register_from r base (seg_hash base) 0"

definition segment_unregister :: "addr \<Rightarrow> u64 list \<Rightarrow> u64 list" where
  "segment_unregister base r = unregister_from r base (seg_hash base) 0"

definition segment_is_registered :: "u64 list \<Rightarrow> addr \<Rightarrow> bool" where
  "segment_is_registered r base = registered_from r base (seg_hash base) 0"

section \<open>The set a table stands for\<close>

definition reg_set :: "u64 list \<Rightarrow> addr set" where
  "reg_set r = set r - {0}"

text \<open>
  A table is well formed when no address is in two slots and every address can be reached: the
  slots probed before its own are occupied.
\<close>

definition reg_ok :: "u64 list \<Rightarrow> bool" where
  "reg_ok r \<longleftrightarrow> length r = SEGMENT_REGISTRY_SIZE \<and>
     (\<forall>i < length r. \<forall>j < length r. r ! i = r ! j \<longrightarrow> r ! i \<noteq> 0 \<longrightarrow> i = j) \<and>
     (\<forall>b \<in> reg_set r. \<exists>d < SEGMENT_REGISTRY_SIZE. r ! probe_slot (seg_hash b) d = b \<and>
        (\<forall>d' < d. r ! probe_slot (seg_hash b) d' \<noteq> 0))"

lemma probe_slot_mod: "probe_slot idx i = (idx + i) mod 256"
proof -
  have "(idx + i) AND mask 8 = (idx + i) mod 2 ^ 8"
    by (simp only: take_bit_eq_mask [symmetric] take_bit_eq_mod)
  moreover have "(mask 8 :: nat) = 255" by (simp add: mask_eq_exp_minus_1)
  ultimately show ?thesis by (simp add: probe_slot_def config_simps)
qed

lemma probe_slot_less [simp]: "probe_slot idx i < 256"
  by (simp add: probe_slot_mod)

lemma probe_slot_surj: "j < 256 \<Longrightarrow> \<exists>d<256. probe_slot idx d = j"
proof -
  assume j: "j < 256"
  obtain q s where s: "idx = 256 * q + s" "s < 256"
    by (metis mult_div_mod_eq mod_less_divisor zero_less_numeral)
  define x where "x = j + (256 - s)"
  have "idx + x = 256 * (q + 1) + j" using s by (simp add: x_def)
  then have "(idx + x) mod 256 = j" using j by (simp only: mod_mult_self4 mod_less)
  then have "(idx + x mod 256) mod 256 = j" by (simp only: mod_add_right_eq)
  then show ?thesis unfolding probe_slot_mod by (intro exI [of _ "x mod 256"]) simp
qed

lemma probe_slot_inj:
  assumes "d < 256" "d' < 256" "probe_slot idx d = probe_slot idx d'"
  shows "d = d'"
proof -
  have "a = b" if "a \<le> b" "b < 256" "(idx + b) mod 256 = (idx + a) mod 256" for a b :: nat
  proof -
    have "256 dvd (idx + b) - (idx + a)" using that by (subst mod_eq_dvd_iff_nat [symmetric]) auto
    then have "256 dvd b - a" by simp
    then show ?thesis using that by (auto dest: dvd_imp_le)
  qed
  then show ?thesis using assms unfolding probe_slot_mod by (metis nat_le_linear)
qed

text \<open>The three loops stop at the first slot that is empty or holds the address.\<close>

lemma register_from_spec:
  assumes "i \<le> 256" "\<forall>d<i. r ! probe_slot idx d \<noteq> 0 \<and> r ! probe_slot idx d \<noteq> b"
  shows "(\<exists>d<256. (\<forall>d'<d. r ! probe_slot idx d' \<noteq> 0 \<and> r ! probe_slot idx d' \<noteq> b) \<and>
      (r ! probe_slot idx d = 0 \<and> register_from r b idx i = r[probe_slot idx d := b] \<or>
       r ! probe_slot idx d \<noteq> 0 \<and> r ! probe_slot idx d = b \<and> register_from r b idx i = r)) \<or>
    (\<forall>d<256. r ! probe_slot idx d \<noteq> 0 \<and> r ! probe_slot idx d \<noteq> b) \<and> register_from r b idx i = r"
  using assms
proof (induction "256 - i" arbitrary: i)
  case 0
  then have "i = 256" by simp
  with 0 show ?case by (auto simp: register_from.simps [of r b idx 256] config_simps)
next
  case (Suc n)
  then have i: "i < 256" by simp
  consider "r ! probe_slot idx i = 0" | "r ! probe_slot idx i \<noteq> 0" "r ! probe_slot idx i = b"
    | "r ! probe_slot idx i \<noteq> 0" "r ! probe_slot idx i \<noteq> b" by blast
  then show ?case
  proof cases
    case 3
    have st: "register_from r b idx i = register_from r b idx (i + 1)"
      using i 3 by (simp add: register_from.simps [of r b idx i] config_simps)
    show ?thesis unfolding st
      using Suc.hyps(2) i 3 Suc.prems by (intro Suc.hyps(1)) (auto simp: less_Suc_eq)
  qed (use i Suc.prems in \<open>auto simp: register_from.simps [of r b idx i] config_simps intro!: exI [of _ i]\<close>)
qed

lemma registered_from_spec:
  assumes "i \<le> 256" "\<forall>d<i. r ! probe_slot idx d \<noteq> 0 \<and> r ! probe_slot idx d \<noteq> b"
  shows "registered_from r b idx i \<longleftrightarrow>
    (\<exists>d<256. r ! probe_slot idx d = b \<and> (\<forall>d'<d. r ! probe_slot idx d' \<noteq> 0))"
  using assms
proof (induction "256 - i" arbitrary: i)
  case 0
  then have "i = 256" by simp
  with 0 show ?case by (auto simp: registered_from.simps [of r b idx 256] config_simps)
next
  case (Suc n)
  then have i: "i < 256" by simp
  consider "r ! probe_slot idx i = b" | "r ! probe_slot idx i \<noteq> b" "r ! probe_slot idx i = 0"
    | "r ! probe_slot idx i \<noteq> 0" "r ! probe_slot idx i \<noteq> b" by blast
  then show ?case
  proof cases
    case 1
    then show ?thesis using i Suc.prems
      by (auto simp: registered_from.simps [of r b idx i] config_simps)
  next
    case 2
    have "\<not> (\<exists>d<256. r ! probe_slot idx d = b \<and> (\<forall>d'<d. r ! probe_slot idx d' \<noteq> 0))"
      using 2 Suc.prems by (metis linorder_neqE_nat)
    then show ?thesis using 2 i by (simp add: registered_from.simps [of r b idx i] config_simps)
  next
    case 3
    have st: "registered_from r b idx i = registered_from r b idx (i + 1)"
      using i 3 by (simp add: registered_from.simps [of r b idx i] config_simps)
    show ?thesis unfolding st
      using Suc.hyps(2) i 3 Suc.prems by (intro Suc.hyps(1)) (auto simp: less_Suc_eq)
  qed
qed

section \<open>Registering and looking up\<close>

lemma reg_ok_length: "reg_ok r \<Longrightarrow> length r = 256"
  by (simp add: reg_ok_def config_simps)

lemma reg_ok_empty: "reg_ok (replicate SEGMENT_REGISTRY_SIZE 0)"
  by (auto simp: reg_ok_def reg_set_def)

lemma reg_ok_reach:
  "reg_ok r \<Longrightarrow> c \<in> reg_set r \<Longrightarrow>
   \<exists>d<256. r ! probe_slot (seg_hash c) d = c \<and> (\<forall>d'<d. r ! probe_slot (seg_hash c) d' \<noteq> 0)"
  by (simp add: reg_ok_def config_simps)

lemma isin_iff:
  assumes "reg_ok r" "b \<noteq> 0"
  shows "segment_is_registered r b \<longleftrightarrow> b \<in> reg_set r"
proof -
  have l: "length r = 256" using assms(1) by (rule reg_ok_length)
  have "segment_is_registered r b \<longleftrightarrow>
      (\<exists>d<256. r ! probe_slot (seg_hash b) d = b \<and> (\<forall>d'<d. r ! probe_slot (seg_hash b) d' \<noteq> 0))"
    unfolding segment_is_registered_def by (rule registered_from_spec) auto
  also have "\<dots> \<longleftrightarrow> b \<in> reg_set r"
  proof
    assume "\<exists>d<256. r ! probe_slot (seg_hash b) d = b \<and> (\<forall>d'<d. r ! probe_slot (seg_hash b) d' \<noteq> 0)"
    then show "b \<in> reg_set r"
      using l assms(2) by (metis Diff_iff nth_mem probe_slot_less reg_set_def singletonD)
  next
    assume "b \<in> reg_set r"
    then show "\<exists>d<256. r ! probe_slot (seg_hash b) d = b \<and> (\<forall>d'<d. r ! probe_slot (seg_hash b) d' \<noteq> 0)"
      using reg_ok_reach [OF assms(1)] by blast
  qed
  finally show ?thesis .
qed

lemma register_cases:
  assumes "reg_ok r" "b \<noteq> 0"
  obtains (new) d where "d < 256" "\<forall>d'<d. r ! probe_slot (seg_hash b) d' \<noteq> 0"
      "r ! probe_slot (seg_hash b) d = 0" "b \<notin> set r"
      "segment_register b r = r[probe_slot (seg_hash b) d := b]"
    | (old) "b \<in> set r" "segment_register b r = r"
    | (full) "0 \<notin> set r" "b \<notin> set r" "segment_register b r = r"
proof -
  let ?p = "probe_slot (seg_hash b)"
  have l: "length r = 256" using assms(1) by (rule reg_ok_length)
  consider (a) d where "d<256" "\<forall>d'<d. r ! ?p d' \<noteq> 0 \<and> r ! ?p d' \<noteq> b" "r ! ?p d = 0"
      "segment_register b r = r[?p d := b]"
    | (b) d where "d<256" "r ! ?p d = b" "segment_register b r = r"
    | (c) "\<forall>d<256. r ! ?p d \<noteq> 0 \<and> r ! ?p d \<noteq> b" "segment_register b r = r"
    using register_from_spec [of 0 r "seg_hash b" b] unfolding segment_register_def by auto
  then show ?thesis
  proof cases
    case a
    have "\<not> segment_is_registered r b"
      unfolding segment_is_registered_def
      using registered_from_spec [of 0 r "seg_hash b" b] a assms(2) by (metis linorder_neqE_nat not_less0 zero_le)
    then have "b \<notin> set r" using isin_iff [OF assms] assms(2) by (simp add: reg_set_def)
    then show ?thesis using a by (intro new) auto
  next
    case b
    then show ?thesis using l by (intro old) (metis nth_mem probe_slot_less)+
  next
    case c
    have "r ! j \<noteq> 0 \<and> r ! j \<noteq> b" if "j < 256" for j
      using c(1) probe_slot_surj [OF that] by metis
    then show ?thesis using c(2) l by (intro full) (auto simp: in_set_conv_nth)
  qed
qed

lemma register_elems:
  assumes "reg_ok r" "b \<noteq> 0" "0 \<in> set r \<or> b \<in> set r"
  shows "reg_set (segment_register b r) = insert b (reg_set r)"
  using assms(1,2)
proof (cases rule: register_cases)
  case (new d)
  have l: "length r = 256" using assms(1) by (rule reg_ok_length)
  have "set (r[probe_slot (seg_hash b) d := b]) - {0} = insert b (set r - {0})"
  proof (intro set_eqI iffI)
    fix x assume "x \<in> insert b (set r - {0})"
    then show "x \<in> set (r[probe_slot (seg_hash b) d := b]) - {0}"
      using new l assms(2) by (auto simp: in_set_conv_nth nth_list_update) (metis probe_slot_less)
  qed (use set_update_subset_insert assms(2) in fastforce)
  then show ?thesis using new by (simp add: reg_set_def)
qed (use assms in \<open>auto simp: reg_set_def\<close>)

lemma register_ok:
  assumes "reg_ok r" "b \<noteq> 0"
  shows "reg_ok (segment_register b r)"
  using assms
proof (cases rule: register_cases)
  case (new d)
  let ?s = "probe_slot (seg_hash b) d" and ?r = "r[probe_slot (seg_hash b) d := b]"
  have l: "length r = 256" using assms(1) by (rule reg_ok_length)
  have nth: "j < 256 \<Longrightarrow> ?r ! j = (if j = ?s then b else r ! j)" for j using l by simp
  have keep: "r ! j \<noteq> 0 \<Longrightarrow> j < 256 \<Longrightarrow> ?r ! j = r ! j" for j using nth new(3) by auto
  have uniq: "\<forall>i<256. \<forall>j<256. ?r ! i = ?r ! j \<longrightarrow> ?r ! i \<noteq> 0 \<longrightarrow> i = j"
  proof (intro allI impI)
    fix i j :: nat assume *: "i < 256" "j < 256" "?r ! i = ?r ! j" "?r ! i \<noteq> 0"
    have "b \<noteq> r ! i" "b \<noteq> r ! j" using new(4) l * by (metis nth_mem)+
    then show "i = j" using * assms(1) l by (auto simp: nth reg_ok_def split: if_splits)
  qed
  have reach: "\<exists>e<256. ?r ! probe_slot (seg_hash c) e = c \<and> (\<forall>e'<e. ?r ! probe_slot (seg_hash c) e' \<noteq> 0)"
    if "c \<in> reg_set ?r" for c
  proof (cases "c = b")
    case True
    then show ?thesis using new keep nth assms(2)
      by (intro exI [of _ d]) (metis probe_slot_less)
  next
    case False
    then have "c \<in> reg_set r" using that set_update_subset_insert [of r ?s b] by (auto simp: reg_set_def)
    then obtain e where "e < 256" "r ! probe_slot (seg_hash c) e = c"
        "\<forall>e'<e. r ! probe_slot (seg_hash c) e' \<noteq> 0" and "c \<noteq> 0"
      using reg_ok_reach [OF assms(1)] by (auto simp: reg_set_def)
    then show ?thesis using keep by (intro exI [of _ e]) (metis probe_slot_less)
  qed
  show ?thesis unfolding new(5) reg_ok_def using l uniq reach by (simp add: config_simps)
qed (use assms in simp_all)

section \<open>The registry as a bounded set of addresses\<close>

text \<open>The contract the rest of the allocator relies on: a set of at most \<open>cap\<close> non-zero addresses.\<close>

locale bounded_addr_set =
  fixes ok :: "'r \<Rightarrow> bool" and elems :: "'r \<Rightarrow> addr set" and cap :: nat
    and add :: "addr \<Rightarrow> 'r \<Rightarrow> 'r" and isin :: "'r \<Rightarrow> addr \<Rightarrow> bool"
  assumes finite_elems: "ok r \<Longrightarrow> finite (elems r)"
    and isin_elems: "ok r \<Longrightarrow> b \<noteq> 0 \<Longrightarrow> isin r b \<longleftrightarrow> b \<in> elems r"
    and add_ok: "ok r \<Longrightarrow> b \<noteq> 0 \<Longrightarrow> ok (add b r)"
    and add_elems: "ok r \<Longrightarrow> b \<noteq> 0 \<Longrightarrow> card (insert b (elems r)) \<le> cap \<Longrightarrow>
      elems (add b r) = insert b (elems r)"
begin

lemma isin_add:
  "ok r \<Longrightarrow> b \<noteq> 0 \<Longrightarrow> c \<noteq> 0 \<Longrightarrow> card (insert b (elems r)) \<le> cap \<Longrightarrow>
   isin (add b r) c \<longleftrightarrow> c = b \<or> isin r c"
  by (simp add: isin_elems add_ok add_elems)

lemma add_all:
  assumes "ok r" "0 \<notin> set bs" "card (elems r \<union> set bs) \<le> cap"
  shows "ok (fold add bs r) \<and> elems (fold add bs r) = elems r \<union> set bs"
  using assms
proof (induction bs arbitrary: r)
  case Nil
  then show ?case by simp
next
  case (Cons b bs)
  have "card (insert b (elems r)) \<le> card (elems r \<union> set (b # bs))"
    using Cons.prems finite_elems by (intro card_mono) auto
  then have "elems (add b r) = insert b (elems r)" using Cons.prems by (intro add_elems) auto
  then show ?case using Cons by (auto simp: add_ok)
qed

lemma isin_add_all:
  "ok r \<Longrightarrow> 0 \<notin> set bs \<Longrightarrow> card (elems r \<union> set bs) \<le> cap \<Longrightarrow> c \<noteq> 0 \<Longrightarrow>
   isin (fold add bs r) c \<longleftrightarrow> c \<in> set bs \<or> isin r c"
  using add_all [of r bs] by (auto simp: isin_elems)

end

lemma reg_set_finite: "finite (reg_set r)"
  by (simp add: reg_set_def)

lemma room_or_member:
  assumes "reg_ok r" "b \<noteq> 0" "card (insert b (reg_set r)) \<le> 256"
  shows "0 \<in> set r \<or> b \<in> set r"
proof (rule ccontr)
  assume n: "\<not> (0 \<in> set r \<or> b \<in> set r)"
  have "distinct r"
    unfolding distinct_conv_nth
  proof (intro allI impI)
    fix i j assume i: "i < length r" and "j < length r" "i \<noteq> j"
    moreover have "r ! i \<noteq> 0" using n nth_mem [OF i] by auto
    ultimately show "r ! i \<noteq> r ! j" using assms(1) unfolding reg_ok_def by blast
  qed
  then have "card (set r) = 256" using reg_ok_length [OF assms(1)] by (simp add: distinct_card)
  then have "card (insert b (reg_set r)) = 257" using n by (simp add: reg_set_def)
  then show False using assms(3) by simp
qed

interpretation reg: bounded_addr_set reg_ok reg_set 256 segment_register segment_is_registered
proof unfold_locales
  show "card (insert b (reg_set r)) \<le> 256 \<Longrightarrow> reg_set (segment_register b r) = insert b (reg_set r)"
    if "reg_ok r" "b \<noteq> 0" for r b
    using that room_or_member register_elems by blast
qed (simp_all add: reg_set_finite isin_iff register_ok)

section \<open>Properties\<close>

text \<open>
  C27. Starting from the empty table, after registering any addresses, at most 256 different ones,
  the lookup answers true for exactly these addresses: the registry is a faithful set, whatever the
  collisions and the order of registration.
\<close>

theorem registry_is_set:
  assumes "0 \<notin> set bs" "card (set bs) \<le> SEGMENT_REGISTRY_SIZE" "c \<noteq> 0"
  shows "segment_is_registered (fold segment_register bs (replicate SEGMENT_REGISTRY_SIZE 0)) c \<longleftrightarrow>
    c \<in> set bs"
proof -
  have e: "reg_set (replicate SEGMENT_REGISTRY_SIZE 0) = {}" by (auto simp: reg_set_def)
  have "card (reg_set (replicate SEGMENT_REGISTRY_SIZE 0) \<union> set bs) \<le> 256"
    using assms(2) unfolding e by (simp add: SEGMENT_REGISTRY_SIZE_def)
  then show ?thesis
    using reg.isin_add_all [OF reg_ok_empty assms(1) _ assms(3)] isin_iff [OF reg_ok_empty assms(3)]
    unfolding e by blast
qed

theorem registry_is_set_witness:
  "0 \<notin> set [4194304, 1077936128 :: u64] \<and> card (set [4194304, 1077936128 :: u64]) \<le> SEGMENT_REGISTRY_SIZE \<and>
   seg_hash 4194304 = seg_hash 1077936128 \<and>
   segment_is_registered
     (fold segment_register [4194304, 1077936128] (replicate SEGMENT_REGISTRY_SIZE 0)) 1077936128"
proof (intro conjI)
  show z: "0 \<notin> set [4194304, 1077936128 :: u64]" by simp
  show c: "card (set [4194304, 1077936128 :: u64]) \<le> SEGMENT_REGISTRY_SIZE" by (simp add: config_simps)
  show "seg_hash 4194304 = seg_hash 1077936128" by (simp add: config_simps seg_hash_def)
  show "segment_is_registered
     (fold segment_register [4194304, 1077936128] (replicate SEGMENT_REGISTRY_SIZE 0)) 1077936128"
    by (rule registry_is_set [OF z c, THEN iffD2]) simp_all
qed

text \<open>
  C37. A full table silently refuses a new segment: when all 256 slots are taken by other addresses,
  \<open>segment_register\<close> leaves the table as it is and the new segment is not found afterwards.
\<close>

theorem register_full_table:
  assumes "reg_ok r" "0 \<notin> set r" "b \<noteq> 0" "b \<notin> set r"
  shows "segment_register b r = r \<and> \<not> segment_is_registered (segment_register b r) b"
  using assms(1,3)
proof (cases rule: register_cases)
  case (new d)
  then show ?thesis using assms reg_ok_length by (metis nth_mem probe_slot_less)
qed (use assms in \<open>auto simp: isin_iff reg_set_def\<close>)

lemma full_table:
  assumes "reg_ok r" "card (reg_set r) = 256"
  shows "0 \<notin> set r"
proof
  assume "0 \<in> set r"
  then have "card (reg_set r) < card (set r)"
    unfolding reg_set_def by (intro psubset_card_mono) auto
  then show False using assms(2) card_length [of r] reg_ok_length [OF assms(1)] by linarith
qed

definition full_bases :: "addr list" where
  "full_bases = map (\<lambda>i. of_nat ((i + 1) * 4194304)) [0..<256]"

lemma full_bases_facts: "0 \<notin> set full_bases" "card (set full_bases) = 256" "1077936128 \<notin> set full_bases"
proof -
  have u: "i < 256 \<Longrightarrow> unat (of_nat ((i + 1) * 4194304) :: addr) = (i + 1) * 4194304" for i :: nat
    by (intro unat_of_nat_small) simp
  show "0 \<notin> set full_bases"
  proof
    assume "0 \<in> set full_bases"
    then obtain i where "i < 256" "0 = (of_nat ((i + 1) * 4194304) :: addr)"
      by (auto simp only: full_bases_def set_map set_upt image_iff atLeastLessThan_iff)
    then show False using u [of i] by simp
  qed
  have "inj_on (\<lambda>i. of_nat ((i + 1) * 4194304) :: addr) {0..<256}"
  proof (rule inj_onI)
    fix i j :: nat
    assume "i \<in> {0..<256}" "j \<in> {0..<256}"
      "(of_nat ((i + 1) * 4194304) :: addr) = of_nat ((j + 1) * 4194304)"
    then have "(i + 1) * 4194304 = (j + 1) * 4194304" using u [of i] u [of j] by (metis atLeastLessThan_iff)
    then show "i = j" by simp
  qed
  then show "card (set full_bases) = 256"
    unfolding full_bases_def set_map set_upt by (simp only: card_image card_atLeastLessThan)
  show "1077936128 \<notin> set full_bases"
  proof
    assume "1077936128 \<in> set full_bases"
    then obtain i where "i < 256" "1077936128 = (of_nat ((i + 1) * 4194304) :: addr)"
      by (auto simp only: full_bases_def set_map set_upt image_iff atLeastLessThan_iff)
    then have "unat (1077936128 :: addr) = (i + 1) * 4194304" using u [of i] by simp
    then have "(i + 1) * 4194304 = 257 * (4194304 :: nat)" by simp
    then have "i + 1 = 257" by (simp only: mult_cancel2) simp
    then show False using \<open>i < 256\<close> by simp
  qed
qed

theorem register_full_table_witness:
  "segment_register 1077936128 (fold segment_register full_bases (replicate SEGMENT_REGISTRY_SIZE 0)) =
     fold segment_register full_bases (replicate SEGMENT_REGISTRY_SIZE 0)"
proof -
  define z where "z = replicate SEGMENT_REGISTRY_SIZE (0 :: u64)"
  define r where "r = fold segment_register full_bases z"
  have z: "reg_ok z" "reg_set z = {}" using reg_ok_empty by (auto simp: z_def reg_set_def)
  have r: "reg_ok r" "reg_set r = set full_bases"
    using reg.add_all [OF z(1) full_bases_facts(1)] full_bases_facts(2) z(2) by (simp_all add: r_def)
  have "1077936128 \<notin> reg_set r" using full_bases_facts(3) r(2) by simp
  then have "1077936128 \<notin> set r" by (simp add: reg_set_def)
  then have "segment_register 1077936128 r = r"
    using register_full_table [of r 1077936128] full_table [of r] r full_bases_facts(2) by simp
  then show ?thesis by (simp only: r_def z_def)
qed

text \<open>
  C38. Removing a segment breaks the probe chains: of two segments whose addresses hash to the same
  slot, unregistering the first one registered makes the second one unfindable, although it was never
  unregistered.
\<close>

theorem unregister_loses_neighbour:
  fixes a b :: addr
  defines "r \<equiv> segment_register b (segment_register a (replicate SEGMENT_REGISTRY_SIZE 0))"
  assumes "a \<noteq> 0" "b \<noteq> 0" "a \<noteq> b" "seg_hash a = seg_hash b"
  shows "segment_is_registered r b \<and> \<not> segment_is_registered (segment_unregister a r) b"
proof -
  define z where "z = replicate SEGMENT_REGISTRY_SIZE (0 :: u64)"
  have z: "j < 256 \<Longrightarrow> z ! j = 0" and l: "length z = 256" for j
    by (simp_all add: z_def SEGMENT_REGISTRY_SIZE_def)
  define h where "h = seg_hash b"
  have ha: "seg_hash a = h" using assms(5) by (simp add: h_def)
  define s0 s1 where "s0 = probe_slot h 0" and "s1 = probe_slot h (Suc 0)"
  have s: "s0 < 256" "s1 < 256" "s0 \<noteq> s1"
    using probe_slot_inj [of 0 "Suc 0" h] by (auto simp: s0_def s1_def)
  note defs = s0_def [symmetric] s1_def [symmetric] h_def [symmetric] ha config_simps Let_def
  have ra: "segment_register a z = z[s0 := a]"
    using z [OF s(1)] by (simp add: segment_register_def register_from.simps [of z a h 0] defs)
  have rb: "r = z[s0 := a, s1 := b]"
    unfolding r_def z_def [symmetric] ra using z [OF s(2)] s l assms(2-4)
    by (simp add: segment_register_def register_from.simps [of "z[s0 := a]" b h 0]
        register_from.simps [of "z[s0 := a]" b h "Suc 0"] defs)
  have un: "segment_unregister a r = z[s0 := a, s1 := b, s0 := 0]"
    unfolding rb using s l
    by (simp add: segment_unregister_def unregister_from.simps [of "z[s0 := a, s1 := b]" a h 0] defs)
  have "segment_is_registered r b"
    unfolding rb using assms(2-4) s l
    by (simp add: segment_is_registered_def registered_from.simps [of "z[s0 := a, s1 := b]" b h 0]
        registered_from.simps [of "z[s0 := a, s1 := b]" b h "Suc 0"] defs)
  moreover have "\<not> segment_is_registered (segment_unregister a r) b"
    unfolding un using assms(2-4) s l
    by (simp add: segment_is_registered_def registered_from.simps [of "z[s0 := a, s1 := b, s0 := 0]" b h 0] defs)
  ultimately show ?thesis by simp
qed

theorem unregister_loses_neighbour_witness:
  "seg_hash 4194304 = seg_hash 1077936128 \<and>
   \<not> segment_is_registered (segment_unregister 4194304
      (segment_register 1077936128 (segment_register 4194304 (replicate SEGMENT_REGISTRY_SIZE 0)))) 1077936128"
proof
  show h: "seg_hash 4194304 = seg_hash 1077936128" by (simp add: config_simps seg_hash_def)
  show "\<not> segment_is_registered (segment_unregister 4194304
      (segment_register 1077936128 (segment_register 4194304 (replicate SEGMENT_REGISTRY_SIZE 0)))) 1077936128"
    using unregister_loses_neighbour [OF _ _ _ h] by simp
qed

end
