(* ===== verification/Os_Layer.thy ===== *)
theory Os_Layer
  imports Malloc_Types
begin

unbundle bit_operations_syntax

text \<open>
  The operating-system layer (\<open>src/os.c\<close>). The kernel is the parameter \<open>env\<close>: a call appends an
  event to the log, and \<open>mapped\<close> reads off the log which addresses are mapped. A successful
  anonymous \<open>mmap\<close> fills its range with zeros. \<open>env_ok\<close> states what POSIX promises of \<open>mmap\<close> and
  \<open>getpagesize\<close> and where the static buffer lies. Ranges are kept as they are passed. A kernel maps and unmaps whole pages and
  refuses an \<open>munmap\<close> that does not start at one: for lengths that are multiples of the page size, as all callers of \<open>os_mmap_aligned\<close> and \<open>os_munmap\<close>
  pass them, this makes no difference: only \<open>extra\<close> is not such a multiple, and the rest of its last page goes with the second trim.
\<close>

section \<open>The kernel\<close>

fun mapped :: "os_event list \<Rightarrow> nat \<Rightarrow> bool" where
  "mapped [] a \<longleftrightarrow> False"
| "mapped (Mmap p n # l) a \<longleftrightarrow> a \<in> span p (unat n) \<or> mapped l a"
| "mapped (Munmap p n # l) a \<longleftrightarrow> a \<notin> span p (unat n) \<and> mapped l a"
| "mapped (Madvise p n # l) a \<longleftrightarrow> mapped l a"

definition sys_mmap :: "env \<Rightarrow> u64 \<Rightarrow> gstate \<Rightarrow> addr option \<times> gstate" where
  "sys_mmap e n g = (case mmap_ret e (h_log g) n of
       None \<Rightarrow> (None, g)
     | Some p \<Rightarrow> (Some p, g\<lparr>h_log := Mmap p n # h_log g, h_mem := mem_set (h_mem g) p 0 n\<rparr>))"

definition sys_munmap :: "addr \<Rightarrow> u64 \<Rightarrow> gstate \<Rightarrow> gstate" where
  "sys_munmap p n g = g\<lparr>h_log := Munmap p n # h_log g\<rparr>"

definition sys_madvise :: "env \<Rightarrow> addr \<Rightarrow> u64 \<Rightarrow> gstate \<Rightarrow> gstate" where
  "sys_madvise e p n g = g\<lparr>h_log := Madvise p n # h_log g,
     h_mem := (\<lambda>a. if a - p < n \<and> reclaims e (h_log g) a then 0 else h_mem g a)\<rparr>"

definition env_ok :: "env \<Rightarrow> bool" where
  "env_ok e \<longleftrightarrow>
     (\<exists>k. 12 \<le> k \<and> k \<le> 16 \<and> page_size e = 2 ^ k) \<and>
     bootstrap_buf e \<noteq> 0 \<and> unat (bootstrap_buf e) + 65536 \<le> 2 ^ 48 \<and>
     (\<forall>log n p. mmap_ret e log n = Some p \<longrightarrow>
        n \<noteq> 0 \<and> p \<noteq> 0 \<and> unat p mod unat (page_size e) = 0 \<and> unat p + unat n \<le> 2 ^ 48 \<and>
        (\<forall>a \<in> span p (unat n). \<not> mapped log a) \<and>
        span p (unat n) \<inter> span (bootstrap_buf e) 65536 = {})"

section \<open>os.c\<close>

definition os_page_size :: "env \<Rightarrow> u64" where
  "os_page_size e = page_size e"

definition os_mmap_aligned :: "env \<Rightarrow> u64 \<Rightarrow> u64 \<Rightarrow> gstate \<Rightarrow> addr \<times> gstate" where
  "os_mmap_aligned e sz alignment g =
     (if alignment \<le> page_size e then
        (case sys_mmap e sz g of
           (None, g) \<Rightarrow> (0, g)
         | (Some p, g) \<Rightarrow> (p, g\<lparr>g_mmap_bytes := g_mmap_bytes g + sz\<rparr>))
      else
        let extra = sz + alignment - 1 in
        (case sys_mmap e extra g of
           (None, g) \<Rightarrow> (0, g)
         | (Some base, g) \<Rightarrow>
             let aligned = (base + alignment - 1) AND NOT (alignment - 1);
                 g = (if base < aligned then sys_munmap base (aligned - base) g else g);
                 fin = aligned + sz;
                 base_end = base + extra;
                 g = (if fin < base_end then sys_munmap fin (base_end - fin) g else g)
             in (aligned, g\<lparr>g_mmap_bytes := g_mmap_bytes g + sz\<rparr>)))"

definition os_munmap :: "addr \<Rightarrow> u64 \<Rightarrow> gstate \<Rightarrow> gstate" where
  "os_munmap p n g =
     (if p \<noteq> 0 \<and> n > 0 then
        let g = sys_munmap p n g in g\<lparr>g_mmap_bytes := g_mmap_bytes g - n\<rparr>
      else g)"

definition os_madvise_free :: "env \<Rightarrow> addr \<Rightarrow> u64 \<Rightarrow> gstate \<Rightarrow> gstate" where
  "os_madvise_free e p n g = (if p \<noteq> 0 \<and> n > 0 then sys_madvise e p n g else g)"

section \<open>Basic facts\<close>

lemma span_iff [simp]: "a \<in> span p n \<longleftrightarrow> unat p \<le> a \<and> a < unat p + n"
  by (simp add: span_def)

lemma env_ok_page: "env_ok e \<Longrightarrow> \<exists>k. 12 \<le> k \<and> k \<le> 16 \<and> page_size e = 2 ^ k"
  by (simp add: env_ok_def)

lemma env_ok_mmap:
  assumes "env_ok e" "mmap_ret e log n = Some p"
  shows "n \<noteq> 0" "p \<noteq> 0" "unat p mod unat (page_size e) = 0" "unat p + unat n \<le> 2 ^ 48"
    "\<And>a. unat p \<le> a \<Longrightarrow> a < unat p + unat n \<Longrightarrow> \<not> mapped log a"
    "span p (unat n) \<inter> span (bootstrap_buf e) 65536 = {}"
  using assms unfolding env_ok_def by (auto simp del: span_iff simp: span_def)

text \<open>Every field but the log, the bytes and the counter is untouched by the system calls.\<close>

definition same_meta :: "gstate \<Rightarrow> gstate \<Rightarrow> bool" where
  "same_meta g g' \<longleftrightarrow>
     g' = g\<lparr>h_log := h_log g', h_mem := h_mem g', g_mmap_bytes := g_mmap_bytes g'\<rparr>"

lemma same_metaD:
  assumes "same_meta g g'"
  shows "h_segs g' = h_segs g" "h_larges g' = h_larges g" "t_tld g' = t_tld g"
    "g_arenas g' = g_arenas g" "g_registry g' = g_registry g" "g_bin_size g' = g_bin_size g"
    "g_size_to_bin_small g' = g_size_to_bin_small g" "g_large_list g' = g_large_list g"
    "g_large_lock g' = g_large_lock g" "g_initialized g' = g_initialized g"
    "g_arena_count g' = g_arena_count g" "t_thread_id_counter g' = t_thread_id_counter g"
    "g_large_allocated g' = g_large_allocated g" "g_large_alloc_count g' = g_large_alloc_count g"
    "g_arena_next g' = g_arena_next g"
  by (subst assms [unfolded same_meta_def], simp)+

lemma same_meta_os_mmap_aligned: "os_mmap_aligned e n al g = (p, g') \<Longrightarrow> same_meta g g'"
  by (auto simp: os_mmap_aligned_def sys_mmap_def sys_munmap_def same_meta_def Let_def
      split: option.splits if_splits)

lemma same_meta_os_munmap: "same_meta g (os_munmap p n g)"
  by (auto simp: os_munmap_def sys_munmap_def same_meta_def Let_def)

lemma same_meta_os_madvise: "same_meta g (os_madvise_free e p n g)"
  by (auto simp: os_madvise_free_def sys_madvise_def same_meta_def Let_def)

section \<open>Aligned mapping\<close>

lemma mem_set_unat:
  assumes "unat p + unat n \<le> 2 ^ 64"
  shows "mem_set m p c n x = (if unat x \<in> span p (unat n) then c else m x)"
proof -
  have "x - p < n \<longleftrightarrow> unat p \<le> unat x \<and> unat x < unat p + unat n"
    using assms unat64_bound [of x] by (auto simp: word_less_nat_alt unat_sub_if')
  then show ?thesis by (simp add: mem_set_def)
qed

text \<open>What a caller gets from \<open>os_mmap_aligned\<close>: a fresh, zero-filled, aligned range and nothing else.\<close>

definition fresh_range :: "env \<Rightarrow> gstate \<Rightarrow> addr \<Rightarrow> nat \<Rightarrow> gstate \<Rightarrow> bool" where
  "fresh_range e g p n g' \<longleftrightarrow>
     p \<noteq> 0 \<and> unat p + n \<le> 2 ^ 48 \<and>
     span p n \<inter> span (bootstrap_buf e) 65536 = {} \<and>
     (\<forall>a \<in> span p n. \<not> mapped (h_log g) a) \<and>
     (\<forall>a. mapped (h_log g') a \<longleftrightarrow> mapped (h_log g) a \<or> a \<in> span p n) \<and>
     (\<forall>x. unat x \<in> span p n \<longrightarrow> h_mem g' x = 0) \<and>
     (\<forall>x. mapped (h_log g) (unat x) \<longrightarrow> h_mem g' x = h_mem g x)"

lemma os_mmap_aligned_direct:
  assumes "env_ok e" "2 ^ k \<le> page_size e" "k < 64" "os_mmap_aligned e sz (2 ^ k) g = (p, g')"
  shows "p = 0 \<and> g' = g \<or> fresh_range e g p (unat sz) g' \<and> unat p mod 2 ^ k = 0"
proof (cases "mmap_ret e (h_log g) sz")
  case None
  then show ?thesis using assms by (simp add: os_mmap_aligned_def sys_mmap_def)
next
  case (Some q)
  note q = env_ok_mmap [OF assms(1) Some]
  have g': "p = q" "h_log g' = Mmap q sz # h_log g" "h_mem g' = mem_set (h_mem g) q 0 sz"
    using assms(2,4) Some by (auto simp: os_mmap_aligned_def sys_mmap_def)
  obtain j where j: "page_size e = 2 ^ j" "j \<le> 16" using env_ok_page [OF assms(1)] by blast
  then have "(2::nat) ^ k \<le> 2 ^ j" using assms(2,3) by (simp add: word_le_nat_alt unat_pow2)
  then have "(2::nat) ^ k dvd 2 ^ j" by (simp add: le_imp_power_dvd)
  moreover have "2 ^ j dvd unat q" using q(3) j by (simp add: unat_pow2 mod_0_imp_dvd)
  ultimately have "unat q mod 2 ^ k = 0" by (meson dvd_trans dvd_imp_mod_0)
  moreover have "fresh_range e g q (unat sz) g'"
    using q g' by (auto simp: fresh_range_def mem_set_unat)
  ultimately show ?thesis using g' by simp
qed

text \<open>The addresses kept by the two trims, in numbers.\<close>

lemma trim_range:
  fixes B A S :: nat
  assumes "0 < A" and "L = B + A - 1 - (B + A - 1) mod A"
  shows "B \<le> L" "L + S \<le> B + (S + A - 1)" "L mod A = 0"
proof -
  have r: "(B + A - 1) mod A < A" using assms(1) by simp
  then show "B \<le> L" "L + S \<le> B + (S + A - 1)" using assms(2) by linarith+
  show "L mod A = 0" using assms(2) by (simp add: minus_mod_eq_mult_div)
qed

lemma os_mmap_aligned_trim:
  assumes "env_ok e" "page_size e < 2 ^ k" "k < 64" "unat sz + 2 ^ k \<le> 2 ^ 64"
    "os_mmap_aligned e sz (2 ^ k) g = (p, g')"
  shows "p = 0 \<and> g' = g \<or> fresh_range e g p (unat sz) g' \<and> unat p mod 2 ^ k = 0"
proof -
  have np: "\<not> 2 ^ k \<le> page_size e" using assms(2) by auto
  define extra where "extra = sz + 2 ^ k - 1"
  have A: "unat ((2 :: u64) ^ k) = 2 ^ k" using assms(3) by (simp add: unat_pow2)
  have "unat (sz + (2 ^ k - 1)) = unat sz + (2 ^ k - 1)"
    using assms(3,4) A by (subst unat_add_small) (auto simp: unat_minus_one)
  then have ex: "unat extra = unat sz + 2 ^ k - 1" by (simp add: extra_def add_diff_eq)
  show ?thesis
  proof (cases "mmap_ret e (h_log g) extra")
    case None
    then show ?thesis
      using np assms(5) by (simp add: os_mmap_aligned_def sys_mmap_def extra_def Let_def)
  next
    case (Some b)
    note b = env_ok_mmap [OF assms(1) Some]
    define L where "L = align_up b (2 ^ k)"
    have uL: "unat L = unat b + 2 ^ k - 1 - (unat b + 2 ^ k - 1) mod 2 ^ k"
      unfolding L_def using b(4) ex by (intro unat_align_up) (use assms(3) in auto)
    have tr': "unat b \<le> unat L" "unat L + unat sz \<le> unat b + unat extra" "unat L mod 2 ^ k = 0"
      using trim_range(1) [OF _ uL] trim_range(2) [OF _ uL, of "unat sz"] trim_range(3) [OF _ uL] ex
      by auto
    have fin: "unat (L + sz) = unat L + unat sz"
      using tr'(2) b(4) by (intro unat_add_small) simp
    have be: "unat (b + extra) = unat b + unat extra"
      using b(4) by (intro unat_add_small) simp
    have p: "p = L" and mem: "h_mem g' = mem_set (h_mem g) b 0 extra"
      and log: "h_log g' = (if L + sz < b + extra then [Munmap (L + sz) (b + extra - (L + sz))] else []) @
         (if b < L then [Munmap b (L - b)] else []) @ Mmap b extra # h_log g"
      using np assms(5) Some
      by (auto simp: os_mmap_aligned_def sys_mmap_def sys_munmap_def extra_def [symmetric] Let_def
          L_def align_up_def)
    have u1: "unat (L - b) = unat L - unat b"
      using tr'(1) by (intro unat_sub) (simp add: word_le_nat_alt)
    have u2: "unat (b + extra - (L + sz)) = unat b + unat extra - (unat L + unat sz)"
      using tr'(2) fin be by (subst unat_sub) (simp_all add: word_le_nat_alt)
    have map: "mapped (h_log g') a \<longleftrightarrow> mapped (h_log g) a \<or> a \<in> span L (unat sz)" for a
      using tr' b(5) [of a] u1 u2 fin be unfolding log
      by (auto simp: word_less_nat_alt)
    have "unat b \<noteq> 0" using b(2) by (simp add: unat_eq_zero)
    then have "L \<noteq> 0" using tr'(1) by auto
    then have "fresh_range e g L (unat sz) g'"
      unfolding fresh_range_def using b tr' map mem
      by (auto simp: mem_set_unat  span_def)
    then show ?thesis using p tr' by simp
  qed
qed

lemma os_mmap_aligned_fresh:
  assumes "env_ok e" "k < 64" "unat sz + 2 ^ k \<le> 2 ^ 64" "os_mmap_aligned e sz (2 ^ k) g = (p, g')"
  shows "p = 0 \<and> g' = g \<or> fresh_range e g p (unat sz) g' \<and> unat p mod 2 ^ k = 0"
  using os_mmap_aligned_direct os_mmap_aligned_trim assms by (meson linorder_not_le)

lemma os_mmap_aligned_bytes:
  "os_mmap_aligned e sz al g = (p, g') \<Longrightarrow> g' = g \<or> g_mmap_bytes g' = g_mmap_bytes g + sz"
  by (auto simp: os_mmap_aligned_def sys_mmap_def sys_munmap_def Let_def split: option.splits if_splits)

lemma os_mmap_aligned_events:
  assumes "os_mmap_aligned e sz al g = (p, g')" "ev \<in> set (h_log g')"
  shows "ev \<in> set (h_log g) \<or> (\<exists>q n. ev = Mmap q n) \<or> (\<exists>n. p \<noteq> 0 \<longrightarrow> ev = Munmap (p + sz) n \<and> page_size e < al) \<or>
    (\<exists>q n ex. ev = Munmap q n \<and> mmap_ret e (h_log g) ex = Some q)"
  using assms by (auto simp: os_mmap_aligned_def sys_mmap_def sys_munmap_def Let_def split: option.splits if_splits)

text \<open>The trims start at page boundaries: the kernel accepts them.\<close>

lemma os_mmap_aligned_trims:
  assumes e: "env_ok e" and k: "k < 64" and s: "unat sz + 2 ^ k \<le> 2 ^ 64" "unat sz mod unat (page_size e) = 0"
    and r: "os_mmap_aligned e sz (2 ^ k) g = (p, g')" "Munmap q n \<in> set (h_log g')"
  shows "Munmap q n \<in> set (h_log g) \<or> unat q mod unat (page_size e) = 0"
proof -
  from os_mmap_aligned_fresh [OF e k s(1) r(1)] show ?thesis
  proof
    assume "p = 0 \<and> g' = g"
    then show ?thesis using r(2) by simp
  next
    assume f: "fresh_range e g p (unat sz) g' \<and> unat p mod 2 ^ k = 0"
    then have p: "p \<noteq> 0" "unat (p + sz) = unat p + unat sz" by (auto simp: fresh_range_def intro!: unat_add_small)
    obtain j where j: "page_size e = 2 ^ j" "j \<le> 16" using env_ok_page [OF e] by blast
    have "unat q mod unat (page_size e) = 0" if "q = p + sz" "page_size e < 2 ^ k"
    proof -
      have "(2::nat) ^ j < 2 ^ k" using that(2) j k by (simp add: word_less_nat_alt unat_pow2)
      then have "(2::nat) ^ j dvd 2 ^ k" by (simp add: le_imp_power_dvd)
      then have "2 ^ j dvd unat p" using f by (meson dvd_trans mod_0_imp_dvd)
      then show ?thesis using s(2) that(1) p(2) j by (simp add: unat_pow2 mod_0_imp_dvd dvd_imp_mod_0)
    qed
    then show ?thesis using os_mmap_aligned_events [OF r] p(1) env_ok_mmap(3) [OF e] by auto
  qed
qed

lemma os_munmap_mapped:
  "p \<noteq> 0 \<Longrightarrow> n > 0 \<Longrightarrow>
   mapped (h_log (os_munmap p n g)) a \<longleftrightarrow> mapped (h_log g) a \<and> a \<notin> span p (unat n)"
  by (auto simp: os_munmap_def sys_munmap_def Let_def)

section \<open>A kernel that meets the contract\<close>

text \<open>
  A concrete kernel for the witnesses: it hands out addresses above 4 GB, each range after every
  range it has mapped before, and drops every page it is advised to.
\<close>

fun demo_top :: "os_event list \<Rightarrow> int" where
  "demo_top [] = 4294967296"
| "demo_top (Mmap p n # l) = max (uint p + uint n) (demo_top l)"
| "demo_top (Munmap p n # l) = demo_top l"
| "demo_top (Madvise p n # l) = demo_top l"

definition demo_mmap :: "os_event list \<Rightarrow> u64 \<Rightarrow> addr option" where
  "demo_mmap l n =
     (let p = (demo_top l + 4095) div 4096 * 4096
      in if n \<noteq> 0 \<and> p + uint n \<le> 140737488355328 then Some (word_of_int p) else None)"

definition demo_env :: "bool \<Rightarrow> env" where
  "demo_env d = \<lparr>page_size = 4096, mmap_ret = demo_mmap, reclaims = (\<lambda>_ _. True),
                 bootstrap_buf = 65536, malloc_debug = d\<rparr>"

lemma demo_top_ge: "4294967296 \<le> demo_top l"
  by (induction l rule: demo_top.induct) auto

lemma demo_top_mapped: "mapped l a \<Longrightarrow> int a < demo_top l"
proof (induction l rule: demo_top.induct)
  case (2 p n l)
  show ?case
  proof (cases "mapped l a")
    case False
    then have "a < unat p + unat n" using 2 by simp
    then have "int a < int (unat p + unat n)" by (simp only: of_nat_less_iff)
    then show ?thesis by simp
  qed (use 2 in auto)
qed auto

lemma demo_mmap_ok:
  assumes "demo_mmap l n = Some p"
  shows "n \<noteq> 0" "unat p mod 4096 = 0" "4294967296 \<le> unat p" "unat p + unat n \<le> 140737488355328"
    "\<And>a. unat p \<le> a \<Longrightarrow> \<not> mapped l a"
proof -
  define q where "q = (demo_top l + 4095) div 4096 * 4096"
  have n: "n \<noteq> 0" and le: "q + uint n \<le> 140737488355328" and p: "p = word_of_int q"
    using assms by (auto simp: demo_mmap_def Let_def q_def split: if_splits)
  have ge: "demo_top l \<le> q" unfolding q_def by linarith
  then have q0: "4294967296 \<le> q" using demo_top_ge [of l] by linarith
  have "0 \<le> uint n" by simp
  then have "q \<le> 140737488355328" using le by linarith
  then have "q < 2 ^ 64" by simp
  then have u: "int (unat p) = q"
    using q0 by (simp add: p uint_word_of_int)
  show "n \<noteq> 0" by (rule n)
  have "int (unat p) mod 4096 = 0" using u by (simp add: q_def)
  then show "unat p mod 4096 = 0"
    by (metis of_nat_mod of_nat_numeral of_nat_eq_0_iff)
  show "4294967296 \<le> unat p" using u q0 by linarith
  have "int (unat p + unat n) \<le> 140737488355328" using u le by simp
  then show "unat p + unat n \<le> 140737488355328" by linarith
  show "\<not> mapped l a" if "unat p \<le> a" for a
    using that u ge demo_top_mapped [of l a] by linarith
qed

lemma demo_env_ok: "env_ok (demo_env d)"
proof -
  have "mmap_ret (demo_env d) log n = Some p \<Longrightarrow>
        n \<noteq> 0 \<and> p \<noteq> 0 \<and> unat p mod unat (page_size (demo_env d)) = 0 \<and> unat p + unat n \<le> 2 ^ 48 \<and>
        (\<forall>a \<in> span p (unat n). \<not> mapped log a) \<and>
        span p (unat n) \<inter> span (bootstrap_buf (demo_env d)) 65536 = {}" for log n p
    using demo_mmap_ok [of log n p] by (auto simp: demo_env_def)
  moreover have "page_size (demo_env d) = 2 ^ 12" by (simp add: demo_env_def)
  ultimately show ?thesis
    unfolding env_ok_def by (auto simp: demo_env_def simp del: span_iff intro!: exI [of _ 12])
qed

section \<open>Properties\<close>

text \<open>
  C25. \<open>os_mmap_aligned\<close> for a power-of-two alignment and a size of whole pages, when \<open>size + alignment\<close> does not wrap: it
  returns NULL and changes nothing, or it returns an address that is a multiple of the alignment
  such that exactly the \<open>size\<close> bytes from there on are newly mapped (both trims are exact, and every \<open>munmap\<close> made starts at a page boundary), none
  of them was mapped before, all of them read as zero, and \<open>mmap_bytes\<close> has grown by \<open>size\<close>.
\<close>

theorem os_mmap_aligned_spec:
  assumes "env_ok e" "is_pow2 al" "unat sz mod unat (page_size e) = 0" "unat sz + unat al \<le> 2 ^ 64"
    and "os_mmap_aligned e sz al g = (p, g')"
  shows "p = 0 \<and> g' = g \<or>
    p \<noteq> 0 \<and> unat p mod unat al = 0 \<and>
    (\<forall>a. mapped (h_log g') a \<longleftrightarrow> mapped (h_log g) a \<or> a \<in> span p (unat sz)) \<and>
    (\<forall>a \<in> span p (unat sz). \<not> mapped (h_log g) a) \<and>
    (\<forall>x. unat x \<in> span p (unat sz) \<longrightarrow> h_mem g' x = 0) \<and>
    (\<forall>q n. Munmap q n \<in> set (h_log g') \<longrightarrow> Munmap q n \<in> set (h_log g) \<or> unat q mod unat (page_size e) = 0) \<and>
    g_mmap_bytes g' = g_mmap_bytes g + sz"
proof -
  obtain k where k: "k < 64" "al = 2 ^ k" using is_pow2D [OF assms(2)] by blast
  have u: "unat al = 2 ^ k" using k by (simp add: unat_pow2)
  have "p = 0 \<and> g' = g \<or> fresh_range e g p (unat sz) g' \<and> unat p mod 2 ^ k = 0"
    using os_mmap_aligned_fresh [OF assms(1) k(1)] assms(4,5) k(2) u by auto
  then show ?thesis
  proof
    assume a: "fresh_range e g p (unat sz) g' \<and> unat p mod 2 ^ k = 0"
    then have "p \<noteq> 0" by (simp add: fresh_range_def)
    moreover have "g_mmap_bytes g' = g_mmap_bytes g + sz"
      using assms(5) \<open>p \<noteq> 0\<close>
      by (auto simp: os_mmap_aligned_def sys_mmap_def sys_munmap_def Let_def
          split: option.splits if_splits)
    moreover have "\<forall>q n. Munmap q n \<in> set (h_log g') \<longrightarrow> Munmap q n \<in> set (h_log g) \<or> unat q mod unat (page_size e) = 0"
      using os_mmap_aligned_trims [OF assms(1) k(1) _ assms(3)] assms(4,5) k(2) u by auto
    ultimately show ?thesis using a u unfolding fresh_range_def by auto
  qed simp
qed

theorem os_mmap_aligned_spec_witness:
  "env_ok (demo_env False) \<and> is_pow2 4194304 \<and> unat (4194304 :: u64) + unat (4194304 :: u64) \<le> 2 ^ 64 \<and>
   unat (fst (os_mmap_aligned (demo_env False) 4194304 4194304 zero_gstate)) mod unat (4194304 :: u64) = 0"
proof -
  have pw: "is_pow2 4194304" using is_pow2_power [of 22] by simp
  show ?thesis
    using os_mmap_aligned_spec [OF demo_env_ok pw _ _ prod.collapse [symmetric], of 4194304 False zero_gstate]
      demo_env_ok pw by (auto simp: demo_env_def)
qed

end
