(* ===== verification/Malloc_Atomic.thy ===== *)
theory Malloc_Atomic
  imports Os_Layer
begin

unbundle bit_operations_syntax

text \<open>
  Tagged pointers and the Treiber stack of \<open>include/malloc_atomic.h\<close>. The stack operations are given
  here as seen by a thread that is not interfered with: the compare-and-swap finds the value
  just loaded, and the loop body runs once. \<open>Treiber_Concurrent\<close> takes the loop apart into its
  atomic steps.
\<close>

definition TAG_SHIFT :: nat where "TAG_SHIFT = 48"
definition PTR_MASK :: u64 where "PTR_MASK = push_bit TAG_SHIFT 1 - 1"

definition tagged_ptr_get :: "u64 \<Rightarrow> addr" where
  "tagged_ptr_get v = v AND PTR_MASK"

definition tagged_ptr_tag :: "u64 \<Rightarrow> u16" where
  "tagged_ptr_tag v = ucast (drop_bit TAG_SHIFT v)"

definition tagged_make :: "addr \<Rightarrow> u16 \<Rightarrow> u64" where
  "tagged_make p tag = push_bit TAG_SHIFT (ucast tag) OR (p AND PTR_MASK)"

definition treiber_push :: "mem \<Rightarrow> u64 \<Rightarrow> addr \<Rightarrow> u64 \<Rightarrow> mem \<times> u64" where
  "treiber_push m head node next_offset =
     (let old_ptr = head AND PTR_MASK;
          old_tag = ucast (drop_bit TAG_SHIFT head) :: u16;
          m = store64 m (node + next_offset) old_ptr
      in (m, tagged_make node (old_tag + 1)))"

definition treiber_pop :: "mem \<Rightarrow> u64 \<Rightarrow> u64 \<Rightarrow> addr \<times> u64" where
  "treiber_pop m head next_offset =
     (let old_ptr = head AND PTR_MASK in
      if old_ptr = 0 then (0, head) else
      let old_tag = ucast (drop_bit TAG_SHIFT head) :: u16;
          nxt = load64 m (old_ptr + next_offset)
      in (old_ptr, tagged_make nxt (old_tag + 1)))"

definition treiber_collect :: "u64 \<Rightarrow> addr \<times> u64" where
  "treiber_collect head =
     (let old_ptr = head AND PTR_MASK in
      if old_ptr = 0 then (0, head) else
      let old_tag = ucast (drop_bit TAG_SHIFT head) :: u16
      in (old_ptr, tagged_make 0 (old_tag + 1)))"

section \<open>Packing and unpacking\<close>

lemma PTR_MASK_eq: "PTR_MASK = mask 48"
  by (simp add: PTR_MASK_def TAG_SHIFT_def mask_eq_exp_minus_1 push_bit_eq_mult)

lemma and_PTR_MASK: "unat p < 2 ^ 48 \<Longrightarrow> p AND PTR_MASK = p"
proof -
  assume "unat p < 2 ^ 48"
  then have "unat (take_bit 48 p) = unat p"
    by (simp only: unsigned_take_bit_eq take_bit_nat_eq_self)
  then have "take_bit 48 p = p" by (simp only: word_unat_eq_iff)
  then show ?thesis by (simp add: PTR_MASK_eq take_bit_eq_mask)
qed

lemma get_make_mask: "tagged_ptr_get (tagged_make p t) = p AND PTR_MASK"
  by (rule bit_word_eqI) (auto simp: tagged_ptr_get_def tagged_make_def PTR_MASK_eq TAG_SHIFT_def bit_simps)

lemma tag_make [simp]: "tagged_ptr_tag (tagged_make p t) = t"
  by (rule bit_word_eqI) (auto simp: tagged_ptr_tag_def tagged_make_def PTR_MASK_eq TAG_SHIFT_def bit_simps)

lemma get_make: "unat p < 2 ^ 48 \<Longrightarrow> tagged_ptr_get (tagged_make p t) = p"
  by (simp add: get_make_mask and_PTR_MASK)

lemma get_zero [simp]: "tagged_ptr_get 0 = 0"
  by (simp add: tagged_ptr_get_def)

lemma get_make_0 [simp]: "tagged_ptr_get (tagged_make 0 t) = 0"
  by (simp add: get_make_mask)

section \<open>The stack as a list\<close>

text \<open>\<open>stack m head xs\<close>: the nodes from the top, linked through their first word.\<close>

definition stack :: "mem \<Rightarrow> u64 \<Rightarrow> addr list \<Rightarrow> bool" where
  "stack m head xs \<longleftrightarrow> chain m (tagged_ptr_get head) xs"

lemma stack_push:
  assumes "stack m h xs" "p \<noteq> 0" "unat p < 2 ^ 48" "unat p mod 8 = 0" "p \<notin> set xs"
    "\<And>x. x \<in> set xs \<Longrightarrow> unat x mod 8 = 0" "treiber_push m h p 0 = (m', h')"
  shows "stack m' h' (p # xs)"
proof -
  have m': "m' = store64 m p (tagged_ptr_get h)" and h': "tagged_ptr_get h' = p"
    using assms(3,7) by (auto simp: treiber_push_def tagged_ptr_get_def [symmetric] get_make Let_def)
  have "chain m' (tagged_ptr_get h) xs"
    unfolding m' using assms by (intro chain_store_notin) (auto simp: stack_def)
  then show ?thesis using assms(2) m' h' by (simp add: stack_def)
qed

lemma stack_collect:
  assumes "stack m h xs" "treiber_collect h = (p, h')"
  shows "chain m p xs" "stack m h' []"
  using assms
  by (auto simp: stack_def treiber_collect_def tagged_ptr_get_def [symmetric] Let_def split: if_splits)

lemma stack_pop:
  assumes "stack m h xs" "\<And>x. x \<in> set xs \<Longrightarrow> unat x < 2 ^ 48" "treiber_pop m h 0 = (p, h')"
  shows "case xs of [] \<Rightarrow> p = 0 \<and> h' = h | x # ys \<Rightarrow> p = x \<and> stack m h' ys"
proof (cases xs)
  case Nil
  then show ?thesis
    using assms by (simp add: stack_def treiber_pop_def tagged_ptr_get_def [symmetric] Let_def)
next
  case (Cons x ys)
  have x: "tagged_ptr_get h = x" "x \<noteq> 0" "chain m (load64 m x) ys" using assms(1) Cons by (simp_all add: stack_def)
  have "unat (load64 m x) < 2 ^ 48"
    using x(3) assms(2) Cons by (cases ys) auto
  then show ?thesis
    using assms(3) x Cons
    by (auto simp: stack_def treiber_pop_def tagged_ptr_get_def [symmetric] get_make Let_def)
qed

section \<open>Properties\<close>

text \<open>
  C28. A 48-bit pointer and a 16-bit tag packed by \<open>tagged_make\<close> are recovered by \<open>tagged_ptr_get\<close> and
  \<open>tagged_ptr_tag\<close>, and packing what was read back gives the same word.
\<close>

theorem tagged_roundtrip:
  assumes "unat p < 2 ^ 48"
  shows "tagged_ptr_get (tagged_make p t) = p \<and> tagged_ptr_tag (tagged_make p t) = t \<and>
    tagged_make (tagged_ptr_get v) (tagged_ptr_tag v) = v"
proof -
  have "tagged_make (tagged_ptr_get v) (tagged_ptr_tag v) = v"
    by (rule bit_word_eqI)
      (auto simp: tagged_ptr_tag_def tagged_ptr_get_def tagged_make_def PTR_MASK_eq TAG_SHIFT_def bit_simps)
  then show ?thesis using assms by (simp add: get_make)
qed

theorem tagged_roundtrip_witness:
  "unat (4294967296 :: addr) < 2 ^ 48 \<and> tagged_ptr_get (tagged_make 4294967296 65535) = 4294967296"
  using tagged_roundtrip [of 4294967296 65535] by simp

text \<open>
  C29. Pushing nodes one after the other and then collecting returns a chain of exactly these nodes,
  last one first, in front of what was there, and leaves the stack empty: no node is lost or
  duplicated.
\<close>

fun push_all :: "mem \<Rightarrow> u64 \<Rightarrow> addr list \<Rightarrow> mem \<times> u64" where
  "push_all m h [] = (m, h)"
| "push_all m h (p # ps) = (case treiber_push m h p 0 of (m', h') \<Rightarrow> push_all m' h' ps)"

lemma push_all_stack:
  assumes "stack m h xs" "distinct (ps @ xs)" "\<And>x. x \<in> set ps \<union> set xs \<Longrightarrow> unat x mod 8 = 0"
    "\<And>x. x \<in> set ps \<Longrightarrow> x \<noteq> 0 \<and> unat x < 2 ^ 48" "push_all m h ps = (m', h')"
  shows "stack m' h' (rev ps @ xs)"
  using assms
proof (induction ps arbitrary: m h xs)
  case Nil
  then show ?case by simp
next
  case (Cons p ps)
  obtain m1 h1 where p1: "treiber_push m h p 0 = (m1, h1)" by fastforce
  have "stack m1 h1 (p # xs)"
    using Cons.prems by (intro stack_push [OF _ _ _ _ _ _ p1]) auto
  then have "stack m' h' (rev ps @ p # xs)"
    using Cons.prems p1 by (intro Cons.IH) auto
  then show ?case by simp
qed

theorem push_collect:
  assumes "stack m h xs" "distinct (ps @ xs)" "\<forall>x \<in> set ps \<union> set xs. unat x mod 8 = 0"
    "\<forall>x \<in> set ps. x \<noteq> 0 \<and> unat x < 2 ^ 48"
    and "push_all m h ps = (m', h')" "treiber_collect h' = (p, h'')"
  shows "chain m' p (rev ps @ xs) \<and> stack m' h'' []"
  using stack_collect [OF push_all_stack [OF assms(1,2) _ _ assms(5)] assms(6)] assms(3,4) by simp

theorem push_collect_witness:
  "chain (fst (push_all (\<lambda>_. 0) 0 [4096, 4112]))
     (fst (treiber_collect (snd (push_all (\<lambda>_. 0) 0 [4096, 4112])))) [4112, 4096]"
  using push_collect [of "\<lambda>_. 0" 0 "[]" "[4096, 4112]", OF _ _ _ _ prod.collapse [symmetric] prod.collapse [symmetric]]
  by (simp add: stack_def)

end
