(* ===== verification/Page_Slots.thy ===== *)
theory Page_Slots
  imports Malloc_Atomic
begin

unbundle bit_operations_syntax

text \<open>
  Pages (\<open>src/page.c\<close>, and \<open>page_start\<close> of \<open>src/segment.c\<close>): a slab of equal slots, handed out first
  in order (bump allocation), then from the local free list, then from the frees of other
  threads. An operation works on the byte memory and the page's metadata; None is a walk that
  does not end.
\<close>

section \<open>Operations\<close>

definition page_start :: "page_meta \<Rightarrow> addr" where
  "page_start pg = pm_segment pg + ucast (pm_page_index pg) * PAGE_SIZE_ALLOC"

definition page_init :: "env \<Rightarrow> addr \<Rightarrow> nat option \<Rightarrow> u16 \<Rightarrow> u8 \<Rightarrow> u32 \<Rightarrow> page_meta \<Rightarrow> page_meta" where
  "page_init e seg arena page_index bin_idx slot_size pg =
     (let slot_size = (if slot_size < of_nat MIN_ALIGN then of_nat MIN_ALIGN else slot_size);
          slot_size = (slot_size + of_nat (MIN_ALIGN - 1)) AND NOT (of_nat (MIN_ALIGN - 1));
          capacity = ucast (PAGE_SIZE_ALLOC div ucast slot_size) :: u16
      in pg\<lparr>pm_segment := seg, pm_arena := arena, pm_page_index := page_index,
            pm_bin_idx := bin_idx, pm_state := PAGE_ACTIVE, pm_slot_size := slot_size,
            pm_capacity := capacity, pm_used := 0,
            pm_bump_offset := 0, pm_bump_end := ucast capacity * slot_size,
            pm_local_free := 0, pm_local_free_count := 0,
            pm_remote_free := 0, pm_remote_free_count := 0,
            pm_next := None, pm_prev := None, pm_owner_tid := UINT32_MAX,
            pm_debug_bitmap := (if malloc_debug e then replicate DEBUG_BITMAP_BYTES 0
                                else pm_debug_bitmap pg)\<rparr>)"

text \<open>The loop of \<open>page_collect_remote\<close>: from a node to the last one, counting.\<close>

partial_function (option) collect_walk :: "mem \<Rightarrow> addr \<Rightarrow> u16 \<Rightarrow> (addr \<times> u16) option" where
  "collect_walk m current count =
     (let nxt = load64 m current
      in if nxt = 0 then Some (current, count + 1) else collect_walk m nxt (count + 1))"

declare collect_walk.simps [code]

definition page_collect_remote :: "mem \<Rightarrow> page_meta \<Rightarrow> (mem \<times> page_meta) option" where
  "page_collect_remote m pg =
     (case treiber_collect (pm_remote_free pg) of (lst, head) \<Rightarrow>
        if lst = 0 then Some (m, pg\<lparr>pm_remote_free := head\<rparr>)
        else (case collect_walk m lst 0 of
            None \<Rightarrow> None
          | Some (tail, count) \<Rightarrow>
              Some (store64 m tail (pm_local_free pg),
                    pg\<lparr>pm_remote_free := head, pm_local_free := lst,
                       pm_local_free_count := pm_local_free_count pg + count,
                       pm_remote_free_count := pm_remote_free_count pg - count\<rparr>)))"

definition page_pop_local :: "mem \<Rightarrow> page_meta \<Rightarrow> addr \<times> page_meta" where
  "page_pop_local m pg =
     (pm_local_free pg,
      pg\<lparr>pm_local_free := load64 m (pm_local_free pg),
         pm_local_free_count := pm_local_free_count pg - 1,
         pm_used := pm_used pg + 1\<rparr>)"

definition page_bump :: "page_meta \<Rightarrow> addr \<times> page_meta" where
  "page_bump pg =
     (page_start pg + ucast (pm_bump_offset pg),
      pg\<lparr>pm_bump_offset := pm_bump_offset pg + pm_slot_size pg, pm_used := pm_used pg + 1\<rparr>)"

definition page_alloc_slot :: "mem \<Rightarrow> page_meta \<Rightarrow> (addr \<times> mem \<times> page_meta) option" where
  "page_alloc_slot m pg =
     (if pm_local_free pg \<noteq> 0 then
        (case page_pop_local m pg of (slot, pg) \<Rightarrow> Some (slot, m, pg))
      else if pm_bump_offset pg < pm_bump_end pg then
        (case page_bump pg of (slot, pg) \<Rightarrow> Some (slot, m, pg))
      else (case page_collect_remote m pg of
          None \<Rightarrow> None
        | Some (m, pg) \<Rightarrow>
            if pm_local_free pg \<noteq> 0 then
              (case page_pop_local m pg of (slot, pg) \<Rightarrow> Some (slot, m, pg))
            else Some (0, m, pg)))"

definition page_free_slot_local :: "addr \<Rightarrow> mem \<Rightarrow> page_meta \<Rightarrow> mem \<times> page_meta" where
  "page_free_slot_local p m pg =
     (store64 m p (pm_local_free pg),
      pg\<lparr>pm_local_free := p, pm_local_free_count := pm_local_free_count pg + 1,
         pm_used := pm_used pg - 1\<rparr>)"

definition page_free_slot_remote :: "addr \<Rightarrow> mem \<Rightarrow> page_meta \<Rightarrow> mem \<times> page_meta" where
  "page_free_slot_remote p m pg =
     (case treiber_push m (pm_remote_free pg) p 0 of (m, head) \<Rightarrow>
        (m, pg\<lparr>pm_remote_free := head, pm_remote_free_count := pm_remote_free_count pg + 1,
               pm_used := pm_used pg - 1\<rparr>))"

definition page_is_empty :: "page_meta \<Rightarrow> bool" where
  "page_is_empty pg \<longleftrightarrow> pm_used pg = 0 \<and> pm_bump_offset pg > 0"

section \<open>Geometry\<close>

definition slot_addr :: "page_meta \<Rightarrow> nat \<Rightarrow> addr" where
  "slot_addr pg i = page_start pg + of_nat (i * unat (pm_slot_size pg))"

definition bump_count :: "page_meta \<Rightarrow> nat" where
  "bump_count pg = unat (pm_bump_offset pg) div unat (pm_slot_size pg)"

definition page_geom :: "page_meta \<Rightarrow> bool" where
  "page_geom pg \<longleftrightarrow>
     16 \<le> unat (pm_slot_size pg) \<and> unat (pm_slot_size pg) \<le> 32768 \<and>
     unat (pm_slot_size pg) mod 16 = 0 \<and>
     unat (pm_capacity pg) = 65536 div unat (pm_slot_size pg) \<and>
     unat (pm_bump_end pg) = unat (pm_capacity pg) * unat (pm_slot_size pg) \<and>
     unat (pm_bump_offset pg) mod unat (pm_slot_size pg) = 0 \<and>
     pm_bump_offset pg \<le> pm_bump_end pg \<and>
     pm_segment pg \<noteq> 0 \<and> unat (pm_segment pg) mod 4194304 = 0 \<and>
     unat (pm_segment pg) + 4194304 \<le> 2 ^ 48 \<and>
     1 \<le> unat (pm_page_index pg) \<and> unat (pm_page_index pg) < 64"

lemma page_geomD:
  assumes "page_geom pg"
  shows "16 \<le> unat (pm_slot_size pg)" "unat (pm_slot_size pg) \<le> 32768"
    "unat (pm_slot_size pg) mod 16 = 0" "unat (pm_capacity pg) = 65536 div unat (pm_slot_size pg)"
    "unat (pm_bump_end pg) = unat (pm_capacity pg) * unat (pm_slot_size pg)"
    "unat (pm_bump_offset pg) = bump_count pg * unat (pm_slot_size pg)"
    "pm_bump_offset pg \<le> pm_bump_end pg" "pm_segment pg \<noteq> 0"
    "unat (pm_segment pg) mod 4194304 = 0" "unat (pm_segment pg) + 4194304 \<le> 2 ^ 48"
    "1 \<le> unat (pm_page_index pg)" "unat (pm_page_index pg) < 64"
  using assms by (auto simp: page_geom_def bump_count_def)

lemma capacity_bounds:
  assumes "page_geom pg"
  shows "unat (pm_capacity pg) \<le> 4096" "2 \<le> unat (pm_capacity pg)"
    "unat (pm_capacity pg) * unat (pm_slot_size pg) \<le> 65536"
proof -
  note g = page_geomD [OF assms]
  show "unat (pm_capacity pg) \<le> 4096"
    using g(1,4) div_le_mono2 [of 16 "unat (pm_slot_size pg)" 65536] by simp
  show "2 \<le> unat (pm_capacity pg)"
    using g(1,2,4) div_le_mono2 [of "unat (pm_slot_size pg)" 32768 65536] by simp
  show "unat (pm_capacity pg) * unat (pm_slot_size pg) \<le> 65536"
    using g(4) by simp
qed

lemma bump_count_le: "page_geom pg \<Longrightarrow> bump_count pg \<le> unat (pm_capacity pg)"
  using page_geomD [of pg] by (simp add: word_le_nat_alt)

lemma unat_page_start:
  assumes "page_geom pg"
  shows "unat (page_start pg) = unat (pm_segment pg) + unat (pm_page_index pg) * 65536"
proof -
  note g = page_geomD [OF assms]
  have m: "unat (ucast (pm_page_index pg) * PAGE_SIZE_ALLOC) = unat (pm_page_index pg) * 65536"
    using g(12) by (subst unat_mult_lem [THEN iffD1]) (auto simp: unat_ucast_up config_simps)
  show ?thesis
    unfolding page_start_def using g(10,12) m by (subst unat_add_small) auto
qed

lemma unat_slot_addr:
  assumes "page_geom pg" "i < unat (pm_capacity pg)"
  shows "unat (slot_addr pg i) = unat (pm_segment pg) + unat (pm_page_index pg) * 65536 + i * unat (pm_slot_size pg)"
    "i * unat (pm_slot_size pg) + unat (pm_slot_size pg) \<le> 65536"
proof -
  note g = page_geomD [OF assms(1)] and c = capacity_bounds [OF assms(1)]
  have "(i + 1) * unat (pm_slot_size pg) \<le> unat (pm_capacity pg) * unat (pm_slot_size pg)"
    using assms(2) by (intro mult_le_mono1) simp
  then show le: "i * unat (pm_slot_size pg) + unat (pm_slot_size pg) \<le> 65536"
    using c(3) by simp
  have o: "unat (of_nat (i * unat (pm_slot_size pg)) :: addr) = i * unat (pm_slot_size pg)"
    using le by (intro unat_of_nat_small) simp
  have "unat (pm_page_index pg) * 65536 + 65536 \<le> 4194304" using g(12) by simp
  then show "unat (slot_addr pg i) = unat (pm_segment pg) + unat (pm_page_index pg) * 65536 + i * unat (pm_slot_size pg)"
    unfolding slot_addr_def using g(10) le o by (subst unat_add_small) (auto simp: unat_page_start [OF assms(1)])
qed

lemma slot_addr_facts:
  assumes "page_geom pg" "i < unat (pm_capacity pg)"
  shows "slot_addr pg i \<noteq> 0" "unat (slot_addr pg i) < 2 ^ 48" "unat (slot_addr pg i) mod 16 = 0"
    "unat (slot_addr pg i) mod 8 = 0"
proof -
  note g = page_geomD [OF assms(1)] and u = unat_slot_addr [OF assms]
  have "0 < unat (slot_addr pg i)" using u(1) g(11) by simp
  then show "slot_addr pg i \<noteq> 0" by auto
  show "unat (slot_addr pg i) < 2 ^ 48" using u g(1,10,12) by simp
  have "4194304 dvd unat (pm_segment pg)" using g(9) by (rule mod_0_imp_dvd)
  then have "16 dvd unat (pm_segment pg)" by (rule dvd_trans [rotated]) simp
  moreover have "16 dvd i * unat (pm_slot_size pg)" using g(3) by (simp add: mod_0_imp_dvd dvd_mult)
  ultimately show "unat (slot_addr pg i) mod 16 = 0" using u(1) by simp
  then show "unat (slot_addr pg i) mod 8 = 0" by presburger
qed

lemma slot_addr_inj:
  assumes "page_geom pg" "i < unat (pm_capacity pg)" "j < unat (pm_capacity pg)"
    "slot_addr pg i = slot_addr pg j"
  shows "i = j"
proof -
  have "i * unat (pm_slot_size pg) = j * unat (pm_slot_size pg)"
    using unat_slot_addr(1) [OF assms(1,2)] unat_slot_addr(1) [OF assms(1,3)]
    unfolding assms(4) by linarith
  then show ?thesis using page_geomD(1) [OF assms(1)] by simp
qed

section \<open>The page invariant\<close>

text \<open>
  \<open>page_lists m pg L R\<close>: \<open>L\<close> is the local free list and \<open>R\<close> the remote one, both made of different
  slots already handed out once, and the counters agree with them.
\<close>

definition page_lists :: "mem \<Rightarrow> page_meta \<Rightarrow> addr list \<Rightarrow> addr list \<Rightarrow> bool" where
  "page_lists m pg L R \<longleftrightarrow>
     chain m (pm_local_free pg) L \<and> stack m (pm_remote_free pg) R \<and> distinct (L @ R) \<and>
     set (L @ R) \<subseteq> slot_addr pg ` {..<bump_count pg} \<and>
     unat (pm_local_free_count pg) = length L \<and> unat (pm_remote_free_count pg) = length R \<and>
     unat (pm_used pg) + length L + length R = bump_count pg"

definition page_ok :: "mem \<Rightarrow> page_meta \<Rightarrow> bool" where
  "page_ok m pg \<longleftrightarrow> page_geom pg \<and> (\<exists>L R. page_lists m pg L R)"

definition page_free :: "mem \<Rightarrow> page_meta \<Rightarrow> addr set" where
  "page_free m pg = {x. \<exists>xs. x \<in> set xs \<and>
     (chain m (pm_local_free pg) xs \<or> stack m (pm_remote_free pg) xs)}"

definition page_live :: "mem \<Rightarrow> page_meta \<Rightarrow> addr set" where
  "page_live m pg = slot_addr pg ` {..<bump_count pg} - page_free m pg"

lemma page_free_lists: "page_lists m pg L R \<Longrightarrow> page_free m pg = set L \<union> set R"
  unfolding page_free_def page_lists_def stack_def using chain_unique by blast

lemma page_live_lists:
  "page_lists m pg L R \<Longrightarrow> page_live m pg = slot_addr pg ` {..<bump_count pg} - (set L \<union> set R)"
  by (simp add: page_live_def page_free_lists)

lemma page_okE:
  assumes "page_ok m pg"
  obtains L R where "page_geom pg" "page_lists m pg L R"
  using assms by (auto simp: page_ok_def)

lemma bumped_slot_facts:
  assumes "page_geom pg" "x \<in> slot_addr pg ` {..<bump_count pg}"
  shows "x \<noteq> 0" "unat x < 2 ^ 48" "unat x mod 16 = 0" "unat x mod 8 = 0"
proof -
  obtain i where "x = slot_addr pg i" "i < unat (pm_capacity pg)"
    using assms bump_count_le [OF assms(1)] by auto
  then show "x \<noteq> 0" "unat x < 2 ^ 48" "unat x mod 16 = 0" "unat x mod 8 = 0"
    using slot_addr_facts [OF assms(1)] by simp_all
qed

lemma page_lists_slot:
  "page_geom pg \<Longrightarrow> page_lists m pg L R \<Longrightarrow> x \<in> set L \<union> set R \<Longrightarrow> x \<noteq> 0 \<and> unat x < 2 ^ 48 \<and> unat x mod 8 = 0"
  using bumped_slot_facts by (auto simp: page_lists_def)

lemma card_bumped: "page_geom pg \<Longrightarrow> card (slot_addr pg ` {..<bump_count pg}) = bump_count pg"
  using slot_addr_inj bump_count_le [of pg]
  by (subst card_image) (auto simp: inj_on_def)

text \<open>The number of live slots is the \<open>used\<close> counter.\<close>

lemma card_page_live:
  assumes "page_ok m pg"
  shows "card (page_live m pg) = unat (pm_used pg)"
proof -
  obtain L R where g: "page_geom pg" and l: "page_lists m pg L R" using assms by (rule page_okE)
  have "card (page_live m pg) = bump_count pg - card (set (L @ R))"
    using l g by (subst page_live_lists [OF l], subst card_Diff_subset)
      (auto simp: page_lists_def card_bumped)
  also have "card (set (L @ R)) = length L + length R"
    using l by (subst distinct_card) (auto simp: page_lists_def)
  finally show ?thesis using l unfolding page_lists_def by linarith
qed

text \<open>Only the links of free slots matter: other bytes of the page may change at will.\<close>

lemma page_lists_cong:
  assumes "page_lists m pg L R" "\<And>x. x \<in> set L \<union> set R \<Longrightarrow> load64 m' x = load64 m x"
  shows "page_lists m' pg L R"
proof -
  have "chain m' p xs = chain m p xs" if "set xs \<subseteq> set L \<union> set R" for p xs
    using that assms(2) by (intro chain_cong) auto
  then show ?thesis using assms(1) by (auto simp: page_lists_def stack_def)
qed

lemma page_ok_cong:
  assumes "page_ok m pg" "\<And>x. x \<in> page_free m pg \<Longrightarrow> load64 m' x = load64 m x"
  shows "page_ok m' pg" "page_live m' pg = page_live m pg" "page_free m' pg = page_free m pg"
proof -
  obtain L R where g: "page_geom pg" and l: "page_lists m pg L R" using assms(1) by (rule page_okE)
  then have l': "page_lists m' pg L R"
    using assms(2) by (intro page_lists_cong [OF l]) (simp add: page_free_lists)
  then show "page_ok m' pg" using g by (auto simp: page_ok_def)
  show "page_live m' pg = page_live m pg" "page_free m' pg = page_free m pg"
    using l l' by (simp_all add: page_live_lists page_free_lists)
qed

section \<open>Allocation\<close>

lemma pop_local_ok:
  assumes "page_geom pg" "page_lists m pg L R" "pm_local_free pg \<noteq> 0" "page_pop_local m pg = (p, pg')"
  shows "\<exists>L'. L = p # L' \<and> page_geom pg' \<and> page_lists m pg' L' R \<and>
    p \<in> slot_addr pg ` {..<bump_count pg} \<and>
    slot_addr pg' = slot_addr pg \<and> bump_count pg' = bump_count pg"
proof -
  obtain L' where L: "L = p # L'" and ch: "chain m (load64 m p) L'" and p: "p = pm_local_free pg"
  proof -
    have p: "p = pm_local_free pg" using assms(4) by (simp add: page_pop_local_def)
    have "chain m p L" using assms(2) by (simp add: page_lists_def p)
    then show ?thesis using that p assms(3) by (auto simp: chain_nonzero)
  qed
  have sl: "slot_addr pg' = slot_addr pg" "bump_count pg' = bump_count pg" "page_geom pg'"
    using assms(1,4) by (auto simp: page_pop_local_def slot_addr_def bump_count_def page_start_def page_geom_def)
  have cap: "bump_count pg \<le> 4096"
    using bump_count_le [OF assms(1)] capacity_bounds(1) [OF assms(1)] by simp
  have "unat (pm_used pg + 1) = unat (pm_used pg) + 1"
    using assms(2) cap by (subst unat_add_small) (auto simp: page_lists_def)
  moreover have "unat (pm_local_free_count pg - 1) = length L'"
    using assms(2) L by (subst unat_minus_one) (auto simp: page_lists_def unat_eq_zero)
  ultimately have "page_lists m pg' L' R"
    using assms(2,4) L ch sl p by (auto simp: page_lists_def page_pop_local_def)
  then show ?thesis using L sl assms(2) by (auto simp: page_lists_def)
qed

lemma bump_ok:
  assumes "page_geom pg" "page_lists m pg L R" "pm_bump_offset pg < pm_bump_end pg" "page_bump pg = (p, pg')"
  shows "p = slot_addr pg (bump_count pg) \<and> bump_count pg < unat (pm_capacity pg) \<and> page_geom pg' \<and>
    page_lists m pg' L R \<and> slot_addr pg' = slot_addr pg \<and> bump_count pg' = Suc (bump_count pg)"
proof -
  note g = page_geomD [OF assms(1)] and c = capacity_bounds [OF assms(1)]
  let ?s = "unat (pm_slot_size pg)"
  have lt: "bump_count pg < unat (pm_capacity pg)"
    using assms(3) g(1,5,6) by (simp add: word_less_nat_alt)
  have "(bump_count pg + 1) * ?s \<le> unat (pm_capacity pg) * ?s" using lt by (intro mult_le_mono1) simp
  then have le: "bump_count pg * ?s + ?s \<le> unat (pm_capacity pg) * ?s" by simp
  then have off: "unat (pm_bump_offset pg + pm_slot_size pg) = Suc (bump_count pg) * ?s"
    using g(6) c(3) by (subst unat_add_small) auto
  have pg': "pg' = pg\<lparr>pm_bump_offset := pm_bump_offset pg + pm_slot_size pg, pm_used := pm_used pg + 1\<rparr>"
    and p: "p = page_start pg + ucast (pm_bump_offset pg)" using assms(4) by (auto simp: page_bump_def)
  have bc: "bump_count pg' = Suc (bump_count pg)" using off g(1) by (simp add: bump_count_def pg')
  have sl: "slot_addr pg' = slot_addr pg" by (auto simp: pg' slot_addr_def page_start_def)
  have "ucast (pm_bump_offset pg) = (of_nat (bump_count pg * ?s) :: addr)"
    using g(6) le c(3)
    by (simp add: word_unat_eq_iff unat_ucast_up unat_of_nat_small del: of_nat_mult)
  then have "p = slot_addr pg (bump_count pg)" by (simp add: p slot_addr_def)
  moreover have "page_geom pg'"
    using assms(1) off le g(5) by (auto simp: pg' page_geom_def word_le_nat_alt)
  moreover have "unat (pm_used pg + 1) = unat (pm_used pg) + 1"
    using assms(2) lt c(1) by (subst unat_add_small) (auto simp: page_lists_def)
  then have "page_lists m pg' L R"
    using assms(2) bc sl by (auto simp: page_lists_def pg' lessThan_Suc)
  ultimately show ?thesis using lt bc sl by simp
qed

section \<open>What an operation leaves alone\<close>

definition same_shape :: "page_meta \<Rightarrow> page_meta \<Rightarrow> bool" where
  "same_shape pg pg' \<longleftrightarrow>
     pg' = pg\<lparr>pm_used := pm_used pg', pm_bump_offset := pm_bump_offset pg',
       pm_local_free := pm_local_free pg', pm_local_free_count := pm_local_free_count pg',
       pm_remote_free := pm_remote_free pg', pm_remote_free_count := pm_remote_free_count pg'\<rparr>"

text \<open>\<open>writes_links m m' A\<close>: only the first words of the slots in \<open>A\<close> may differ.\<close>

definition writes_links :: "mem \<Rightarrow> mem \<Rightarrow> addr set \<Rightarrow> bool" where
  "writes_links m m' A \<longleftrightarrow> (\<forall>x. m' x \<noteq> m x \<longrightarrow> (\<exists>a \<in> A. x - a < 8))"

lemma same_shape_refl [simp]: "same_shape pg pg"
  by (simp add: same_shape_def)

lemma same_shape_trans: "same_shape a b \<Longrightarrow> same_shape b c \<Longrightarrow> same_shape a c"
  by (cases a; cases b; cases c) (simp add: same_shape_def)

lemma same_shapeD:
  assumes "same_shape pg pg'"
  shows "pm_segment pg' = pm_segment pg" "pm_page_index pg' = pm_page_index pg"
    "pm_slot_size pg' = pm_slot_size pg" "pm_capacity pg' = pm_capacity pg"
    "pm_bump_end pg' = pm_bump_end pg" "pm_arena pg' = pm_arena pg" "pm_bin_idx pg' = pm_bin_idx pg"
    "pm_state pg' = pm_state pg" "pm_owner_tid pg' = pm_owner_tid pg" "pm_next pg' = pm_next pg"
    "pm_prev pg' = pm_prev pg" "pm_debug_bitmap pg' = pm_debug_bitmap pg"
  by (subst assms [unfolded same_shape_def], simp)+

lemma same_shape_slot: "same_shape pg pg' \<Longrightarrow> slot_addr pg' = slot_addr pg"
  by (rule ext) (simp add: slot_addr_def page_start_def same_shapeD)

lemma writes_links_refl [simp]: "writes_links m m A"
  by (simp add: writes_links_def)

lemma writes_links_store: "a \<in> A \<Longrightarrow> writes_links m (store64 m a v) A"
  using store64_apart [of _ a m v] by (auto simp: writes_links_def linorder_not_less [symmetric])

lemma writes_links_load:
  assumes "writes_links m m' A" "\<And>a. a \<in> A \<Longrightarrow> unat a mod 8 = 0" "unat x mod 8 = 0" "x \<notin> A"
  shows "load64 m' x = load64 m x"
proof (rule load64_cong)
  fix i :: nat assume i: "i < 8"
  show "m' (x + of_nat i) = m (x + of_nat i)"
  proof (rule ccontr)
    assume "m' (x + of_nat i) \<noteq> m (x + of_nat i)"
    then obtain a where a: "a \<in> A" "x + of_nat i - a < 8" using assms(1) by (auto simp: writes_links_def)
    then have "x \<noteq> a" using assms(4) by auto
    then have "8 \<le> x + of_nat i - a" using a assms(2,3) i by (intro apart_aligned8) auto
    then show False using a(2) by (simp add: leD)
  qed
qed

section \<open>Collecting and freeing\<close>

lemma collect_walk_chain:
  "chain m p xs \<Longrightarrow> xs \<noteq> [] \<Longrightarrow> collect_walk m p c = Some (last xs, c + of_nat (length xs))"
proof (induction xs arbitrary: p c)
  case Nil
  then show ?case by simp
next
  case (Cons x xs)
  show ?case
  proof (cases xs)
    case Nil
    then show ?thesis using Cons.prems by (simp add: collect_walk.simps [of m x])
  next
    case (Cons y ys)
    then have "collect_walk m (load64 m x) (c + 1) = Some (last xs, c + 1 + of_nat (length xs))"
      using Cons.prems by (intro Cons.IH) auto
    then show ?thesis using Cons Cons.prems
      by (simp add: collect_walk.simps [of m x] add.assoc)
  qed
qed

lemma collect_remote_ok:
  assumes g: "page_geom pg" and l: "page_lists m pg L R"
  shows "\<exists>m' pg'. page_collect_remote m pg = Some (m', pg') \<and> page_geom pg' \<and>
    page_lists m' pg' (R @ L) [] \<and> same_shape pg pg' \<and> bump_count pg' = bump_count pg \<and>
    writes_links m m' (set R)"
proof (cases "R = []")
  case True
  then have "treiber_collect (pm_remote_free pg) = (0, pm_remote_free pg)"
    using l by (simp add: page_lists_def stack_def treiber_collect_def tagged_ptr_get_def)
  then show ?thesis using True g l by (simp add: page_collect_remote_def)
next
  case False
  obtain p h where col: "treiber_collect (pm_remote_free pg) = (p, h)" by fastforce
  have ch: "chain m p R" "stack m h []"
    using stack_collect [OF _ col] l by (auto simp: page_lists_def)
  then have p: "p \<noteq> 0" using False by (cases R) auto
  have w: "collect_walk m p 0 = Some (last R, of_nat (length R))"
    using collect_walk_chain [OF ch(1) False, of 0] by simp
  define m' where "m' = store64 m (last R) (pm_local_free pg)"
  define pg' where "pg' = pg\<lparr>pm_remote_free := h, pm_local_free := p,
      pm_local_free_count := pm_local_free_count pg + of_nat (length R),
      pm_remote_free_count := pm_remote_free_count pg - of_nat (length R)\<rparr>"
  have eq: "page_collect_remote m pg = Some (m', pg')"
    using col p w by (simp add: page_collect_remote_def m'_def pg'_def)
  have "bump_count pg \<le> 4096"
    using bump_count_le [OF g] capacity_bounds(1) [OF g] by simp
  then have len: "length L + length R \<le> 4096" using l unfolding page_lists_def by linarith
  have u: "unat (of_nat (length R) :: u16) = length R" using len by (intro unat_of_nat_small) simp
  have c1: "unat (pm_local_free_count pg + of_nat (length R)) = length L + length R"
    using l len u by (subst unat_add_small) (auto simp: page_lists_def)
  have "pm_remote_free_count pg = of_nat (length R)"
    using l u by (simp add: word_unat_eq_iff page_lists_def)
  then have c2: "unat (pm_remote_free_count pg - of_nat (length R)) = 0" by simp
  have "chain m' p (R @ L)"
    unfolding m'_def using l ch False page_lists_slot [OF g l]
    by (intro chain_splice) (auto simp: page_lists_def)
  then have "page_lists m' pg' (R @ L) []"
    using l c1 c2 by (auto simp: page_lists_def pg'_def stack_def slot_addr_def page_start_def bump_count_def
        tagged_ptr_get_def ch(2) [unfolded stack_def tagged_ptr_get_def, simplified])
  moreover have "page_geom pg'" using g by (simp add: page_geom_def pg'_def)
  moreover have "same_shape pg pg'" by (simp add: same_shape_def pg'_def)
  moreover have "writes_links m m' (set R)"
    unfolding m'_def using False by (intro writes_links_store) simp
  ultimately show ?thesis using eq by (auto simp: pg'_def bump_count_def)
qed

lemma used_minus:
  assumes "page_ok m pg" "p \<in> page_live m pg"
  shows "unat (pm_used pg - 1) = unat (pm_used pg) - 1" "0 < unat (pm_used pg)"
proof -
  have "finite (page_live m pg)" by (simp add: page_live_def)
  then have "0 < card (page_live m pg)" using assms(2) by (auto simp: card_gt_0_iff)
  then show "0 < unat (pm_used pg)" using card_page_live [OF assms(1)] by simp
  then show "unat (pm_used pg - 1) = unat (pm_used pg) - 1" by (intro unat_minus_one) auto
qed

lemma free_local_ok:
  assumes ok: "page_ok m pg" and p: "p \<in> page_live m pg" and f: "page_free_slot_local p m pg = (m', pg')"
  shows "page_ok m' pg'" "page_live m' pg' = page_live m pg - {p}" "same_shape pg pg'"
    "writes_links m m' {p}"
proof -
  obtain L R where g: "page_geom pg" and l: "page_lists m pg L R" using ok by (rule page_okE)
  have m': "m' = store64 m p (pm_local_free pg)" and pg': "pg' = pg\<lparr>pm_local_free := p,
      pm_local_free_count := pm_local_free_count pg + 1, pm_used := pm_used pg - 1\<rparr>"
    using f by (auto simp: page_free_slot_local_def)
  have pn: "p \<in> slot_addr pg ` {..<bump_count pg}" "p \<notin> set L" "p \<notin> set R"
    using p by (auto simp: page_live_lists [OF l])
  note pf = bumped_slot_facts [OF g pn(1)] and um = used_minus [OF ok p]
  have "page_lists m' pg L R"
    unfolding m' using pn pf(4) page_lists_slot [OF g l]
    by (intro page_lists_cong [OF l] load64_store64_apart) auto
  moreover have "bump_count pg \<le> 4096"
    using bump_count_le [OF g] capacity_bounds(1) [OF g] by simp
  then have "unat (pm_local_free_count pg + 1) = Suc (length L)"
    using l by (subst unat_add_small) (auto simp: page_lists_def)
  ultimately have l': "page_lists m' pg' (p # L) R"
    using pn pf(1) um by (auto simp: page_lists_def pg' m' slot_addr_def page_start_def bump_count_def)
  moreover have g': "page_geom pg'" using g by (simp add: page_geom_def pg')
  ultimately show "page_ok m' pg'" by (auto simp: page_ok_def)
  have "slot_addr pg' = slot_addr pg" "bump_count pg' = bump_count pg"
    by (auto simp: pg' slot_addr_def page_start_def bump_count_def)
  then show "page_live m' pg' = page_live m pg - {p}"
    unfolding page_live_lists [OF l'] page_live_lists [OF l] by auto
  show "same_shape pg pg'" by (simp add: same_shape_def pg')
  show "writes_links m m' {p}" unfolding m' by (intro writes_links_store) simp
qed

lemma free_remote_ok:
  assumes ok: "page_ok m pg" and p: "p \<in> page_live m pg" and f: "page_free_slot_remote p m pg = (m', pg')"
  shows "page_ok m' pg'" "page_live m' pg' = page_live m pg - {p}" "same_shape pg pg'"
    "writes_links m m' {p}"
proof -
  obtain L R where g: "page_geom pg" and l: "page_lists m pg L R" using ok by (rule page_okE)
  obtain h where push: "treiber_push m (pm_remote_free pg) p 0 = (m', h)"
    and pg': "pg' = pg\<lparr>pm_remote_free := h,
      pm_remote_free_count := pm_remote_free_count pg + 1, pm_used := pm_used pg - 1\<rparr>"
    using f by (auto simp: page_free_slot_remote_def split: prod.splits)
  have m': "m' = store64 m p (tagged_ptr_get (pm_remote_free pg))"
    using push by (auto simp: treiber_push_def Let_def tagged_ptr_get_def)
  have pn: "p \<in> slot_addr pg ` {..<bump_count pg}" "p \<notin> set L" "p \<notin> set R"
    using p by (auto simp: page_live_lists [OF l])
  note pf = bumped_slot_facts [OF g pn(1)] and um = used_minus [OF ok p]
  have "page_lists m' pg L R"
    unfolding m' using pn pf(4) page_lists_slot [OF g l]
    by (intro page_lists_cong [OF l] load64_store64_apart) auto
  moreover have "stack m' h (p # R)"
    using l pn pf page_lists_slot [OF g l] by (intro stack_push [OF _ _ _ _ _ _ push]) (auto simp: page_lists_def)
  moreover have "bump_count pg \<le> 4096"
    using bump_count_le [OF g] capacity_bounds(1) [OF g] by simp
  then have "unat (pm_remote_free_count pg + 1) = Suc (length R)"
    using l by (subst unat_add_small) (auto simp: page_lists_def)
  ultimately have l': "page_lists m' pg' L (p # R)"
    using pn um by (auto simp: page_lists_def pg' slot_addr_def page_start_def bump_count_def)
  moreover have g': "page_geom pg'" using g by (simp add: page_geom_def pg')
  ultimately show "page_ok m' pg'" by (auto simp: page_ok_def)
  have "slot_addr pg' = slot_addr pg" "bump_count pg' = bump_count pg"
    by (auto simp: pg' slot_addr_def page_start_def bump_count_def)
  then show "page_live m' pg' = page_live m pg - {p}"
    unfolding page_live_lists [OF l'] page_live_lists [OF l] by auto
  show "same_shape pg pg'" by (simp add: same_shape_def pg')
  show "writes_links m m' {p}" unfolding m' by (intro writes_links_store) simp
qed

section \<open>Allocation as a change of the live set\<close>

definition all_slots :: "page_meta \<Rightarrow> addr set" where
  "all_slots pg = slot_addr pg ` {..<unat (pm_capacity pg)}"

lemma page_live_slots: "page_ok m pg \<Longrightarrow> page_live m pg \<subseteq> all_slots pg"
  using bump_count_le [of pg] by (auto simp: page_live_def all_slots_def page_ok_def)

lemma pop_local_live:
  assumes "page_geom pg" "page_lists m pg L R" "pm_local_free pg \<noteq> 0" "page_pop_local m pg = (p, pg')"
  shows "page_ok m pg'" "p \<in> all_slots pg" "p \<notin> page_live m pg" "p \<noteq> 0"
    "page_live m pg' = insert p (page_live m pg)" "same_shape pg pg'"
proof -
  obtain L' where o: "L = p # L'" "page_geom pg'" "page_lists m pg' L' R"
      "p \<in> slot_addr pg ` {..<bump_count pg}" "slot_addr pg' = slot_addr pg" "bump_count pg' = bump_count pg"
    using pop_local_ok [OF assms] by blast
  show "page_ok m pg'" using o by (auto simp: page_ok_def)
  show "p \<in> all_slots pg" using o(4) bump_count_le [OF assms(1)] by (auto simp: all_slots_def)
  show "p \<noteq> 0" using bumped_slot_facts(1) [OF assms(1) o(4)] .
  show "p \<notin> page_live m pg" using o(1) by (simp add: page_live_lists [OF assms(2)])
  have "p \<notin> set L'" "p \<notin> set R" using assms(2) o(1) by (auto simp: page_lists_def)
  then show "page_live m pg' = insert p (page_live m pg)"
    unfolding page_live_lists [OF assms(2)] page_live_lists [OF o(3)] using o(1,4,5,6) by auto
  show "same_shape pg pg'" using assms(4) by (auto simp: same_shape_def page_pop_local_def)
qed

lemma bump_live:
  assumes "page_geom pg" "page_lists m pg L R" "pm_bump_offset pg < pm_bump_end pg" "page_bump pg = (p, pg')"
  shows "page_ok m pg'" "p \<in> all_slots pg" "p \<notin> page_live m pg" "p \<noteq> 0"
    "page_live m pg' = insert p (page_live m pg)" "same_shape pg pg'"
proof -
  note o = bump_ok [OF assms]
  have l': "page_lists m pg' L R" using o by simp
  have new: "p \<notin> slot_addr pg ` {..<bump_count pg}"
    using o slot_addr_inj [OF assms(1), of "bump_count pg"] by (auto dest: less_trans)
  show "page_ok m pg'" using o by (auto simp: page_ok_def)
  show "p \<in> all_slots pg" using o by (auto simp: all_slots_def)
  show "p \<noteq> 0" using o slot_addr_facts(1) [OF assms(1)] by simp
  show "p \<notin> page_live m pg" using new by (auto simp: page_live_def)
  have "p \<notin> set L \<union> set R" using new assms(2) by (auto simp: page_lists_def)
  then show "page_live m pg' = insert p (page_live m pg)"
    unfolding page_live_lists [OF assms(2)] page_live_lists [OF l'] using o by (auto simp: lessThan_Suc)
  show "same_shape pg pg'" using assms(4) by (auto simp: same_shape_def page_bump_def)
qed

lemma collect_live:
  assumes "page_ok m pg"
  shows "\<exists>m' pg'. page_collect_remote m pg = Some (m', pg') \<and> page_ok m' pg' \<and>
    page_live m' pg' = page_live m pg \<and> same_shape pg pg' \<and> pm_bump_offset pg' = pm_bump_offset pg \<and>
    pm_used pg' = pm_used pg \<and> page_free m' pg' = page_free m pg \<and>
    writes_links m m' (page_free m pg) \<and> (pm_local_free pg' = 0 \<longrightarrow> page_free m pg = {})"
proof -
  obtain L R where g: "page_geom pg" and l: "page_lists m pg L R" using assms by (rule page_okE)
  obtain m' pg' where c: "page_collect_remote m pg = Some (m', pg')" "page_geom pg'"
      "page_lists m' pg' (R @ L) []" "same_shape pg pg'" "bump_count pg' = bump_count pg"
      "writes_links m m' (set R)"
    using collect_remote_ok [OF g l] by blast
  have "page_ok m' pg'" using c(2,3) by (auto simp: page_ok_def)
  moreover have "page_live m' pg' = page_live m pg"
    unfolding page_live_lists [OF l] page_live_lists [OF c(3)]
    using same_shape_slot [OF c(4)] c(5) by auto
  moreover have "page_free m' pg' = page_free m pg"
    unfolding page_free_lists [OF l] page_free_lists [OF c(3)] by auto
  moreover have "pm_local_free pg' = 0 \<longrightarrow> page_free m pg = {}"
    using c(3) by (auto simp: page_free_lists [OF l] page_lists_def)
  moreover have "writes_links m m' (page_free m pg)"
    using c(6) by (auto simp: writes_links_def page_free_lists [OF l])
  moreover have "pm_bump_offset pg' = pm_bump_offset pg" "pm_used pg' = pm_used pg"
    using c(1) by (auto simp: page_collect_remote_def split: prod.splits option.splits if_splits)
  ultimately show ?thesis using c(1,4) by blast
qed

lemma no_bump_all:
  assumes "page_geom pg" "\<not> pm_bump_offset pg < pm_bump_end pg"
  shows "bump_count pg = unat (pm_capacity pg)"
proof -
  note g = page_geomD [OF assms(1)]
  have "pm_bump_offset pg = pm_bump_end pg" using assms(2) g(7) by simp
  then have "bump_count pg * unat (pm_slot_size pg) = unat (pm_capacity pg) * unat (pm_slot_size pg)"
    using g(5,6) by metis
  then show ?thesis using g(1) by simp
qed

text \<open>\<open>alloc_post\<close>: what a successful or failed allocation in a page gives.\<close>

definition alloc_post :: "mem \<Rightarrow> page_meta \<Rightarrow> addr \<Rightarrow> mem \<Rightarrow> page_meta \<Rightarrow> bool" where
  "alloc_post m pg p m' pg' \<longleftrightarrow>
     page_ok m' pg' \<and> same_shape pg pg' \<and> writes_links m m' (page_free m pg) \<and>
     (if p = 0 then page_live m pg = all_slots pg \<and> page_live m' pg' = page_live m pg
      else p \<in> all_slots pg \<and> p \<notin> page_live m pg \<and> page_live m' pg' = insert p (page_live m pg))"

lemma page_alloc_ok:
  assumes "page_ok m pg"
  shows "\<exists>p m' pg'. page_alloc_slot m pg = Some (p, m', pg') \<and> alloc_post m pg p m' pg'"
proof -
  obtain L R where g: "page_geom pg" and l: "page_lists m pg L R" using assms by (rule page_okE)
  consider "pm_local_free pg \<noteq> 0" | "pm_local_free pg = 0" "pm_bump_offset pg < pm_bump_end pg"
    | "pm_local_free pg = 0" "\<not> pm_bump_offset pg < pm_bump_end pg" by blast
  then show ?thesis
  proof cases
    case 1
    obtain p pg' where "page_pop_local m pg = (p, pg')" by fastforce
    then show ?thesis
      using pop_local_live [OF g l 1] 1 by (auto simp: page_alloc_slot_def alloc_post_def)
  next
    case 2
    obtain p pg' where "page_bump pg = (p, pg')" by fastforce
    then show ?thesis
      using bump_live [OF g l 2(2)] 2 by (auto simp: page_alloc_slot_def alloc_post_def)
  next
    case 3
    obtain m1 pg1 where c: "page_collect_remote m pg = Some (m1, pg1)" "page_ok m1 pg1"
        "page_live m1 pg1 = page_live m pg" "same_shape pg pg1" "pm_bump_offset pg1 = pm_bump_offset pg"
        "writes_links m m1 (page_free m pg)" "pm_local_free pg1 = 0 \<longrightarrow> page_free m pg = {}"
      using collect_live [OF assms] by blast
    have slots: "all_slots pg1 = all_slots pg"
      using same_shape_slot [OF c(4)] same_shapeD(4) [OF c(4)] by (simp add: all_slots_def)
    show ?thesis
    proof (cases "pm_local_free pg1 = 0")
      case True
      then have "page_live m pg = all_slots pg"
        using c(7) no_bump_all [OF g 3(2)] by (simp add: page_live_def all_slots_def)
      then show ?thesis using True 3 c by (simp add: page_alloc_slot_def alloc_post_def)
    next
      case False
      obtain L1 R1 where g1: "page_geom pg1" and l1: "page_lists m1 pg1 L1 R1" using c(2) by (rule page_okE)
      obtain p pg2 where pop: "page_pop_local m1 pg1 = (p, pg2)" by fastforce
      note pl = pop_local_live [OF g1 l1 False pop]
      have "same_shape pg pg2" using c(4) pl(6) by (rule same_shape_trans)
      then show ?thesis using False 3 c pop pl slots by (simp add: page_alloc_slot_def alloc_post_def)
    qed
  qed
qed

section \<open>Initialisation\<close>

lemma page_init_slot_size:
  assumes "unat s \<le> 32768"
  shows "unat (pm_slot_size (page_init e seg ar idx bin s pg)) = (max 16 (unat s) + 15) div 16 * 16"
proof -
  define s' :: u32 where "s' = (if s < 16 then 16 else s)"
  have u: "unat s' = max 16 (unat s)" by (auto simp: s'_def word_less_nat_alt max_def)
  have "unat (s' + 15) = unat s' + 15" using u assms by (subst unat_add_small) auto
  moreover have "unat ((s' + 15) AND NOT (mask 4)) = unat (s' + 15) - unat (s' + 15) mod 2 ^ 4"
    by (rule unat_and_not_mask)
  moreover have "(mask 4 :: u32) = 15" by (simp add: mask_eq_exp_minus_1)
  ultimately have "unat ((s' + 15) AND NOT 15) = (unat s' + 15) div 16 * 16"
    by (simp add: minus_mod_eq_div_mult)
  moreover have "pm_slot_size (page_init e seg ar idx bin s pg) = (s' + 15) AND NOT 15"
    by (simp add: page_init_def config_simps Let_def s'_def)
  ultimately show ?thesis using u by simp
qed

lemma page_init_ok:
  assumes "unat s \<le> 32768" "seg \<noteq> 0" "unat seg mod 4194304 = 0" "unat seg + 4194304 \<le> 2 ^ 48"
    "1 \<le> unat idx" "unat idx < 64"
  shows "page_ok m (page_init e seg ar idx bin s pg)" "page_live m (page_init e seg ar idx bin s pg) = {}"
proof -
  let ?pg = "page_init e seg ar idx bin s pg"
  define ss where "ss = unat (pm_slot_size ?pg)"
  have ss: "ss = (max 16 (unat s) + 15) div 16 * 16" unfolding ss_def by (rule page_init_slot_size [OF assms(1)])
  then have b: "16 \<le> ss" "ss \<le> 32768" "ss mod 16 = 0" using assms(1) by auto
  have "65536 div ss \<le> 4096" using div_le_mono2 [of 16 ss 65536] b(1) by simp
  moreover have "unat (65536 div ucast (pm_slot_size ?pg) :: u64) = 65536 div ss"
    by (simp add: unat_div unat_ucast_up ss_def)
  moreover have "pm_capacity ?pg = ucast (65536 div ucast (pm_slot_size ?pg) :: u64)"
    by (simp add: page_init_def config_simps Let_def)
  ultimately have cap: "unat (pm_capacity ?pg) = 65536 div ss"
    by (simp add: unsigned_ucast_eq take_bit_nat_eq_self)
  have "unat (ucast (pm_capacity ?pg) * pm_slot_size ?pg) = 65536 div ss * ss"
    using cap b(2) by (subst unat_mult_lem [THEN iffD1]) (simp_all add: unat_ucast_up ss_def [symmetric]
        le_less_trans [OF div_times_less_eq_dividend])
  moreover have "pm_bump_end ?pg = ucast (pm_capacity ?pg) * pm_slot_size ?pg" "pm_bump_offset ?pg = 0"
    "pm_segment ?pg = seg" "pm_page_index ?pg = idx" "pm_local_free ?pg = 0" "pm_remote_free ?pg = 0"
    "pm_local_free_count ?pg = 0" "pm_remote_free_count ?pg = 0" "pm_used ?pg = 0"
    by (simp_all add: page_init_def Let_def)
  ultimately have l: "page_geom ?pg" "page_lists m ?pg [] []" "bump_count ?pg = 0"
    using assms b cap by (simp_all add: page_geom_def ss_def [symmetric] page_lists_def stack_def bump_count_def)
  show "page_ok m ?pg" using l unfolding page_ok_def by blast
  show "page_live m ?pg = {}" unfolding page_live_lists [OF l(2)] l(3) by simp
qed

section \<open>Slots do not overlap\<close>

lemma all_slots_facts:
  assumes "page_geom pg" "x \<in> all_slots pg"
  shows "x \<noteq> 0" "unat x < 2 ^ 48" "unat x mod 16 = 0" "unat x mod 8 = 0"
    "span x (unat (pm_slot_size pg)) \<subseteq> span (page_start pg) 65536"
proof -
  obtain i where i: "x = slot_addr pg i" "i < unat (pm_capacity pg)" using assms(2) by (auto simp: all_slots_def)
  show "x \<noteq> 0" "unat x < 2 ^ 48" "unat x mod 16 = 0" "unat x mod 8 = 0"
    using slot_addr_facts [OF assms(1) i(2)] i(1) by simp_all
  show "span x (unat (pm_slot_size pg)) \<subseteq> span (page_start pg) 65536"
    using unat_slot_addr [OF assms(1) i(2)] unat_page_start [OF assms(1)] i(1) by (auto simp: span_def)
qed

lemma all_slots_apart:
  assumes "page_geom pg" "x \<in> all_slots pg" "y \<in> all_slots pg" "x \<noteq> y"
  shows "span x (unat (pm_slot_size pg)) \<inter> span y (unat (pm_slot_size pg)) = {}"
proof -
  let ?s = "unat (pm_slot_size pg)"
  obtain i j where i: "x = slot_addr pg i" "i < unat (pm_capacity pg)"
    and j: "y = slot_addr pg j" "j < unat (pm_capacity pg)" using assms(2,3) by (auto simp: all_slots_def)
  have ne: "i \<noteq> j" using assms(4) i j by auto
  have apart: "a * ?s + ?s \<le> b * ?s" if "a < b" for a b :: nat
  proof -
    have "Suc a * ?s \<le> b * ?s" using that by (intro mult_le_mono1) simp
    then show ?thesis by simp
  qed
  have "i * ?s + ?s \<le> j * ?s \<or> j * ?s + ?s \<le> i * ?s"
    using apart [of i j] apart [of j i] ne by linarith
  then show ?thesis
    using unat_slot_addr(1) [OF assms(1) i(2)] unat_slot_addr(1) [OF assms(1) j(2)] i(1) j(1)
    by (auto simp: span_def)
qed

lemma card_all_slots: "page_geom pg \<Longrightarrow> card (all_slots pg) = unat (pm_capacity pg)"
  using slot_addr_inj by (auto simp: all_slots_def card_image inj_on_def)

section \<open>Pools of slots\<close>

text \<open>
  The contract of a page towards the slab allocator, with either way of freeing: allocation never
  fails to return, gives NULL only when every slot is live and otherwise a slot that was not live;
  freeing a live slot makes it available again.
\<close>

locale slot_pool =
  fixes ok :: "'s \<Rightarrow> bool" and slots :: "'s \<Rightarrow> addr set" and live :: "'s \<Rightarrow> addr set"
    and alloc :: "'s \<Rightarrow> (addr \<times> 's) option" and free :: "addr \<Rightarrow> 's \<Rightarrow> 's"
  assumes finite_slots: "ok s \<Longrightarrow> finite (slots s)"
    and live_slots: "ok s \<Longrightarrow> live s \<subseteq> slots s"
    and alloc_returns: "ok s \<Longrightarrow> \<exists>p s'. alloc s = Some (p, s')"
    and alloc_keeps: "ok s \<Longrightarrow> alloc s = Some (p, s') \<Longrightarrow> ok s' \<and> slots s' = slots s"
    and alloc_null: "ok s \<Longrightarrow> alloc s = Some (0, s') \<Longrightarrow> live s = slots s \<and> live s' = live s"
    and alloc_slot: "ok s \<Longrightarrow> alloc s = Some (p, s') \<Longrightarrow> p \<noteq> 0 \<Longrightarrow>
      p \<in> slots s - live s \<and> live s' = insert p (live s)"
    and free_keeps: "ok s \<Longrightarrow> p \<in> live s \<Longrightarrow> ok (free p s) \<and> slots (free p s) = slots s"
    and free_slot: "ok s \<Longrightarrow> p \<in> live s \<Longrightarrow> live (free p s) = live s - {p}"
begin

lemma alloc_room:
  assumes "ok s" "live s \<noteq> slots s"
  shows "\<exists>p s'. alloc s = Some (p, s') \<and> p \<noteq> 0"
  using alloc_returns [OF assms(1)] alloc_null [OF assms(1)] assms(2) by metis

lemma free_then_room: "ok s \<Longrightarrow> p \<in> live s \<Longrightarrow> \<exists>q s'. alloc (free p s) = Some (q, s') \<and> q \<noteq> 0"
  using free_keeps [of s p] free_slot [of s p] live_slots [of s] by (intro alloc_room) auto

end

fun take_slots :: "('s \<Rightarrow> (addr \<times> 's) option) \<Rightarrow> nat \<Rightarrow> 's \<Rightarrow> (addr list \<times> 's) option" where
  "take_slots alloc 0 s = Some ([], s)"
| "take_slots alloc (Suc n) s =
     (case alloc s of None \<Rightarrow> None
      | Some (p, s') \<Rightarrow> (case take_slots alloc n s' of None \<Rightarrow> None | Some (ps, s'') \<Rightarrow> Some (p # ps, s'')))"

context slot_pool
begin

lemma take_slots_ok:
  assumes "ok s" "n \<le> card (slots s - live s)"
  shows "\<exists>ps s'. take_slots alloc n s = Some (ps, s') \<and> length ps = n \<and> distinct ps \<and> 0 \<notin> set ps \<and>
    set ps \<subseteq> slots s - live s \<and> ok s' \<and> slots s' = slots s \<and> live s' = live s \<union> set ps"
  using assms
proof (induction n arbitrary: s)
  case 0
  then show ?case by simp
next
  case (Suc n)
  then have "live s \<noteq> slots s" by auto
  then obtain p s1 where a: "alloc s = Some (p, s1)" "p \<noteq> 0" using alloc_room Suc.prems(1) by blast
  note k = alloc_keeps [OF Suc.prems(1) a(1)] and sl = alloc_slot [OF Suc.prems(1) a]
  have "slots s1 - live s1 = slots s - live s - {p}" using k sl by auto
  moreover have "finite (slots s - live s)" using finite_slots [OF Suc.prems(1)] by simp
  ultimately have "card (slots s1 - live s1) = card (slots s - live s) - 1" using sl by simp
  then have "n \<le> card (slots s1 - live s1)" using Suc.prems(2) by simp
  then obtain ps s' where t: "take_slots alloc n s1 = Some (ps, s')" "length ps = n" "distinct ps" "0 \<notin> set ps"
      "set ps \<subseteq> slots s1 - live s1" "ok s'" "slots s' = slots s1" "live s' = live s1 \<union> set ps"
    using Suc.IH k by blast
  then have "take_slots alloc (Suc n) s = Some (p # ps, s')" using a by simp
  then show ?case using t a(2) k sl by (intro exI [of _ "p # ps"] exI [of _ s']) auto
qed

text \<open>A pool gives out exactly its free slots, each once, and then NULL.\<close>

lemma take_all:
  assumes "ok s"
  shows "\<exists>ps s' s''. take_slots alloc (card (slots s - live s)) s = Some (ps, s') \<and> distinct ps \<and>
    0 \<notin> set ps \<and> set ps = slots s - live s \<and> alloc s' = Some (0, s'')"
proof -
  obtain ps s' where t: "take_slots alloc (card (slots s - live s)) s = Some (ps, s')"
      "length ps = card (slots s - live s)" "distinct ps" "0 \<notin> set ps" "set ps \<subseteq> slots s - live s"
      "ok s'" "slots s' = slots s" "live s' = live s \<union> set ps"
    using take_slots_ok [OF assms order_refl] by blast
  have eq: "set ps = slots s - live s"
    using t(2,3,5) finite_slots [OF assms] by (intro card_subset_eq) (auto simp: distinct_card)
  then have full: "live s' = slots s'" using t(7,8) live_slots [OF assms] by auto
  obtain p s'' where "alloc s' = Some (p, s'')" using alloc_returns [OF t(6)] by blast
  moreover have "p = 0" using alloc_slot [OF t(6) calculation] full by auto
  ultimately show ?thesis using t eq by blast
qed

end

definition page_alloc_st :: "mem \<times> page_meta \<Rightarrow> (addr \<times> mem \<times> page_meta) option" where
  "page_alloc_st s = page_alloc_slot (fst s) (snd s)"

definition page_ok_st :: "mem \<times> page_meta \<Rightarrow> bool" where
  "page_ok_st s = page_ok (fst s) (snd s)"

definition page_live_st :: "mem \<times> page_meta \<Rightarrow> addr set" where
  "page_live_st s = page_live (fst s) (snd s)"

definition page_slots_st :: "mem \<times> page_meta \<Rightarrow> addr set" where
  "page_slots_st s = all_slots (snd s)"

lemmas page_st_defs = page_alloc_st_def page_ok_st_def page_live_st_def page_slots_st_def

lemma all_slots_shape: "same_shape pg pg' \<Longrightarrow> all_slots pg' = all_slots pg"
  by (simp add: all_slots_def same_shape_slot same_shapeD)

lemma page_alloc_post:
  "page_ok m pg \<Longrightarrow> page_alloc_slot m pg = Some (p, m', pg') \<Longrightarrow> alloc_post m pg p m' pg'"
  using page_alloc_ok [of m pg] by auto

interpretation local_pool: slot_pool page_ok_st page_slots_st page_live_st page_alloc_st
  "\<lambda>p s. page_free_slot_local p (fst s) (snd s)"
proof unfold_locales
  fix s and p :: addr and s'
  assume "page_ok_st s"
  then have ok: "page_ok (fst s) (snd s)" by (simp add: page_st_defs)
  then have g: "page_geom (snd s)" by (simp add: page_ok_def)
  show "finite (page_slots_st s)" by (simp add: page_st_defs all_slots_def)
  show "page_live_st s \<subseteq> page_slots_st s" using page_live_slots [OF ok] by (simp add: page_st_defs)
  show "\<exists>p s'. page_alloc_st s = Some (p, s')" using page_alloc_ok [OF ok] by (auto simp: page_st_defs)
  show "page_alloc_st s = Some (p, s') \<Longrightarrow> page_ok_st s' \<and> page_slots_st s' = page_slots_st s"
    using page_alloc_post [OF ok, of p "fst s'" "snd s'"] all_slots_shape
    by (auto simp: page_st_defs alloc_post_def)
  show "page_alloc_st s = Some (0, s') \<Longrightarrow> page_live_st s = page_slots_st s \<and> page_live_st s' = page_live_st s"
    using page_alloc_post [OF ok, of 0 "fst s'" "snd s'"] by (auto simp: page_st_defs alloc_post_def)
  show "page_alloc_st s = Some (p, s') \<Longrightarrow> p \<noteq> 0 \<Longrightarrow>
      p \<in> page_slots_st s - page_live_st s \<and> page_live_st s' = insert p (page_live_st s)"
    using page_alloc_post [OF ok, of p "fst s'" "snd s'"] by (auto simp: page_st_defs alloc_post_def)
  show "p \<in> page_live_st s \<Longrightarrow> page_ok_st (page_free_slot_local p (fst s) (snd s)) \<and>
      page_slots_st (page_free_slot_local p (fst s) (snd s)) = page_slots_st s"
    and "p \<in> page_live_st s \<Longrightarrow> page_live_st (page_free_slot_local p (fst s) (snd s)) = page_live_st s - {p}"
    using free_local_ok [OF ok _ prod.collapse [symmetric], of p] all_slots_shape by (auto simp: page_st_defs)
qed

interpretation remote_pool: slot_pool page_ok_st page_slots_st page_live_st page_alloc_st
  "\<lambda>p s. page_free_slot_remote p (fst s) (snd s)"
proof unfold_locales
  fix s and p :: addr
  assume a: "page_ok_st s"
  then have ok: "page_ok (fst s) (snd s)" by (simp add: page_st_defs)
  show "p \<in> page_live_st s \<Longrightarrow> page_ok_st (page_free_slot_remote p (fst s) (snd s)) \<and>
      page_slots_st (page_free_slot_remote p (fst s) (snd s)) = page_slots_st s"
    and "p \<in> page_live_st s \<Longrightarrow> page_live_st (page_free_slot_remote p (fst s) (snd s)) = page_live_st s - {p}"
    using free_remote_ok [OF ok _ prod.collapse [symmetric], of p] all_slots_shape by (auto simp: page_st_defs)
qed (rule local_pool.finite_slots local_pool.live_slots local_pool.alloc_returns local_pool.alloc_keeps
    local_pool.alloc_null local_pool.alloc_slot; assumption)+

section \<open>Properties\<close>

text \<open>Writes to the links of some slots leave the bytes of every other slot alone.\<close>

lemma writes_links_slot:
  assumes "page_geom pg" "writes_links m m' A" "A \<subseteq> all_slots pg" "q \<in> all_slots pg" "q \<notin> A"
    and x: "unat x \<in> span q (unat (pm_slot_size pg))"
  shows "m' x = m x"
proof (rule ccontr)
  assume "m' x \<noteq> m x"
  then obtain a where a: "a \<in> A" "x - a < 8" using assms(2) by (auto simp: writes_links_def)
  then have sl: "a \<in> all_slots pg" "a \<noteq> q" using assms(3,5) by auto
  have b: "unat a < 2 ^ 48" using all_slots_facts(2) [OF assms(1) sl(1)] .
  have u: "unat (x - a) < 8" using a(2) by (simp add: word_less_nat_alt)
  have "unat x = unat a + unat (x - a)"
    using b u unat_add_small [of a "x - a"] by simp
  then have "unat x \<in> span a (unat (pm_slot_size pg))" using u page_geomD(1) [OF assms(1)] by simp
  then show False using all_slots_apart [OF assms(1) sl(1) assms(4) sl(2)] x by blast
qed

lemma page_free_slots: "page_ok m pg \<Longrightarrow> page_free m pg \<subseteq> all_slots pg"
  using bump_count_le [of pg]
  by (fastforce elim!: page_okE simp: page_free_lists page_lists_def all_slots_def)

definition demo_page :: page_meta where
  "demo_page = page_init (demo_env False) 4294967296 None 1 15 100 zero_page"

lemma demo_page_ok: "page_ok m demo_page" "page_live m demo_page = {}"
  unfolding demo_page_def by (rule page_init_ok; simp)+

lemma demo_page_capacity: "pm_capacity demo_page = 585" "pm_slot_size demo_page = 112"
  by (simp_all add: demo_page_def page_init_def Let_def config_simps)

lemma demo_page_full: "page_live m demo_page \<noteq> all_slots demo_page"
  using card_all_slots [of demo_page] demo_page_ok [of m] demo_page_capacity by (auto simp: page_ok_def)

text \<open>
  C15. \<open>page_alloc_slot\<close> on a well-formed page always returns. It returns NULL only when every slot
  of the page is allocated; otherwise it returns a slot that was not allocated, aligned to 16
  bytes, inside the page's 64 KB and disjoint from every allocated slot. The page stays
  well-formed, exactly the returned slot becomes allocated, and no byte of an allocated
  slot changes.
\<close>

theorem page_alloc_slot_spec:
  assumes "page_ok m pg"
  shows "\<exists>p m' pg'. page_alloc_slot m pg = Some (p, m', pg') \<and> page_ok m' pg' \<and>
    (if p = 0 then page_live m pg = all_slots pg \<and> page_live m' pg' = page_live m pg
     else p \<in> all_slots pg - page_live m pg \<and> page_live m' pg' = insert p (page_live m pg) \<and>
       unat p mod 16 = 0 \<and> span p (unat (pm_slot_size pg)) \<subseteq> span (page_start pg) 65536 \<and>
       (\<forall>q \<in> page_live m pg.
          span p (unat (pm_slot_size pg)) \<inter> span q (unat (pm_slot_size pg)) = {})) \<and>
    (\<forall>q \<in> page_live m pg. \<forall>x. unat x \<in> span q (unat (pm_slot_size pg)) \<longrightarrow> m' x = m x)"
proof -
  have g: "page_geom pg" using assms by (simp add: page_ok_def)
  obtain p m' pg' where a: "page_alloc_slot m pg = Some (p, m', pg')" "alloc_post m pg p m' pg'"
    using page_alloc_ok [OF assms] by blast
  have keep: "m' x = m x" if "q \<in> page_live m pg" "unat x \<in> span q (unat (pm_slot_size pg))" for q x
    using that a(2) page_live_slots [OF assms] page_free_slots [OF assms]
    by (intro writes_links_slot [OF g _ page_free_slots [OF assms]]) (auto simp: alloc_post_def page_live_def)
  have "p \<in> all_slots pg \<Longrightarrow> q \<in> page_live m pg \<Longrightarrow> p \<notin> page_live m pg \<Longrightarrow>
      span p (unat (pm_slot_size pg)) \<inter> span q (unat (pm_slot_size pg)) = {}" for q
    using page_live_slots [OF assms] by (intro all_slots_apart [OF g]) auto
  then show ?thesis
    using a keep all_slots_facts(3,5) [OF g, of p]
    by (intro exI [of _ p] exI [of _ m'] exI [of _ pg']) (simp add: alloc_post_def del: span_iff)
qed

theorem page_alloc_slot_spec_witness:
  "page_ok (\<lambda>_. 0) demo_page \<and>
   (\<exists>p m' pg'. page_alloc_slot (\<lambda>_. 0) demo_page = Some (p, m', pg') \<and> p \<noteq> 0 \<and> page_live m' pg' = {p})"
  using page_alloc_slot_spec [OF demo_page_ok(1), of "\<lambda>_. 0"] demo_page_ok [of "\<lambda>_. 0"]
    demo_page_full [of "\<lambda>_. 0"] by (auto split: if_splits)

text \<open>
  C16. Freeing an allocated slot, by the owner (\<open>page_free_slot_local\<close>) or by another thread
  (\<open>page_free_slot_remote\<close>), keeps the page well-formed, removes exactly that slot from the
  allocated ones and changes no byte of the others; the next allocation from the page then
  succeeds.
\<close>

theorem page_free_slot_spec:
  assumes "page_ok m pg" "p \<in> page_live m pg"
    and "page_free_slot_local p m pg = (m', pg') \<or> page_free_slot_remote p m pg = (m', pg')"
  shows "page_ok m' pg' \<and> page_live m' pg' = page_live m pg - {p} \<and>
    (\<forall>q \<in> page_live m pg - {p}. \<forall>x. unat x \<in> span q (unat (pm_slot_size pg)) \<longrightarrow> m' x = m x) \<and>
    (\<exists>r s. page_alloc_slot m' pg' = Some (r, s) \<and> r \<noteq> 0)"
proof -
  have g: "page_geom pg" using assms by (simp add: page_ok_def)
  have f: "page_ok m' pg'" "page_live m' pg' = page_live m pg - {p}" "writes_links m m' {p}"
    using assms(3) free_local_ok(1,2,4) [OF assms(1,2), of m' pg'] free_remote_ok(1,2,4) [OF assms(1,2), of m' pg']
    by (elim disjE; simp)+
  have "m' x = m x" if "q \<in> page_live m pg - {p}" "unat x \<in> span q (unat (pm_slot_size pg))" for q x
    using that page_live_slots [OF assms(1)] assms(2)
    by (intro writes_links_slot [OF g f(3)]) auto
  moreover have "\<exists>r s. page_alloc_slot m' pg' = Some (r, s) \<and> r \<noteq> 0"
    using local_pool.free_then_room [of "(m, pg)" p] remote_pool.free_then_room [of "(m, pg)" p] assms
    unfolding page_st_defs fst_conv snd_conv by (elim disjE) simp_all
  ultimately show ?thesis using f by blast
qed

theorem page_free_slot_spec_witness:
  "\<exists>p m pg m' pg'. page_ok m pg \<and> page_live m pg = {p} \<and> page_free_slot_remote p m pg = (m', pg') \<and>
     page_ok m' pg' \<and> page_live m' pg' = {}"
proof -
  obtain p m pg where a: "page_ok m pg" "page_live m pg = {p}"
    using page_alloc_ok [OF demo_page_ok(1), of "\<lambda>_. 0"] demo_page_ok [of "\<lambda>_. 0"] demo_page_full [of "\<lambda>_. 0"]
    by (auto simp: alloc_post_def split: if_splits)
  obtain m' pg' where f: "page_free_slot_remote p m pg = (m', pg')" by fastforce
  then have "page_ok m' pg' \<and> page_live m' pg' = {}"
    using page_free_slot_spec [OF a(1), of p m' pg'] a by auto
  then show ?thesis using a f by blast
qed

text \<open>
  C20. A page set up by \<open>page_init\<close> for slots of at most 32 KB in a data page of a segment gives out
  exactly \<open>capacity\<close> slots, all different, and then NULL; the slot size is the requested one
  rounded up to a multiple of 16 (at least 16), and \<open>capacity\<close> slots fit the page with less than
  one slot to spare.
\<close>

theorem page_init_capacity:
  fixes s :: u32
  assumes "unat s \<le> 32768" "seg \<noteq> 0" "unat seg mod 4194304 = 0" "unat seg + 4194304 \<le> 2 ^ 48"
    "1 \<le> unat idx" "unat idx < 64" and pg: "pg = page_init e seg ar idx bin s pg0"
  shows "unat (pm_slot_size pg) = (max 16 (unat s) + 15) div 16 * 16 \<and>
    unat (pm_capacity pg) = 65536 div unat (pm_slot_size pg) \<and>
    (\<exists>ps s' s''. take_slots page_alloc_st (unat (pm_capacity pg)) (m, pg) = Some (ps, s') \<and>
      distinct ps \<and> 0 \<notin> set ps \<and> set ps = all_slots pg \<and> page_alloc_st s' = Some (0, s''))"
proof (intro conjI)
  have ok: "page_ok m pg" "page_live m pg = {}" using page_init_ok [OF assms(1-6)] by (auto simp: pg)
  then have g: "page_geom pg" by (simp add: page_ok_def)
  show "unat (pm_slot_size pg) = (max 16 (unat s) + 15) div 16 * 16"
    unfolding pg by (rule page_init_slot_size [OF assms(1)])
  show "unat (pm_capacity pg) = 65536 div unat (pm_slot_size pg)" by (rule page_geomD(4) [OF g])
  have "card (page_slots_st (m, pg) - page_live_st (m, pg)) = unat (pm_capacity pg)"
    using ok card_all_slots [OF g] by (simp add: page_st_defs)
  then show "\<exists>ps s' s''. take_slots page_alloc_st (unat (pm_capacity pg)) (m, pg) = Some (ps, s') \<and>
      distinct ps \<and> 0 \<notin> set ps \<and> set ps = all_slots pg \<and> page_alloc_st s' = Some (0, s'')"
    using local_pool.take_all [of "(m, pg)"] ok by (simp add: page_ok_st_def page_live_st_def page_slots_st_def)
qed

theorem page_init_capacity_witness:
  "unat (100 :: u32) \<le> 32768 \<and> (4294967296 :: addr) \<noteq> 0 \<and> unat (4294967296 :: addr) mod 4194304 = 0 \<and>
   (\<exists>ps s' s''. take_slots page_alloc_st 585 (\<lambda>_. 0, demo_page) = Some (ps, s') \<and>
      distinct ps \<and> 0 \<notin> set ps \<and> set ps = all_slots demo_page \<and> page_alloc_st s' = Some (0, s''))"
  using page_init_capacity [OF _ _ _ _ _ _ demo_page_def, of "\<lambda>_. 0"] demo_page_capacity by simp

text \<open>
  C21. A slot freed by the owner is the next one the page gives out, and freeing then allocating
  restores the page's metadata exactly.
\<close>

theorem page_free_alloc_lifo:
  assumes "p \<noteq> 0" "page_free_slot_local p m pg = (m', pg')"
  shows "page_alloc_slot m' pg' = Some (p, m', pg)"
  using assms by (auto simp: page_free_slot_local_def page_alloc_slot_def page_pop_local_def)

theorem page_free_alloc_lifo_witness:
  "(4295032832 :: addr) \<noteq> 0 \<and>
   (case page_free_slot_local 4295032832 (\<lambda>_. 0) (snd (page_bump demo_page)) of (m', pg') \<Rightarrow>
      page_alloc_slot m' pg' = Some (4295032832, m', snd (page_bump demo_page)))"
  using page_free_alloc_lifo [of 4295032832 "\<lambda>_. 0" "snd (page_bump demo_page)"]
  by (auto split: prod.splits)

end
