(* ===== verification/Size_Class.thy ===== *)
theory Size_Class
  imports Malloc_Types
begin

unbundle bit_operations_syntax

text \<open>
  Size classes (\<open>src/size_class.c\<close>): the table of the 75 bins, computed at start-up in IEEE double
  arithmetic, and the two lookups. A double is a pair \<open>(m, e)\<close> of value \<open>m * 2^e\<close>;
  multiplication rounds to a 53-bit significand, ties to even.
\<close>

section \<open>Double arithmetic\<close>

type_synonym dbl = "int \<times> int"

function excess_bits :: "int \<Rightarrow> nat" where
  "excess_bits m = (if m < 2 ^ 53 then 0 else Suc (excess_bits (m div 2)))"
  by pat_completeness auto
termination
  by (relation "measure nat") auto

declare excess_bits.simps [simp del]

definition dbl_round :: "dbl \<Rightarrow> dbl" where
  "dbl_round x = (case x of (m, e) \<Rightarrow>
     let d = excess_bits m; q = m div 2 ^ d; r = 2 * (m mod 2 ^ d)
     in if 2 ^ d < r \<or> r = 2 ^ d \<and> odd q then (q + 1, e + int d) else (q, e + int d))"

definition dbl_mult :: "dbl \<Rightarrow> dbl \<Rightarrow> dbl" where
  "dbl_mult x y = dbl_round (fst x * fst y, snd x + snd y)"

definition dbl_less_int :: "dbl \<Rightarrow> int \<Rightarrow> bool" where
  "dbl_less_int x n = (if 0 \<le> snd x then fst x * 2 ^ nat (snd x) < n
                       else fst x < n * 2 ^ nat (- snd x))"

definition dbl_to_size :: "dbl \<Rightarrow> u64" where
  "dbl_to_size x = of_int (if 0 \<le> snd x then fst x * 2 ^ nat (snd x)
                           else fst x div 2 ^ nat (- snd x))"

section \<open>Table initialisation\<close>

definition small_bins :: "u32 list" where
  "small_bins = map (\<lambda>i. of_nat ((i + 1) * 8)) [0..<SMALL_BIN_COUNT]"

definition small_lookup :: "u8 list" where
  "small_lookup = map (\<lambda>s. of_nat (if s > 0 then s - 1 else 0)) [0..<unat SMALL_MAX div 8 + 1]"

text \<open>The body of the \<open>while\<close> loop that computes the entry for bin number \<open>length tab\<close>.\<close>

definition medium_size :: "u32 list \<Rightarrow> dbl \<Rightarrow> u64" where
  "medium_size tab sz =
     (let rounded = (dbl_to_size sz + 15) AND NOT 15;
          rounded = (if rounded \<le> SMALL_MAX then SMALL_MAX + 16 else rounded);
          rounded = (if SMALL_BIN_COUNT < length tab \<and> rounded \<le> ucast (tab ! (length tab - 1))
                     then ucast (tab ! (length tab - 1) + 16) else rounded)
      in if MEDIUM_MAX < rounded then MEDIUM_MAX else rounded)"

function medium_bins :: "u32 list \<Rightarrow> dbl \<Rightarrow> u32 list" where
  "medium_bins tab sz =
     (if length tab < BIN_COUNT \<and> dbl_less_int sz (uint MEDIUM_MAX) then
        let sz' = dbl_mult sz (9, -3);
            rounded = medium_size tab sz';
            tab' = tab @ [ucast rounded]
        in if MEDIUM_MAX \<le> rounded then tab' else medium_bins tab' sz'
      else tab)"
  by pat_completeness auto
termination
  by (relation "measure (\<lambda>(tab, sz). BIN_COUNT - length tab)") auto

declare medium_bins.simps [simp del]

definition fill_bins :: "u32 list \<Rightarrow> u32 list" where
  "fill_bins tab = tab @ replicate (BIN_COUNT - length tab) (tab ! (length tab - 1))"

definition size_class_init :: "gstate \<Rightarrow> gstate" where
  "size_class_init g = g\<lparr>g_bin_size := fill_bins (medium_bins small_bins (uint SMALL_MAX, 0)),
                         g_size_to_bin_small := small_lookup\<rparr>"

section \<open>Lookups\<close>

function bin_search :: "u32 list \<Rightarrow> u64 \<Rightarrow> nat \<Rightarrow> nat \<Rightarrow> nat" where
  "bin_search tab sz lo hi =
     (if lo < hi then
        let mid = (lo + hi) div 2
        in if ucast (tab ! mid) < sz then bin_search tab sz (mid + 1) hi
           else bin_search tab sz lo mid
      else lo)"
  by pat_completeness auto
termination
  by (relation "measure (\<lambda>(tab, sz, lo, hi). hi - lo)") auto

declare bin_search.simps [simp del]

definition size_to_bin :: "gstate \<Rightarrow> u64 \<Rightarrow> u8" where
  "size_to_bin g sz =
     (let sz = (if sz = 0 then 1 else sz);
          sz = (sz + 7) AND NOT 7
      in if sz \<le> SMALL_MAX then g_size_to_bin_small g ! unat (sz div 8)
         else of_nat (bin_search (g_bin_size g) sz SMALL_BIN_COUNT (BIN_COUNT - 1)))"

definition bin_to_size :: "gstate \<Rightarrow> u8 \<Rightarrow> u64" where
  "bin_to_size g bin = (if BIN_COUNT \<le> unat bin then MEDIUM_MAX
                        else ucast (g_bin_size g ! unat bin))"

section \<open>The computed table\<close>

definition bin_sizes :: "u32 list" where
  "bin_sizes = [8, 16, 24, 32, 40, 48, 56, 64, 72, 80, 88, 96, 104, 112, 120, 128, 144, 176, 192,
     208, 240, 272, 304, 336, 384, 416, 480, 528, 592, 672, 752, 848, 960, 1072, 1200, 1360, 1520,
     1712, 1936, 2176, 2432, 2736, 3088, 3472, 3904, 4384, 4944, 5552, 6240, 7024, 7904, 8896,
     10000, 11248, 12656, 14240, 16016, 18016, 20272, 22800, 25664, 28864, 32464, 36528, 41088,
     46224, 52000, 58512, 65824, 74048, 83296, 93712, 105424, 118592, 131072]"

definition tables_ok :: "gstate \<Rightarrow> bool" where
  "tables_ok g \<longleftrightarrow> g_bin_size g = bin_sizes \<and> g_size_to_bin_small g = small_lookup"

lemma computed_bins: "fill_bins (medium_bins small_bins (uint SMALL_MAX, 0)) = bin_sizes"
  unfolding bin_sizes_def by code_simp

lemma tables_ok_init [simp]: "tables_ok (size_class_init g)"
  by (simp add: tables_ok_def size_class_init_def computed_bins)

lemma size_class_init_frame [simp]:
  "h_mem (size_class_init g) = h_mem g"
  "h_segs (size_class_init g) = h_segs g"
  "h_larges (size_class_init g) = h_larges g"
  "h_log (size_class_init g) = h_log g"
  "t_tld (size_class_init g) = t_tld g"
  "g_registry (size_class_init g) = g_registry g"
  by (simp_all add: size_class_init_def)

section \<open>Tables of increasing sizes\<close>

text \<open>
  The contract between the initialisation and the lookups: a table of \<open>BIN_COUNT\<close> increasing
  multiples of 8. The search lemmas are proved from it alone.
\<close>

locale size_table =
  fixes tab :: "u32 list"
  assumes table_length: "length tab = BIN_COUNT"
    and table_sorted: "sorted_wrt (<) (map unat tab)"
    and table_mult8: "\<forall>x\<in>set tab. unat x mod 8 = 0"
begin

lemma entry_mono: "i < j \<Longrightarrow> j < BIN_COUNT \<Longrightarrow> unat (tab ! i) < unat (tab ! j)"
  using sorted_wrt_nth_less [OF table_sorted, of i j] table_length by simp

lemma entry_mult8: "i < BIN_COUNT \<Longrightarrow> unat (tab ! i) mod 8 = 0"
  using table_mult8 table_length by simp

text \<open>The binary search returns the first entry that is large enough.\<close>

lemma search_least:
  "lo \<le> hi \<Longrightarrow> hi < BIN_COUNT \<Longrightarrow> unat sz \<le> unat (tab ! hi) \<Longrightarrow>
   (\<forall>i<lo. unat (tab ! i) < unat sz) \<Longrightarrow> bin_search tab sz lo hi = r \<Longrightarrow>
   lo \<le> r \<and> r \<le> hi \<and> unat sz \<le> unat (tab ! r) \<and> (\<forall>i<r. unat (tab ! i) < unat sz)"
proof (induction "hi - lo" arbitrary: lo hi rule: less_induct)
  case less
  show ?case
  proof (cases "lo < hi")
    case False
    with less.prems have "lo = hi" by simp
    with less.prems show ?thesis by (simp add: bin_search.simps [of tab sz hi hi])
  next
    case True
    define mid where "mid = (lo + hi) div 2"
    have mid: "lo \<le> mid" "mid < hi" using True by (auto simp: mid_def)
    show ?thesis
    proof (cases "unat (tab ! mid) < unat sz")
      case lt: True
      then have "bin_search tab sz (mid + 1) hi = r"
        using less.prems(5) True
        by (simp add: bin_search.simps [of _ _ lo hi] mid_def word_less_nat_alt unat_ucast_up)
      moreover have "\<forall>i<mid + 1. unat (tab ! i) < unat sz"
        using lt entry_mono [of _ mid] mid less.prems(2)
        by (metis less_trans less_Suc_eq Suc_eq_plus1)
      ultimately have "mid + 1 \<le> r \<and> r \<le> hi \<and> unat sz \<le> unat (tab ! r) \<and>
          (\<forall>i<r. unat (tab ! i) < unat sz)"
        using mid less.prems by (intro less.hyps) auto
      then show ?thesis using mid by auto
    next
      case ge: False
      then have "bin_search tab sz lo mid = r"
        using less.prems(5) True
        by (simp add: bin_search.simps [of _ _ lo hi] mid_def word_less_nat_alt unat_ucast_up)
      then have "lo \<le> r \<and> r \<le> mid \<and> unat sz \<le> unat (tab ! r) \<and>
          (\<forall>i<r. unat (tab ! i) < unat sz)"
        using ge mid less.prems by (intro less.hyps) auto
      then show ?thesis using mid by auto
    qed
  qed
qed

end

lemma bin_sizes_sorted: "sorted_wrt (<) (map unat bin_sizes)"
  by (simp add: bin_sizes_def sorted_wrt2 sorted_wrt1 del: sorted_wrt.simps)

lemma bin_sizes_length: "length bin_sizes = 75"
  by (simp add: bin_sizes_def)

lemma bin_sizes_mult8: "\<forall>x\<in>set bin_sizes. unat x mod 8 = 0"
  by (simp add: bin_sizes_def)

interpretation bins: size_table bin_sizes
proof unfold_locales
  show "length bin_sizes = BIN_COUNT" by (simp add: bin_sizes_length config_simps)
qed (rule bin_sizes_sorted bin_sizes_mult8)+

section \<open>What the lookups return\<close>

lemma bin_sizes_small: "i < 16 \<Longrightarrow> unat (bin_sizes ! i) = (i + 1) * 8"
proof -
  assume "i < 16"
  then have "i \<in> set [0..<16]" by simp
  moreover have "\<forall>i\<in>set [0..<16]. unat (bin_sizes ! i) = (i + 1) * 8"
    unfolding bin_sizes_def by (simp add: upt_rec)
  ultimately show ?thesis by blast
qed

lemma small_lookup_nth: "i \<le> 16 \<Longrightarrow> small_lookup ! i = of_nat (i - 1)"
  by (simp add: small_lookup_def config_simps nth_append del: upt_Suc)

lemma unat_round8:
  assumes "unat s \<le> 131072"
  shows "unat ((s + 7) AND NOT 7 :: u64) = (unat s + 7) div 8 * 8"
proof -
  have "(7 :: u64) = mask 3" by (simp add: mask_eq_exp_minus_1)
  then have "unat ((s + 7) AND NOT 7) = unat (s + 7) - unat (s + 7) mod 8"
    using unat_and_not_mask [of "s + 7" 3] by simp
  also have "unat (s + 7) = unat s + 7"
    using assms by (subst unat_add_small) auto
  finally show ?thesis by (simp add: minus_mod_eq_div_mult)
qed

lemma bin_sizes_last: "unat (bin_sizes ! 74) = 131072"
  by (simp add: bin_sizes_def)

lemma bin_to_size_nat:
  "tables_ok g \<Longrightarrow> unat b < 75 \<Longrightarrow> unat (bin_to_size g b) = unat (bin_sizes ! unat b)"
  by (simp add: bin_to_size_def tables_ok_def config_simps unat_ucast_up)

text \<open>The bin of a request, as a number: the least index whose size is enough.\<close>

lemma size_to_bin_small:
  assumes "tables_ok g" "1 \<le> unat s" "unat s \<le> 128"
  shows "unat (size_to_bin g s) = (unat s + 7) div 8 - 1"
proof -
  define s8 where "s8 = (s + 7) AND NOT 7"
  have u: "unat s8 = (unat s + 7) div 8 * 8" using assms unat_round8 [of s] by (simp add: s8_def)
  have "s \<noteq> 0" using assms(2) by auto
  moreover have "s8 \<le> SMALL_MAX" using u assms(3) by (simp add: word_le_nat_alt config_simps)
  moreover have "unat (s8 div 8) = (unat s + 7) div 8"
    using u by (simp add: unat_div)
  moreover have "(unat s + 7) div 8 - 1 < 2 ^ 8" "(unat s + 7) div 8 \<le> 16" using assms(3) by auto
  ultimately show ?thesis
    using assms(1) by (simp add: size_to_bin_def tables_ok_def s8_def small_lookup_nth unat_of_nat)
qed

lemma size_to_bin_medium:
  assumes "tables_ok g" "128 < unat s" "unat s \<le> 131072" "unat (size_to_bin g s) = r"
  shows "16 \<le> r \<and> r < 75 \<and> unat s \<le> unat (bin_sizes ! r) \<and> (\<forall>i<r. unat (bin_sizes ! i) < unat s)"
proof -
  define s8 where "s8 = (s + 7) AND NOT 7"
  have u: "unat s8 = (unat s + 7) div 8 * 8" using assms unat_round8 [of s] by (simp add: s8_def)
  have "s \<noteq> 0" using assms(2) by auto
  have big: "\<not> s8 \<le> SMALL_MAX" using u assms(2) by (simp add: word_le_nat_alt config_simps)
  define k where "k = bin_search bin_sizes s8 16 74"
  have pre: "\<forall>i<16. unat (bin_sizes ! i) < unat s8"
    using u assms(2) by (auto simp: bin_sizes_small)
  have k: "16 \<le> k \<and> k \<le> 74 \<and> unat s8 \<le> unat (bin_sizes ! k) \<and> (\<forall>i<k. unat (bin_sizes ! i) < unat s8)"
    using bins.search_least [of 16 74 s8 k] u assms(3) pre
    by (auto simp: config_simps bin_sizes_last k_def)
  have "size_to_bin g s = of_nat k"
    using assms(1) \<open>s \<noteq> 0\<close> big
    by (simp add: size_to_bin_def Let_def tables_ok_def config_simps k_def s8_def)
  then have "r = k" using assms(4) k by (simp add: unat_of_nat)
  moreover have "unat (bin_sizes ! i) < unat s" if "i < k" for i
  proof -
    have "unat (bin_sizes ! i) mod 8 = 0" using that k by (intro bins.entry_mult8) (simp add: config_simps)
    moreover have "unat (bin_sizes ! i) < unat s8" using k that by blast
    ultimately show ?thesis using u by presburger
  qed
  ultimately show ?thesis using k u by auto
qed

section \<open>Properties\<close>

lemma bin_sizes_steps:
  "list_all (\<lambda>(a, b). 8 * uint b \<le> 9 * (uint a + 1) + 119) (zip (drop 15 bin_sizes) (drop 16 bin_sizes))"
  unfolding bin_sizes_def by code_simp

lemma bin_sizes_step:
  assumes "16 \<le> i" "i < 75"
  shows "8 * unat (bin_sizes ! i) \<le> 9 * (unat (bin_sizes ! (i - 1)) + 1) + 119"
proof -
  define j where "j = i - 16"
  have j: "i = 16 + j" "j < 59" using assms by (simp_all add: j_def)
  define xs where "xs = zip (drop 15 bin_sizes) (drop 16 bin_sizes)"
  have l: "j < length xs" and n: "xs ! j = (bin_sizes ! (i - 1), bin_sizes ! i)"
    using j by (simp_all add: xs_def bin_sizes_length)
  have all: "\<forall>n<length xs. case xs ! n of (a, b) \<Rightarrow> 8 * uint b \<le> 9 * (uint a + 1) + 119"
    using bin_sizes_steps by (simp only: xs_def list_all_length)
  have "8 * uint (bin_sizes ! i) \<le> 9 * (uint (bin_sizes ! (i - 1)) + 1) + 119"
    using all [rule_format, OF l] by (simp only: n case_prod_conv)
  then have "int (8 * unat (bin_sizes ! i)) \<le> int (9 * (unat (bin_sizes ! (i - 1)) + 1) + 119)"
    by simp
  then show ?thesis by (simp only: of_nat_le_iff)
qed

lemma size_to_bin_spec:
  assumes "tables_ok g" "s \<le> MEDIUM_MAX" "r = unat (size_to_bin g s)"
  shows "r < 75 \<and> max 1 (unat s) \<le> unat (bin_sizes ! r) \<and>
    (\<forall>i<r. unat (bin_sizes ! i) < max 1 (unat s))"
proof -
  have le: "unat s \<le> 131072" using assms(2) by (simp add: word_le_nat_alt config_simps)
  consider "s = 0" | "1 \<le> unat s" "unat s \<le> 128" | "128 < unat s"
    by (metis One_nat_def Suc_leI linorder_not_le unat_gt_0)
  then show ?thesis
  proof cases
    case 1
    then have "r = 0"
      using assms by (simp add: size_to_bin_def tables_ok_def config_simps small_lookup_nth)
    then show ?thesis using 1 by (simp add: bin_sizes_def)
  next
    case 2
    then have r: "r = (unat s + 7) div 8 - 1" using assms by (simp add: size_to_bin_small)
    then have "r < 16" using 2 by auto
    then show ?thesis using r 2 by (auto simp: bin_sizes_small)
  next
    case 3
    then show ?thesis using size_to_bin_medium [OF assms(1) 3 le] assms(3) by auto
  qed
qed

text \<open>
  C23. After \<open>size_class_init\<close>, \<open>size_to_bin\<close> picks for every request of at most \<open>MEDIUM_MAX\<close> bytes
  (0 counting as 1) a bin of the table whose size is enough, and every smaller bin is too small:
  the lookup is the least bin that fits.
\<close>

theorem size_to_bin_least:
  assumes "s \<le> MEDIUM_MAX"
  shows "unat (size_to_bin (size_class_init g) s) < BIN_COUNT \<and>
    max 1 s \<le> bin_to_size (size_class_init g) (size_to_bin (size_class_init g) s) \<and>
    (\<forall>b. b < size_to_bin (size_class_init g) s \<longrightarrow> bin_to_size (size_class_init g) b < max 1 s)"
proof -
  let ?g = "size_class_init g"
  have m: "unat (max 1 s) = max 1 (unat s)" by (simp add: max_def word_le_nat_alt)
  have spec: "unat (size_to_bin ?g s) < 75 \<and> max 1 (unat s) \<le> unat (bin_sizes ! unat (size_to_bin ?g s)) \<and>
    (\<forall>i<unat (size_to_bin ?g s). unat (bin_sizes ! i) < max 1 (unat s))"
    by (rule size_to_bin_spec [OF tables_ok_init assms refl])
  moreover have "bin_to_size ?g b < max 1 s" if "b < size_to_bin ?g s" for b
    using that spec m by (simp add: word_less_nat_alt bin_to_size_nat)
  ultimately show ?thesis
    using m by (simp add: config_simps word_le_nat_alt bin_to_size_nat)
qed

theorem size_to_bin_least_witness:
  "(145 :: u64) \<le> MEDIUM_MAX \<and>
   unat (size_to_bin (size_class_init zero_gstate) 145) < BIN_COUNT"
  using size_to_bin_least [of 145 zero_gstate] by (simp add: config_simps)

text \<open>
  C24. Internal fragmentation of the medium classes: the slot of a request of \<open>s\<close> bytes is less
  than \<open>9/8 * s + 16\<close> bytes; the 12.5\% step of the table plus the rounding to 16.
\<close>

theorem size_to_bin_waste:
  assumes "SMALL_MAX < s" "s \<le> MEDIUM_MAX"
  shows "8 * unat (bin_to_size (size_class_init g) (size_to_bin (size_class_init g) s)) < 9 * unat s + 128"
proof -
  let ?r = "unat (size_to_bin (size_class_init g) s)"
  have s: "128 < unat s" "unat s \<le> 131072"
    using assms by (simp_all add: word_less_nat_alt word_le_nat_alt config_simps)
  have r: "16 \<le> ?r" "?r < 75" "\<forall>i<?r. unat (bin_sizes ! i) < unat s"
    using size_to_bin_medium [OF tables_ok_init s refl] by blast+
  have "8 * unat (bin_sizes ! ?r) \<le> 9 * (unat (bin_sizes ! (?r - 1)) + 1) + 119"
    using r by (intro bin_sizes_step) auto
  also have "9 * (unat (bin_sizes ! (?r - 1)) + 1) \<le> 9 * unat s"
    using r by (intro mult_le_mono2) (simp add: Suc_le_eq)
  finally have "8 * unat (bin_sizes ! ?r) < 9 * unat s + 128" by linarith
  then show ?thesis using r(2) by (simp add: bin_to_size_nat)
qed

theorem size_to_bin_waste_witness:
  "SMALL_MAX < (145 :: u64) \<and> (145 :: u64) \<le> MEDIUM_MAX \<and>
   8 * unat (bin_to_size (size_class_init zero_gstate) (size_to_bin (size_class_init zero_gstate) 145))
     < 9 * unat (145 :: u64) + 128"
  using size_to_bin_waste [of 145 zero_gstate] by (simp add: config_simps)

text \<open>
  The bound of 12.5\% that the documentation gives for every allocation does not hold: a request
  of 145 bytes is served by the 176-byte class, 21\% more than asked for.
\<close>

lemma waste_exceeds_documented_bound:
  "bin_to_size (size_class_init g) (size_to_bin (size_class_init g) 145) = 176 \<and>
   unat (145 :: u64) < 8 * (unat (176 :: u64) - unat (145 :: u64))"
proof -
  have "size_to_bin (size_class_init g) 145 = 17"
    using tables_ok_init [of g]
    by (simp add: size_to_bin_def tables_ok_def config_simps bin_sizes_def bin_search.simps)
  then show ?thesis
    using tables_ok_init [of g] by (simp add: bin_to_size_def tables_ok_def config_simps bin_sizes_def)
qed

end
