(* ===== verification/Segment_Ops.thy ===== *)
theory Segment_Ops
  imports Segment_Registry Page_Slots Size_Class
begin

unbundle bit_operations_syntax

text \<open>
  Segments (\<open>src/segment.c\<close>) and \<open>page_retire\<close> of \<open>src/page.c\<close>: 4 MB regions whose first page holds the
  metadata of the other 63, and the way back from a pointer to its segment and page.
\<close>

section \<open>Operations\<close>

definition fresh_page :: "addr \<Rightarrow> nat option \<Rightarrow> nat \<Rightarrow> page_meta" where
  "fresh_page seg arena i =
     zero_page\<lparr>pm_state := PAGE_UNUSED, pm_segment := seg, pm_arena := arena, pm_page_index := of_nat i,
       pm_local_free := 0, pm_local_free_count := 0, pm_remote_free := 0, pm_remote_free_count := 0,
       pm_next := None, pm_prev := None\<rparr>"

definition fresh_segment :: "addr \<Rightarrow> nat option \<Rightarrow> segment" where
  "fresh_segment seg arena =
     zero_segment\<lparr>sg_magic := SEGMENT_MAGIC, sg_page_count := of_nat PAGES_PER_SEGMENT, sg_pages_used := 0,
       sg_arena := arena, sg_next := 0, sg_prev := 0,
       sg_pages := (map (fresh_page seg arena) [0..<PAGES_PER_SEGMENT])
         [0 := (fresh_page seg arena 0)\<lparr>pm_state := PAGE_FULL\<rparr>]\<rparr>"

definition segment_create :: "env \<Rightarrow> nat option \<Rightarrow> gstate \<Rightarrow> addr \<times> gstate" where
  "segment_create e arena g =
     (case os_mmap_aligned e SEGMENT_SIZE SEGMENT_SIZE g of (mem, g) \<Rightarrow>
        if mem = 0 then (0, g)
        else (mem, g\<lparr>h_segs := (h_segs g)(mem := Some (fresh_segment mem arena)),
                     g_registry := segment_register mem (g_registry g)\<rparr>))"

definition segment_destroy :: "addr \<Rightarrow> gstate \<Rightarrow> gstate" where
  "segment_destroy seg g =
     (if seg = 0 then g
      else let g = g\<lparr>g_registry := segment_unregister seg (g_registry g)\<rparr>
           in os_munmap seg SEGMENT_SIZE (g\<lparr>h_segs := (h_segs g)(seg := None)\<rparr>))"

function find_unused :: "page_meta list \<Rightarrow> nat \<Rightarrow> nat option" where
  "find_unused pages i =
     (if i < PAGES_PER_SEGMENT then
        if pm_state (pages ! i) = PAGE_UNUSED then Some i else find_unused pages (i + 1)
      else None)"
  by auto
termination by (relation "measure (\<lambda>(pages, i). PAGES_PER_SEGMENT - i)") auto

declare find_unused.simps [simp del]

definition segment_alloc_page :: "env \<Rightarrow> addr \<Rightarrow> u8 \<Rightarrow> gstate \<Rightarrow> (page_ptr option \<times> gstate) result" where
  "segment_alloc_page e seg bin_idx g =
     (case h_segs g seg of None \<Rightarrow> Inl (Bad_deref seg)
      | Some sg \<Rightarrow> (case find_unused (sg_pages sg) PAGES_DATA_START of
            None \<Rightarrow> Inr (None, g)
          | Some i \<Rightarrow>
              let slot_size = ucast (bin_to_size g bin_idx) :: u32;
                  g = upd_page (seg, i) (page_init e seg (sg_arena sg) (of_nat i) bin_idx slot_size) g;
                  g = upd_seg seg (\<lambda>sg. sg\<lparr>sg_pages_used := sg_pages_used sg + 1\<rparr>) g
              in Inr (Some (seg, i), g)))"

definition segment_free_page :: "env \<Rightarrow> addr \<Rightarrow> page_ptr \<Rightarrow> gstate \<Rightarrow> gstate result" where
  "segment_free_page e seg pp g =
     bindR (deref_page g pp) (\<lambda>pg.
       let g = os_madvise_free e (page_start pg) PAGE_SIZE_ALLOC g;
           g = upd_page pp (\<lambda>pg. pg\<lparr>pm_owner_tid := UINT32_MAX, pm_state := PAGE_UNUSED,
                 pm_local_free := 0, pm_local_free_count := 0, pm_remote_free := 0,
                 pm_remote_free_count := 0, pm_used := 0, pm_bump_offset := 0, pm_bump_end := 0\<rparr>) g
       in if h_segs g seg = None then Inl (Bad_deref seg)
          else Inr (upd_seg seg (\<lambda>sg. sg\<lparr>sg_pages_used := sg_pages_used sg - 1\<rparr>) g))"

definition page_retire :: "env \<Rightarrow> page_ptr \<Rightarrow> gstate \<Rightarrow> gstate result" where
  "page_retire e pp g =
     bindR (deref_page g pp) (\<lambda>pg.
       let g = upd_page pp (\<lambda>pg. pg\<lparr>pm_state := PAGE_RETIRED\<rparr>) g
       in Inr (os_madvise_free e (page_start pg) PAGE_SIZE_ALLOC g))"

definition ptr_to_segment :: "gstate \<Rightarrow> addr \<Rightarrow> addr" where
  "ptr_to_segment g p =
     (let base = p AND SEGMENT_MASK
      in if \<not> segment_is_registered (g_registry g) base then 0 else base)"

definition ptr_to_page :: "gstate \<Rightarrow> addr \<Rightarrow> page_ptr option" where
  "ptr_to_page g p =
     (let seg = ptr_to_segment g p
      in if seg = 0 then None
         else let offset = p - seg;
                  page_idx = ucast (offset div PAGE_SIZE_ALLOC) :: u16
              in if unat page_idx \<ge> PAGES_PER_SEGMENT then None else Some (seg, unat page_idx))"

end
