(* ===== verification/Debug_Check.thy ===== *)
theory Debug_Check
  imports Segment_Ops
begin

unbundle bit_operations_syntax

text \<open>
  Debug mode (\<open>src/debug.c\<close>, compiled in with \<open>MALLOC_DEBUG\<close>): one bit per slot says whether the slot is
  allocated; allocating a set bit or freeing a clear one aborts. \<open>debug_heap_check\<close> recomputes
  the counters of every page.
\<close>

section \<open>Operations\<close>

definition debug_slot_index :: "page_meta \<Rightarrow> addr \<Rightarrow> u16 result" where
  "debug_slot_index pg p =
     (let base = page_start pg
      in if p < base then Inr UINT16_MAX
         else let offset = p - base
              in if pm_slot_size pg = 0 then Inl Div_by_zero
                 else if offset mod ucast (pm_slot_size pg) \<noteq> 0 then Inr UINT16_MAX
                 else let idx = ucast (offset div ucast (pm_slot_size pg)) :: u16
                      in Inr (if idx < pm_capacity pg then idx else UINT16_MAX))"

definition debug_mark_allocated :: "page_meta \<Rightarrow> addr \<Rightarrow> page_meta result" where
  "debug_mark_allocated pg p =
     bindR (debug_slot_index pg p) (\<lambda>idx.
       if idx = UINT16_MAX then Inl (Abort_invalid_alloc p)
       else let msk = push_bit (unat idx mod 8) 1 :: u8;
                old = pm_debug_bitmap pg ! (unat idx div 8)
            in if old AND msk \<noteq> 0 then Inl (Abort_already_allocated p)
               else Inr (pg\<lparr>pm_debug_bitmap := (pm_debug_bitmap pg)[unat idx div 8 := old OR msk]\<rparr>))"

definition debug_check_and_mark_freed :: "page_meta \<Rightarrow> addr \<Rightarrow> page_meta result" where
  "debug_check_and_mark_freed pg p =
     bindR (debug_slot_index pg p) (\<lambda>idx.
       if idx = UINT16_MAX then Inl (Abort_invalid_free p)
       else let msk = push_bit (unat idx mod 8) 1 :: u8;
                old = pm_debug_bitmap pg ! (unat idx div 8)
            in if old AND msk = 0 then Inl (Abort_double_free p)
               else Inr (pg\<lparr>pm_debug_bitmap := (pm_debug_bitmap pg)[unat idx div 8 := old AND NOT msk]\<rparr>))"

text \<open>The calls under \<open>#if MALLOC_DEBUG\<close> in the allocation and free paths.\<close>

definition debug_alloc :: "env \<Rightarrow> page_ptr \<Rightarrow> addr \<Rightarrow> gstate \<Rightarrow> gstate result" where
  "debug_alloc e pp p g =
     (if malloc_debug e then
        bindR (deref_page g pp) (\<lambda>pg. bindR (debug_mark_allocated pg p) (\<lambda>pg. Inr (upd_page pp (\<lambda>_. pg) g)))
      else Inr g)"

definition debug_free :: "env \<Rightarrow> page_ptr \<Rightarrow> addr \<Rightarrow> gstate \<Rightarrow> gstate result" where
  "debug_free e pp p g =
     (if malloc_debug e then
        bindR (deref_page g pp) (\<lambda>pg. bindR (debug_check_and_mark_freed pg p) (\<lambda>pg. Inr (upd_page pp (\<lambda>_. pg) g)))
      else Inr g)"

section \<open>The heap check\<close>

definition bitmap_count :: "page_meta \<Rightarrow> u16" where
  "bitmap_count pg =
     fold (\<lambda>b c. c + of_nat (length (filter (bit (pm_debug_bitmap pg ! b)) [0..<8])))
       [0..<(unat (pm_capacity pg) + 7) div 8] 0"

text \<open>
  The walk along the local free list: the number of entries seen (one more than the capacity
  when it stops at a cycle) and whether every entry was a slot with a clear bit.
\<close>

partial_function (option) free_walk ::
    "mem \<Rightarrow> page_meta \<Rightarrow> addr \<Rightarrow> u16 \<Rightarrow> bool \<Rightarrow> (u16 \<times> bool) result option" where
  "free_walk m pg entry walked ok =
     (if entry = 0 then Some (Inr (walked, ok))
      else let walked = walked + 1
           in if walked > pm_capacity pg then Some (Inr (walked, False))
              else (case debug_slot_index pg entry of
                  Inl er \<Rightarrow> Some (Inl er)
                | Inr idx \<Rightarrow>
                    if idx = UINT16_MAX then Some (Inr (walked, False))
                    else let ok = (ok \<and> \<not> bit (pm_debug_bitmap pg ! (unat idx div 8)) (unat idx mod 8))
                         in free_walk m pg (load64 m entry) walked ok))"

declare free_walk.simps [code]

definition page_check :: "mem \<Rightarrow> page_meta \<Rightarrow> bool result" where
  "page_check m pg =
     bindR (ends (free_walk m pg (pm_local_free pg) 0 True)) (\<lambda>(walked, walk_ok).
       let bump_remaining = (if pm_bump_end pg > pm_bump_offset pg
             then ucast ((pm_bump_end pg - pm_bump_offset pg) div pm_slot_size pg) else 0) :: u16;
           accounted = pm_used pg + walked + pm_remote_free_count pg + bump_remaining
       in if pm_bump_end pg > pm_bump_offset pg \<and> pm_slot_size pg = 0 then Inl Div_by_zero
          else Inr (bitmap_count pg = pm_used pg \<and> walk_ok \<and> walked = pm_local_free_count pg \<and>
                    accounted = pm_capacity pg))"

text \<open>One arena under its lock: the segments in list order, the data pages of each in index order.\<close>

fun pages_check :: "gstate \<Rightarrow> page_meta list \<Rightarrow> bool result" where
  "pages_check g [] = Inr True"
| "pages_check g (pg # pgs) =
     (if pm_state pg \<noteq> PAGE_ACTIVE \<and> pm_state pg \<noteq> PAGE_FULL then pages_check g pgs
      else bindR (page_check (h_mem g) pg) (\<lambda>ok. bindR (pages_check g pgs) (\<lambda>oks. Inr (ok \<and> oks))))"

partial_function (option) segs_check :: "gstate \<Rightarrow> addr \<Rightarrow> bool \<Rightarrow> bool result option" where
  "segs_check g seg ok =
     (if seg = 0 then Some (Inr ok)
      else (case h_segs g seg of None \<Rightarrow> Some (Inl (Bad_deref seg))
        | Some sg \<Rightarrow> (case pages_check g (drop PAGES_DATA_START (sg_pages sg)) of
              Inl er \<Rightarrow> Some (Inl er)
            | Inr r \<Rightarrow> segs_check g (sg_next sg) (ok \<and> r))))"

declare segs_check.simps [code]

fun arenas_check :: "gstate \<Rightarrow> arena list \<Rightarrow> bool result" where
  "arenas_check g [] = Inr True"
| "arenas_check g (a # as) =
     (if ar_lock a then Inl Deadlock
      else bindR (ends (segs_check g (ar_segments a) True)) (\<lambda>ok.
        bindR (arenas_check g as) (\<lambda>oks. Inr (ok \<and> oks))))"

definition debug_heap_check :: "gstate \<Rightarrow> bool result" where
  "debug_heap_check g = arenas_check g (take (nat (sint (g_arena_count g))) (g_arenas g))"

end
