(* ===== verification/Tld_Init.thy ===== *)
theory Tld_Init
  imports Size_Class Os_Layer "HOL-Library.Signed_Division"
begin

unbundle bit_operations_syntax

text \<open>
  Start-up (\<open>src/init.c\<close>, \<open>arena_init\<close> and \<open>arena_get\<close> of \<open>src/arena.c\<close>) and thread-local data
  (\<open>src/tld.c\<close>). The value that \<open>pthread_getspecific\<close> returns to thread \<open>t\<close> is \<open>t_tld g t\<close>;
  \<open>pthread_once\<close> and \<open>pthread_key_create\<close> only make that slot exist. A thread that meets
  \<open>initialized = 1\<close> spins until another thread finishes; when calls do not overlap, only a call
  made from inside the initialisation can meet it, and then the loop does not end.
\<close>

section \<open>init.c\<close>

definition bootstrap_alloc :: "env \<Rightarrow> u64 \<Rightarrow> gstate \<Rightarrow> addr \<times> gstate" where
  "bootstrap_alloc e sz g =
     (let sz = (sz + of_nat MIN_ALIGN - 1) AND NOT (of_nat MIN_ALIGN - 1);
          offset = g_bootstrap_used g;
          g = g\<lparr>g_bootstrap_used := g_bootstrap_used g + sz\<rparr>
      in if offset + sz > BOOTSTRAP_BUF_SIZE then (0, g) else (bootstrap_buf e + offset, g))"

definition malloc_is_initialized :: "gstate \<Rightarrow> bool" where
  "malloc_is_initialized g \<longleftrightarrow> g_initialized g = 2"

definition arena_init :: "nat \<Rightarrow> u32 \<Rightarrow> gstate \<Rightarrow> gstate" where
  "arena_init i ident = upd_arena i (\<lambda>_. zero_arena\<lparr>ar_lock := False, ar_id := ident, ar_thread_count := 0,
     ar_allocated := 0, ar_freed := 0, ar_alloc_count := 0, ar_free_count := 0\<rparr>)"

definition malloc_init :: "gstate \<Rightarrow> gstate result" where
  "malloc_init g =
     (if g_initialized g \<noteq> 0 then
        if g_initialized g \<noteq> 2 then Inl Diverges else Inr g
      else
        let g = g\<lparr>g_initialized := 1, g_large_lock := False\<rparr>;
            g = g\<lparr>g_registry := replicate SEGMENT_REGISTRY_SIZE 0\<rparr>;
            g = size_class_init g;
            num_arenas = (if 4 > MAX_ARENAS then MAX_ARENAS else 4);
            g = fold (\<lambda>i. arena_init i (of_nat i)) [0..<num_arenas] g;
            g = g\<lparr>g_arena_count := of_nat num_arenas, g_arena_next := 0\<rparr>;
            g = g\<lparr>g_large_list := 0, g_bootstrap_used := 0\<rparr>
        in Inr (g\<lparr>g_initialized := 2\<rparr>))"

definition malloc_ensure_init :: "gstate \<Rightarrow> gstate result" where
  "malloc_ensure_init g = (if g_initialized g \<noteq> 2 then malloc_init g else Inr g)"

section \<open>tld.c\<close>

text \<open>\<open>sizeof(tld_t)\<close>: two words, 75 cached pages, four counters and one 32-bit count, padded.\<close>

definition TLD_SIZE :: u64 where "TLD_SIZE = 656"

definition tld_get :: "env \<Rightarrow> thread \<Rightarrow> gstate \<Rightarrow> addr \<times> gstate" where
  "tld_get e t g =
     (case t_tld g t of Some d \<Rightarrow> (tl_self d, g)
      | None \<Rightarrow>
          (case (if \<not> malloc_is_initialized g then bootstrap_alloc e TLD_SIZE g
                 else os_mmap_aligned e (os_page_size e) (os_page_size e) g) of (p, g) \<Rightarrow>
             if p = 0 then (0, g)
             else (p, g\<lparr>t_tld := (t_tld g)(t := Some ((zero_tld p)\<lparr>tl_thread_id := t_thread_id_counter g,
                                                                tl_arena := None\<rparr>)),
                        t_thread_id_counter := t_thread_id_counter g + 1\<rparr>)))"

text \<open>
  \<open>tld_cleanup\<close> is the destructor that runs when thread \<open>t\<close> exits; its argument is the thread's value.
\<close>

definition tld_cleanup :: "env \<Rightarrow> thread \<Rightarrow> gstate \<Rightarrow> gstate" where
  "tld_cleanup e t g =
     (case t_tld g t of None \<Rightarrow> g
      | Some d \<Rightarrow>
          let g = (case tl_arena d of None \<Rightarrow> g
                   | Some a \<Rightarrow> upd_arena a (\<lambda>ar. ar\<lparr>
                       ar_allocated := ar_allocated ar + (if tl_stat_allocated d \<noteq> 0 then tl_stat_allocated d else 0),
                       ar_freed := ar_freed ar + (if tl_stat_freed d \<noteq> 0 then tl_stat_freed d else 0),
                       ar_alloc_count := ar_alloc_count ar + (if tl_stat_alloc_count d \<noteq> 0 then tl_stat_alloc_count d else 0),
                       ar_free_count := ar_free_count ar + (if tl_stat_free_count d \<noteq> 0 then tl_stat_free_count d else 0),
                       ar_thread_count := ar_thread_count ar - 1\<rparr>) g);
              tld_addr = tl_self d;
              buf_start = bootstrap_buf e;
              buf_end = buf_start + BOOTSTRAP_BUF_SIZE;
              g = g\<lparr>t_tld := (t_tld g)(t := None)\<rparr>
          in if tld_addr \<ge> buf_start \<and> tld_addr < buf_end then g
             else os_munmap tld_addr (os_page_size e) g)"

section \<open>Choosing an arena\<close>

definition arena_get :: "env \<Rightarrow> thread \<Rightarrow> gstate \<Rightarrow> (nat option \<times> gstate) result" where
  "arena_get e t g =
     (case tld_get e t g of (tld, g) \<Rightarrow>
        (case (if tld \<noteq> 0 then Option.bind (t_tld g t) tl_arena else None) of
           Some a \<Rightarrow> Inr (Some a, g)
         | None \<Rightarrow>
             let count = sint (g_arena_count g)
             in if count = 0 then Inr (None, g)
                else
                  let idx = sint (g_arena_next g) smod count;
                      g = g\<lparr>g_arena_next := g_arena_next g + 1\<rparr>
                  in if idx < 0 \<or> int MAX_ARENAS \<le> idx then Inl (Out_of_bounds idx)
                     else let a = nat idx;
                              g = upd_arena a (\<lambda>ar. ar\<lparr>ar_thread_count := ar_thread_count ar + 1\<rparr>) g;
                              g = (if tld \<noteq> 0 then upd_tld t (\<lambda>d. d\<lparr>tl_arena := Some a\<rparr>) g else g)
                          in Inr (Some a, g)))"

end
