(* ===== verification/Arena_Ops.thy ===== *)
theory Arena_Ops
  imports Debug_Check Tld_Init
begin

text \<open>
  Arenas (\<open>src/arena.c\<close>): the slow path of slab allocation under the arena's lock, and the
  doubly-linked lists of pages per size class.
\<close>

section \<open>Operations\<close>

definition lock_arena :: "nat \<Rightarrow> gstate \<Rightarrow> gstate result" where
  "lock_arena a g =
     (if ar_lock (g_arenas g ! a) then Inl Deadlock else Inr (upd_arena a (\<lambda>ar. ar\<lparr>ar_lock := True\<rparr>) g))"

definition unlock_arena :: "nat \<Rightarrow> gstate \<Rightarrow> gstate" where
  "unlock_arena a = upd_arena a (\<lambda>ar. ar\<lparr>ar_lock := False\<rparr>)"

definition bin_head :: "nat \<Rightarrow> u8 \<Rightarrow> gstate \<Rightarrow> page_ptr option" where
  "bin_head a bin g = ar_bins (g_arenas g ! a) ! unat bin"

definition set_bin_head :: "nat \<Rightarrow> u8 \<Rightarrow> page_ptr option \<Rightarrow> gstate \<Rightarrow> gstate" where
  "set_bin_head a bin h = upd_arena a (\<lambda>ar. ar\<lparr>ar_bins := (ar_bins ar)[unat bin := h]\<rparr>)"

definition bin_remove_page :: "nat \<Rightarrow> page_ptr \<Rightarrow> gstate \<Rightarrow> gstate result" where
  "bin_remove_page a pp g =
     bindR (deref_page g pp) (\<lambda>pg.
     let bin = pm_bin_idx pg in
     bindR (case pm_prev pg of None \<Rightarrow> Inr g | Some q \<Rightarrow> write_page q (\<lambda>x. x\<lparr>pm_next := pm_next pg\<rparr>) g) (\<lambda>g.
     bindR (deref_page g pp) (\<lambda>pg.
     bindR (case pm_next pg of None \<Rightarrow> Inr g | Some q \<Rightarrow> write_page q (\<lambda>x. x\<lparr>pm_prev := pm_prev pg\<rparr>) g) (\<lambda>g.
     bindR (deref_page g pp) (\<lambda>pg.
     let g = (if bin_head a bin g = Some pp then set_bin_head a bin (pm_next pg) g else g)
     in write_page pp (\<lambda>x. x\<lparr>pm_next := None, pm_prev := None\<rparr>) g)))))"

definition bin_insert_page :: "nat \<Rightarrow> page_ptr \<Rightarrow> gstate \<Rightarrow> gstate result" where
  "bin_insert_page a pp g =
     bindR (deref_page g pp) (\<lambda>pg.
     let bin = pm_bin_idx pg in
     bindR (write_page pp (\<lambda>x. x\<lparr>pm_prev := None, pm_next := bin_head a bin g\<rparr>) g) (\<lambda>g.
     bindR (case bin_head a bin g of None \<Rightarrow> Inr g | Some h \<Rightarrow> write_page h (\<lambda>x. x\<lparr>pm_prev := Some pp\<rparr>) g) (\<lambda>g.
     Inr (set_bin_head a bin (Some pp) g))))"

text \<open>The search for an unowned page with room left for bump allocation.\<close>

partial_function (option) bin_walk :: "gstate \<Rightarrow> page_ptr option \<Rightarrow> page_ptr option result option" where
  "bin_walk g page =
     (case page of None \<Rightarrow> Some (Inr None)
      | Some pp \<Rightarrow> (case get_page g pp of None \<Rightarrow> Some (Inl (Bad_deref (fst pp)))
          | Some pg \<Rightarrow>
              if pm_owner_tid pg = UINT32_MAX \<and> pm_bump_offset pg < pm_bump_end pg then Some (Inr (Some pp))
              else bin_walk g (pm_next pg)))"

declare bin_walk.simps [code]

text \<open>The search for a segment of the arena with an unused page.\<close>

partial_function (option) seg_walk ::
    "env \<Rightarrow> u8 \<Rightarrow> addr \<Rightarrow> gstate \<Rightarrow> (page_ptr option \<times> gstate) result option" where
  "seg_walk e bin seg g =
     (if seg = 0 then Some (Inr (None, g))
      else (case segment_alloc_page e seg bin g of
          Inl er \<Rightarrow> Some (Inl er)
        | Inr (Some pp, g) \<Rightarrow> Some (Inr (Some pp, g))
        | Inr (None, g) \<Rightarrow> (case h_segs g seg of None \<Rightarrow> Some (Inl (Bad_deref seg))
            | Some sg \<Rightarrow> seg_walk e bin (sg_next sg) g)))"

declare seg_walk.simps [code]

text \<open>Bump allocation from a page and the arena's statistics, as both paths of \<open>arena_alloc\<close> do it.\<close>

definition arena_bump :: "env \<Rightarrow> nat \<Rightarrow> page_ptr \<Rightarrow> gstate \<Rightarrow> (addr \<times> gstate) result" where
  "arena_bump e a pp g =
     bindR (deref_page g pp) (\<lambda>pg. case page_bump pg of (slot, pg') \<Rightarrow>
     bindR (debug_alloc e pp slot (upd_page pp (\<lambda>_. pg') g)) (\<lambda>g.
     Inr (slot, upd_arena a (\<lambda>ar. ar\<lparr>ar_allocated := ar_allocated ar + ucast (pm_slot_size pg'),
                                    ar_alloc_count := ar_alloc_count ar + 1\<rparr>) g)))"

definition push_segment :: "nat \<Rightarrow> addr \<Rightarrow> gstate \<Rightarrow> gstate result" where
  "push_segment a seg g =
     bindR (write_seg seg (\<lambda>sg. sg\<lparr>sg_next := ar_segments (g_arenas g ! a)\<rparr>) g) (\<lambda>g.
     bindR (if ar_segments (g_arenas g ! a) \<noteq> 0
            then write_seg (ar_segments (g_arenas g ! a)) (\<lambda>sg. sg\<lparr>sg_prev := seg\<rparr>) g else Inr g) (\<lambda>g.
     Inr (upd_arena a (\<lambda>ar. ar\<lparr>ar_segments := seg, ar_segment_count := ar_segment_count ar + 1\<rparr>) g)))"

text \<open>
  A page for a size class: from the arena's segments or from a new one. \<open>None\<close> is the
  out-of-memory return.
\<close>

definition arena_new_page :: "env \<Rightarrow> nat \<Rightarrow> u8 \<Rightarrow> gstate \<Rightarrow> (page_ptr option \<times> gstate) result" where
  "arena_new_page e a bin g =
     bindR (ends (seg_walk e bin (ar_segments (g_arenas g ! a)) g)) (\<lambda>(np, g).
     case np of Some pp \<Rightarrow> Inr (Some pp, g)
     | None \<Rightarrow> (case segment_create e (Some a) g of (seg, g) \<Rightarrow>
         if seg = 0 then Inr (None, g)
         else bindR (push_segment a seg g) (\<lambda>g. segment_alloc_page e seg bin g)))"

text \<open>
  The flag \<open>z\<close> is the value of \<open>*zeroed\<close> at the call; the returned flag is its value afterwards.
\<close>

definition arena_alloc :: "env \<Rightarrow> nat \<Rightarrow> u8 \<Rightarrow> bool \<Rightarrow> gstate \<Rightarrow> (addr \<times> bool \<times> gstate) result" where
  "arena_alloc e a bin z g =
     bindR (lock_arena a g) (\<lambda>g.
     bindR (ends (bin_walk g (bin_head a bin g))) (\<lambda>page.
     case page of Some pp \<Rightarrow>
         bindR (arena_bump e a pp g) (\<lambda>(slot, g). Inr (slot, True, unlock_arena a g))
     | None \<Rightarrow>
         bindR (arena_new_page e a bin g) (\<lambda>(np, g).
         case np of None \<Rightarrow> Inr (0, z, unlock_arena a g)
         | Some pp \<Rightarrow>
             bindR (bin_insert_page a pp g) (\<lambda>g.
             bindR (arena_bump e a pp g) (\<lambda>(slot, g). Inr (slot, True, unlock_arena a g))))))"

definition arena_free :: "env \<Rightarrow> nat \<Rightarrow> page_ptr \<Rightarrow> gstate \<Rightarrow> gstate result" where
  "arena_free e a pp g =
     bindR (deref_page g pp) (\<lambda>pg.
     if \<not> page_is_empty pg then Inr g
     else bindR (bin_remove_page a pp g) (\<lambda>g.
          bindR (deref_page g pp) (\<lambda>pg. segment_free_page e (pm_segment pg) pp g)))"

end
