(* ===== verification/Heap_Layout.thy ===== *)
theory Heap_Layout
  imports Os_Layer
begin

text \<open>
  Who owns which addresses. The allocator maps memory for three purposes: segments, large
  blocks and thread-local data. \<open>region\<close> gives the addresses of each owner, and \<open>layout_ok\<close> says that
  different owners never share an address, that every owned address is mapped, and that
  none of them lies in the static bootstrap buffer. This is what justifies keeping the metadata in
  typed stores beside the byte memory.
\<close>

datatype owner = Seg addr | Large addr | Tld thread

fun region :: "env \<Rightarrow> gstate \<Rightarrow> owner \<Rightarrow> nat set" where
  "region e g (Seg b) = (case h_segs g b of None \<Rightarrow> {} | Some _ \<Rightarrow> span b 4194304)"
| "region e g (Large b) = (case h_larges g b of None \<Rightarrow> {} | Some l \<Rightarrow> span b (unat (la_size l)))"
| "region e g (Tld t) = (case t_tld g t of None \<Rightarrow> {} | Some d \<Rightarrow> span (tl_self d) (unat (page_size e)))"

definition layout_ok :: "env \<Rightarrow> os_event list \<Rightarrow> (owner \<Rightarrow> nat set) \<Rightarrow> bool" where
  "layout_ok e log R \<longleftrightarrow>
     (\<forall>x y. x \<noteq> y \<longrightarrow> R x \<inter> R y = {}) \<and> (\<forall>x. \<forall>a \<in> R x. mapped log a) \<and>
     (\<forall>x. R x \<inter> span (bootstrap_buf e) 65536 = {})"

lemma layout_disjoint: "layout_ok e log R \<Longrightarrow> x \<noteq> y \<Longrightarrow> R x \<inter> R y = {}"
  by (simp add: layout_ok_def)

lemma layout_mapped: "layout_ok e log R \<Longrightarrow> a \<in> R x \<Longrightarrow> mapped log a"
  by (auto simp: layout_ok_def)

lemma layout_bootstrap: "layout_ok e log R \<Longrightarrow> a \<in> R x \<Longrightarrow> a \<notin> span (bootstrap_buf e) 65536"
  unfolding layout_ok_def by blast

lemma layout_log: "layout_ok e log R \<Longrightarrow> (\<And>a. mapped log a \<Longrightarrow> mapped log' a) \<Longrightarrow> layout_ok e log' R"
  by (simp add: layout_ok_def)

lemma fresh_rangeD:
  assumes "fresh_range e g p n g'"
  shows "p \<noteq> 0" "unat p + n \<le> 2 ^ 48" "span p n \<inter> span (bootstrap_buf e) 65536 = {}"
    "\<And>a. a \<in> span p n \<Longrightarrow> \<not> mapped (h_log g) a"
    "\<And>a. mapped (h_log g') a \<longleftrightarrow> mapped (h_log g) a \<or> a \<in> span p n"
    "\<And>x. unat x \<in> span p n \<Longrightarrow> h_mem g' x = 0"
    "\<And>x. mapped (h_log g) (unat x) \<Longrightarrow> h_mem g' x = h_mem g x"
  using assms unfolding fresh_range_def by blast+

text \<open>A fresh mapping gets a new owner; an unmapped one loses its owner.\<close>

lemma layout_add:
  assumes "layout_ok e (h_log g) R" "fresh_range e g p n g'" "R x = {}"
  shows "layout_ok e (h_log g') (R(x := span p n))"
proof -
  note f = fresh_rangeD [OF assms(2)]
  have apart: "R y \<inter> span p n = {}" for y using layout_mapped [OF assms(1)] f(4) by blast
  have "(R(x := span p n)) y \<inter> (R(x := span p n)) z = {}" if "y \<noteq> z" for y z
    using that apart layout_disjoint [OF assms(1)] by (auto simp: Int_commute)
  moreover have "mapped (h_log g') a" if "a \<in> (R(x := span p n)) y" for y a
    using that layout_mapped [OF assms(1)] f(5) by (auto split: if_splits)
  moreover have "(R(x := span p n)) y \<inter> span (bootstrap_buf e) 65536 = {}" for y
    using f(3) layout_bootstrap [OF assms(1), of _ y] by (auto simp del: span_iff)
  ultimately show ?thesis unfolding layout_ok_def by blast
qed

lemma layout_remove:
  assumes "layout_ok e (h_log g) R" "R x = span p (unat n)" "p \<noteq> 0" "n > 0"
  shows "layout_ok e (h_log (os_munmap p n g)) (R(x := {}))"
proof -
  have "mapped (h_log (os_munmap p n g)) a" if "a \<in> R y" "y \<noteq> x" for a y
    using that layout_mapped [OF assms(1)] layout_disjoint [OF assms(1), of y x] assms(2)
    by (auto simp: os_munmap_mapped [OF assms(3,4)] simp del: span_iff)
  then show ?thesis using assms(1) unfolding layout_ok_def by simp
qed

text \<open>An address just mapped had no owner.\<close>

lemma fresh_unowned:
  assumes "layout_ok e (h_log g) R" "fresh_range e g p n g'" "0 < n"
  shows "unat p \<notin> R x"
  using layout_mapped [OF assms(1)] fresh_rangeD(4) [OF assms(2), of "unat p"] assms(3) by auto

lemma fresh_not_large:
  assumes "layout_ok e (h_log g) (region e g)" "fresh_range e g p n g'" "0 < n"
    "\<And>b l. h_larges g b = Some l \<Longrightarrow> 0 < unat (la_size l)"
  shows "h_larges g p = None"
  using fresh_unowned [OF assms(1-3), of "Large p"] assms(4) [of p] by (cases "h_larges g p") auto

lemma fresh_not_seg:
  assumes "layout_ok e (h_log g) (region e g)" "fresh_range e g p n g'" "0 < n"
  shows "h_segs g p = None"
  using fresh_unowned [OF assms, of "Seg p"] by (cases "h_segs g p") auto

end
