(* ===== verification/Dll.thy ===== *)
theory Dll
  imports Alloc_Prelude
begin

text \<open>
  Doubly-linked lists with a head pointer, as \<open>large.c\<close> and \<open>arena.c\<close> keep them: insertion at the head
  and unlinking from the middle. \<open>dseg nxt prv p h xs\<close> says that from \<open>h\<close> the next pointers visit \<open>xs\<close>
  and end, and that each previous pointer leads back, the first one to \<open>p\<close>.
\<close>

section \<open>The list abstraction\<close>

primrec dseg :: "('p \<Rightarrow> 'p option) \<Rightarrow> ('p \<Rightarrow> 'p option) \<Rightarrow> 'p option \<Rightarrow> 'p option \<Rightarrow> 'p list \<Rightarrow> bool" where
  "dseg nxt prv p h [] \<longleftrightarrow> h = None"
| "dseg nxt prv p h (x # xs) \<longleftrightarrow> h = Some x \<and> prv x = p \<and> dseg nxt prv (Some x) (nxt x) xs"

definition dll :: "'p option \<Rightarrow> ('p \<Rightarrow> 'p option) \<Rightarrow> ('p \<Rightarrow> 'p option) \<Rightarrow> ('p \<Rightarrow> bool) \<Rightarrow> 'p list \<Rightarrow> bool" where
  "dll h nxt prv node xs \<longleftrightarrow> dseg nxt prv None h xs \<and> distinct xs \<and> (\<forall>x\<in>set xs. node x)"

lemma dseg_cong:
  "(\<And>x. x \<in> set xs \<Longrightarrow> nxt x = nxt' x) \<Longrightarrow> (\<And>x. x \<in> set xs \<Longrightarrow> prv x = prv' x) \<Longrightarrow>
   dseg nxt prv p h xs = dseg nxt' prv' p h xs"
  by (induction xs arbitrary: p h) auto

lemma dll_cong:
  assumes "dll h nxt prv node xs" "\<And>x. x \<in> set xs \<Longrightarrow> nxt' x = nxt x" "\<And>x. x \<in> set xs \<Longrightarrow> prv' x = prv x"
    "\<And>x. x \<in> set xs \<Longrightarrow> node' x"
  shows "dll h nxt' prv' node' xs"
  using assms dseg_cong [of xs nxt' nxt prv' prv None h] by (simp add: dll_def)

lemma dseg_unique: "dseg nxt prv p h xs \<Longrightarrow> dseg nxt prv p h ys \<Longrightarrow> xs = ys"
proof (induction xs arbitrary: p h ys)
  case Nil
  then show ?case by (cases ys) auto
next
  case (Cons x xs)
  then show ?case by (cases ys) auto
qed

lemma dseg_nxt_in: "dseg nxt prv p h xs \<Longrightarrow> x \<in> set xs \<Longrightarrow> nxt x = Some y \<Longrightarrow> y \<in> set xs"
proof (induction xs arbitrary: p h)
  case (Cons a xs)
  then show ?case by (cases xs) auto
qed simp

lemma dseg_prv_in: "dseg nxt prv p h xs \<Longrightarrow> x \<in> set xs \<Longrightarrow> h \<noteq> Some x \<Longrightarrow> prv x \<in> Some ` set xs"
proof (induction xs arbitrary: p h)
  case (Cons a xs)
  show ?case
  proof (cases "nxt a = Some x")
    case True
    then show ?thesis using Cons.prems by (cases xs) auto
  next
    case False
    then show ?thesis using Cons.IH [of "Some a" "nxt a"] Cons.prems by auto
  qed
qed simp

lemma dseg_suffix:
  "dseg nxt prv p h (as @ x # bs) \<Longrightarrow>
   \<exists>q h'. dseg nxt prv q h' (x # bs) \<and> q \<in> insert p (Some ` set as)"
proof (induction as arbitrary: p h)
  case Nil
  then show ?case by auto
next
  case (Cons a as)
  then have "dseg nxt prv (Some a) (nxt a) (as @ x # bs)" by simp
  then obtain q h' where "dseg nxt prv q h' (x # bs)" "q \<in> insert (Some a) (Some ` set as)"
    using Cons.IH by blast
  then show ?case by (intro exI [of _ q] exI [of _ h']) auto
qed

text \<open>The pointer updates of an insertion and of an unlinking.\<close>

definition link_prv :: "'p \<Rightarrow> 'p option \<Rightarrow> ('p \<Rightarrow> 'p option) \<Rightarrow> 'p \<Rightarrow> 'p option" where
  "link_prv x h prv = (case h of None \<Rightarrow> prv(x := None) | Some y \<Rightarrow> (prv(x := None))(y := Some x))"

definition bypass :: "'p option \<Rightarrow> 'p option \<Rightarrow> ('p \<Rightarrow> 'p option) \<Rightarrow> 'p \<Rightarrow> 'p option" where
  "bypass at to f = (case at of None \<Rightarrow> f | Some y \<Rightarrow> f(y := to))"

lemma dseg_insert:
  assumes "dseg nxt prv None h xs" "distinct xs" "x \<notin> set xs"
  shows "dseg (nxt(x := h)) (link_prv x h prv) None (Some x) (x # xs)"
proof (cases xs)
  case Nil
  then show ?thesis using assms by (simp add: link_prv_def)
next
  case (Cons y ys)
  then have h: "h = Some y" and tail: "dseg nxt prv (Some y) (nxt y) ys" and "x \<noteq> y" "y \<notin> set ys" "x \<notin> set ys"
    using assms by auto
  moreover have "dseg (nxt(x := h)) (link_prv x h prv) (Some y) (nxt y) ys"
    using tail \<open>y \<notin> set ys\<close> \<open>x \<notin> set ys\<close> unfolding h
    by (subst dseg_cong [of ys _ nxt _ prv]) (auto simp: link_prv_def)
  ultimately show ?thesis using Cons by (simp add: link_prv_def)
qed

lemma dseg_remove:
  assumes "dseg nxt prv p h xs" "distinct xs" "x \<in> set xs" "p \<notin> Some ` set xs"
  shows "dseg (bypass (prv x) (nxt x) nxt) (bypass (nxt x) (prv x) prv) p
    (if h = Some x then nxt x else h) (remove1 x xs)"
  using assms
proof (induction xs arbitrary: p h)
  case (Cons a xs)
  have a: "h = Some a" "prv a = p" "dseg nxt prv (Some a) (nxt a) xs" "a \<notin> set xs" "distinct xs"
    using Cons.prems by auto
  show ?case
  proof (cases "x = a")
    case True
    have eq: "bypass p (nxt x) nxt y = nxt y" if "y \<in> set xs" for y
      using that Cons.prems(4) by (auto simp: bypass_def split: option.splits)
    show ?thesis
    proof (cases xs)
      case Nil
      then show ?thesis using True a by simp
    next
      case (Cons b bs)
      then have b: "nxt x = Some b" "dseg nxt prv (Some b) (nxt b) bs" "b \<notin> set bs" using True a by auto
      have "dseg (bypass p (nxt x) nxt) (bypass (nxt x) p prv) (Some b) (nxt b) bs"
        using b eq Cons by (subst dseg_cong [of bs _ nxt _ prv]) (auto simp: bypass_def)
      moreover have "bypass (nxt x) p prv b = p" using b(1) by (simp add: bypass_def)
      ultimately show ?thesis using True a(1,2) b(1) Cons eq [of b] by simp
    qed
  next
    case False
    then have x: "x \<in> set xs" using Cons.prems(3) by simp
    then have "nxt x \<noteq> Some a" using dseg_nxt_in [OF a(3) x] a(4) by auto
    then have "bypass (nxt x) (prv x) prv a = p" using a(2) by (auto simp: bypass_def split: option.splits)
    moreover have "bypass (prv x) (nxt x) nxt a = (if nxt a = Some x then nxt x else nxt a)"
    proof (cases "nxt a = Some x")
      case True
      then have "prv x = Some a" using a(3) x by (cases xs) auto
      then show ?thesis using True by (simp add: bypass_def)
    next
      case False
      then have "prv x \<in> Some ` set xs" using dseg_prv_in [OF a(3) x] by simp
      then show ?thesis using False a(4) by (auto simp: bypass_def split: option.splits)
    qed
    moreover have "Some a \<notin> Some ` set xs" using a(4) by auto
    ultimately show ?thesis using Cons.IH [OF a(3,5) x] a(1) False by simp
  qed
qed simp

section \<open>The interface\<close>

text \<open>
  A state holds a head and two link fields per node; \<open>ins\<close> puts a node in front, \<open>del\<close> takes one out. The
  link fields of a node taken out are left open: one client clears them, the other unmaps
  the node.
\<close>

locale dll_ops =
  fixes head :: "'s \<Rightarrow> 'p option" and nxt :: "'s \<Rightarrow> 'p \<Rightarrow> 'p option" and prv :: "'s \<Rightarrow> 'p \<Rightarrow> 'p option"
    and node :: "'s \<Rightarrow> 'p \<Rightarrow> bool" and ins :: "'p \<Rightarrow> 's \<Rightarrow> 's result" and del :: "'p \<Rightarrow> 's \<Rightarrow> 's result"
  assumes ins_step: "node s x \<Longrightarrow> (\<And>y. head s = Some y \<Longrightarrow> node s y \<and> y \<noteq> x) \<Longrightarrow>
      \<exists>s'. ins x s = Inr s' \<and> head s' = Some x \<and> nxt s' = (nxt s)(x := head s) \<and>
        prv s' = link_prv x (head s) (prv s) \<and> node s' = node s"
    and del_step: "node s x \<Longrightarrow> (\<And>y. nxt s x = Some y \<Longrightarrow> node s y \<and> y \<noteq> x) \<Longrightarrow>
      (\<And>y. prv s x = Some y \<Longrightarrow> node s y \<and> y \<noteq> x) \<Longrightarrow>
      \<exists>s'. del x s = Inr s' \<and> head s' = (if head s = Some x then nxt s x else head s) \<and>
        (\<forall>y. y \<noteq> x \<longrightarrow> nxt s' y = bypass (prv s x) (nxt s x) (nxt s) y) \<and>
        (\<forall>y. y \<noteq> x \<longrightarrow> prv s' y = bypass (nxt s x) (prv s x) (prv s) y) \<and> node s' = node s"
begin

lemma ins_dll:
  assumes "dll (head s) (nxt s) (prv s) (node s) xs" "node s x" "x \<notin> set xs"
  shows "\<exists>s'. ins x s = Inr s' \<and> dll (head s') (nxt s') (prv s') (node s') (x # xs)"
proof -
  have "node s y \<and> y \<noteq> x" if "head s = Some y" for y
    using assms that by (cases xs) (auto simp: dll_def)
  then obtain s' where "ins x s = Inr s'" "head s' = Some x" "nxt s' = (nxt s)(x := head s)"
      "prv s' = link_prv x (head s) (prv s)" "node s' = node s" using ins_step [OF assms(2)] by blast
  then show ?thesis using assms dseg_insert [of "nxt s" "prv s" "head s" xs x] by (auto simp: dll_def)
qed

lemma neighbours:
  assumes "dll (head s) (nxt s) (prv s) (node s) xs" "x \<in> set xs"
  shows "nxt s x = Some y \<Longrightarrow> node s y \<and> y \<noteq> x" "prv s x = Some y \<Longrightarrow> node s y \<and> y \<noteq> x"
proof -
  obtain as bs where xs: "xs = as @ x # bs" using split_list [OF assms(2)] by blast
  have d: "dseg (nxt s) (prv s) None (head s) xs" "distinct xs" "\<forall>x\<in>set xs. node s x"
    using assms(1) by (auto simp: dll_def)
  have "\<exists>p h. dseg (nxt s) (prv s) p h (x # bs) \<and> p \<in> insert None (Some ` set as)"
    using dseg_suffix d(1) unfolding xs by fast
  then obtain p h where s: "dseg (nxt s) (prv s) p h (x # bs)" "p \<in> insert None (Some ` set as)" by blast
  show "node s y \<and> y \<noteq> x" if "nxt s x = Some y"
  proof -
    have "y \<in> set bs" using s(1) that by (cases bs) auto
    then show ?thesis using d(2,3) xs by auto
  qed
  show "node s y \<and> y \<noteq> x" if "prv s x = Some y" using s that d(2,3) xs by auto
qed

lemma del_dll:
  assumes "dll (head s) (nxt s) (prv s) (node s) xs" "x \<in> set xs"
  shows "\<exists>s'. del x s = Inr s' \<and> dll (head s') (nxt s') (prv s') (node s') (remove1 x xs)"
proof -
  have n: "node s x" using assms by (auto simp: dll_def)
  obtain s' where s': "del x s = Inr s'" "head s' = (if head s = Some x then nxt s x else head s)"
      "\<And>y. y \<noteq> x \<Longrightarrow> nxt s' y = bypass (prv s x) (nxt s x) (nxt s) y"
      "\<And>y. y \<noteq> x \<Longrightarrow> prv s' y = bypass (nxt s x) (prv s x) (prv s) y" "node s' = node s"
    using del_step [OF n neighbours [OF assms]] by blast
  have d: "dseg (nxt s) (prv s) None (head s) xs" "distinct xs" using assms(1) by (auto simp: dll_def)
  have "dseg (nxt s') (prv s') None (head s') (remove1 x xs)"
    unfolding s'(2) using dseg_remove [OF d assms(2)] s'(3,4) d(2)
    by (subst dseg_cong [where nxt' = "bypass (prv s x) (nxt s x) (nxt s)"
          and prv' = "bypass (nxt s x) (prv s x) (prv s)"]) auto
  then show ?thesis using s'(1,5) assms(1) d(2) by (auto simp: dll_def)
qed

end

end
