(* ===== verification/Large_Ops.thy ===== *)
theory Large_Ops
  imports Heap_Layout Dll
begin

unbundle bit_operations_syntax

text \<open>
  Large allocations (\<open>src/large.c\<close>): each is a mapping of its own, with a header at its start, on a
  doubly-linked list under \<open>large_lock\<close>.
\<close>

section \<open>Operations\<close>

text \<open>\<open>sizeof(large_alloc_t)\<close> is 40 on the 64-bit targets.\<close>

definition LARGE_HEADER_SIZE :: u64 where
  "LARGE_HEADER_SIZE = (40 + of_nat MIN_ALIGN - 1) AND NOT (of_nat MIN_ALIGN - 1)"

definition lock_large :: "gstate \<Rightarrow> gstate result" where
  "lock_large g = (if g_large_lock g then Inl Deadlock else Inr (g\<lparr>g_large_lock := True\<rparr>))"

definition unlock_large :: "gstate \<Rightarrow> gstate" where
  "unlock_large g = g\<lparr>g_large_lock := False\<rparr>"

definition large_link :: "addr \<Rightarrow> gstate \<Rightarrow> gstate result" where
  "large_link la g =
     bindR (write_large la (\<lambda>l. l\<lparr>la_next := g_large_list g, la_prev := 0\<rparr>) g) (\<lambda>g.
     bindR (if g_large_list g \<noteq> 0 then write_large (g_large_list g) (\<lambda>l. l\<lparr>la_prev := la\<rparr>) g else Inr g) (\<lambda>g.
     Inr (g\<lparr>g_large_list := la\<rparr>)))"

definition large_unlink :: "addr \<Rightarrow> gstate \<Rightarrow> gstate result" where
  "large_unlink la g =
     bindR (deref_large g la) (\<lambda>l.
     bindR (if la_prev l \<noteq> 0 then write_large (la_prev l) (\<lambda>p. p\<lparr>la_next := la_next l\<rparr>) g else Inr g) (\<lambda>g.
     bindR (deref_large g la) (\<lambda>l.
     bindR (if la_next l \<noteq> 0 then write_large (la_next l) (\<lambda>n. n\<lparr>la_prev := la_prev l\<rparr>) g else Inr g) (\<lambda>g.
     bindR (deref_large g la) (\<lambda>l.
     Inr (if g_large_list g = la then g\<lparr>g_large_list := la_next l\<rparr> else g))))))"

text \<open>The walk along the list for the mapping that contains an address; 0 when there is none.\<close>

partial_function (option) large_search :: "gstate \<Rightarrow> addr \<Rightarrow> addr \<Rightarrow> addr result option" where
  "large_search g p la =
     (if la = 0 then Some (Inr 0)
      else (case h_larges g la of None \<Rightarrow> Some (Inl (Bad_deref la))
        | Some l \<Rightarrow>
            if la_base l \<le> p \<and> p < la_base l + la_size l then Some (Inr la)
            else large_search g p (la_next l)))"

declare large_search.simps [code]

definition large_alloc_aligned :: "env \<Rightarrow> u64 \<Rightarrow> u64 \<Rightarrow> gstate \<Rightarrow> (addr \<times> gstate) result" where
  "large_alloc_aligned e sz alignment g =
     (let alignment = (if alignment < of_nat MIN_ALIGN then of_nat MIN_ALIGN else alignment);
          header_space = align_up LARGE_HEADER_SIZE alignment;
          total = header_space + sz;
          os_page = os_page_size e;
          total = align_up total os_page
      in case os_mmap_aligned e total (if os_page > alignment then os_page else alignment) g of (base, g) \<Rightarrow>
        if base = 0 then Inr (0, g)
        else
          let g = g\<lparr>h_larges := (h_larges g)(base := Some \<lparr>la_base = base, la_size = total,
                      la_user_size = sz, la_next = 0, la_prev = 0\<rparr>)\<rparr>
          in bindR (lock_large g) (\<lambda>g.
             bindR (large_link base g) (\<lambda>g.
             let g = unlock_large g;
                 g = g\<lparr>g_large_allocated := g_large_allocated g + sz,
                       g_large_alloc_count := g_large_alloc_count g + 1\<rparr>
             in Inr (base + header_space, g))))"

definition large_alloc :: "env \<Rightarrow> u64 \<Rightarrow> gstate \<Rightarrow> (addr \<times> gstate) result" where
  "large_alloc e sz = large_alloc_aligned e sz (of_nat MIN_ALIGN)"

text \<open>After \<open>munmap\<close> the header is gone with its mapping.\<close>

definition large_free :: "addr \<Rightarrow> gstate \<Rightarrow> gstate result" where
  "large_free p g =
     (if p = 0 then Inr g
      else
        bindR (lock_large g) (\<lambda>g.
        bindR (ends (large_search g p (g_large_list g))) (\<lambda>la.
        if la = 0 then Inr (unlock_large g)
        else
          bindR (large_unlink la g) (\<lambda>g.
          bindR (deref_large g la) (\<lambda>l.
          let g = unlock_large g;
              g = g\<lparr>g_large_allocated := g_large_allocated g - la_user_size l,
                    g_large_alloc_count := g_large_alloc_count g - 1\<rparr>;
              g = os_munmap (la_base l) (la_size l) g
          in Inr (g\<lparr>h_larges := (h_larges g)(la := None)\<rparr>))))))"

definition large_find :: "addr \<Rightarrow> gstate \<Rightarrow> (addr \<times> gstate) result" where
  "large_find p g =
     bindR (lock_large g) (\<lambda>g.
     bindR (ends (large_search g p (g_large_list g))) (\<lambda>la.
     Inr (la, unlock_large g)))"

definition large_usable_size :: "addr \<Rightarrow> gstate \<Rightarrow> (u64 \<times> gstate) result" where
  "large_usable_size p g =
     bindR (large_find p g) (\<lambda>(la, g).
       if la \<noteq> 0 then bindR (deref_large g la) (\<lambda>l. Inr (la_user_size l, g)) else Inr (0, g))"

section \<open>The list of large blocks\<close>

definition ptr_opt :: "addr \<Rightarrow> addr option" where
  "ptr_opt p = (if p = 0 then None else Some p)"

definition large_head :: "gstate \<Rightarrow> addr option" where
  "large_head g = ptr_opt (g_large_list g)"

definition large_nxt :: "gstate \<Rightarrow> addr \<Rightarrow> addr option" where
  "large_nxt g x = Option.bind (h_larges g x) (\<lambda>l. ptr_opt (la_next l))"

definition large_prv :: "gstate \<Rightarrow> addr \<Rightarrow> addr option" where
  "large_prv g x = Option.bind (h_larges g x) (\<lambda>l. ptr_opt (la_prev l))"

definition large_node :: "gstate \<Rightarrow> addr \<Rightarrow> bool" where
  "large_node g x \<longleftrightarrow> x \<noteq> 0 \<and> h_larges g x \<noteq> None"

lemmas large_list_defs = large_head_def large_nxt_def large_prv_def large_node_def

lemma ptr_opt_simps [simp]: "ptr_opt p = None \<longleftrightarrow> p = 0" "ptr_opt p = Some q \<longleftrightarrow> p = q \<and> q \<noteq> 0" "ptr_opt 0 = None"
  by (auto simp: ptr_opt_def)

lemma upd_large_simps [simp]:
  "h_larges (upd_large p f g) = (h_larges g)(p := map_option f (h_larges g p))"
  "g_large_list (upd_large p f g) = g_large_list g"
  by (simp_all add: upd_large_def)

interpretation large_list: dll_ops large_head large_nxt large_prv large_node large_link large_unlink
proof unfold_locales
  fix s x
  assume n: "large_node s x" and h: "\<And>y. large_head s = Some y \<Longrightarrow> large_node s y \<and> y \<noteq> x"
  then obtain l where l: "h_larges s x = Some l" "x \<noteq> 0" by (auto simp: large_node_def)
  have hd: "g_large_list s = 0 \<or> g_large_list s \<noteq> 0 \<and> g_large_list s \<noteq> x \<and> (\<exists>l'. h_larges s (g_large_list s) = Some l')"
    using h [of "g_large_list s"] by (auto simp: large_list_defs)
  obtain s' where s': "large_link x s = Inr s'" using hd l by (auto simp: large_link_def write_large_def)
  moreover have "large_head s' = Some x" using s' hd l by (auto simp: large_link_def write_large_def large_head_def split: if_splits)
  moreover have "large_nxt s' = (large_nxt s)(x := large_head s)"
    using s' hd l by (intro ext) (auto simp: large_link_def write_large_def large_head_def large_nxt_def split: if_splits)
  moreover have "large_prv s' = link_prv x (large_head s) (large_prv s)"
    using s' hd l by (intro ext) (auto simp: large_link_def write_large_def large_head_def large_prv_def link_prv_def
        split: if_splits option.splits)
  moreover have "large_node s' = large_node s"
    using s' hd l by (intro ext) (auto simp: large_link_def write_large_def large_node_def split: if_splits)
  ultimately show "\<exists>s'. large_link x s = Inr s' \<and> large_head s' = Some x \<and> large_nxt s' = (large_nxt s)(x := large_head s) \<and>
      large_prv s' = link_prv x (large_head s) (large_prv s) \<and> large_node s' = large_node s" by blast
next
  fix s x
  assume n: "large_node s x" and nx: "\<And>y. large_nxt s x = Some y \<Longrightarrow> large_node s y \<and> y \<noteq> x"
    and pr: "\<And>y. large_prv s x = Some y \<Longrightarrow> large_node s y \<and> y \<noteq> x"
  then obtain l where l: "h_larges s x = Some l" "x \<noteq> 0" by (auto simp: large_node_def)
  have N: "la_next l = 0 \<or> la_next l \<noteq> 0 \<and> la_next l \<noteq> x \<and> (\<exists>l'. h_larges s (la_next l) = Some l')"
    using nx [of "la_next l"] l by (auto simp: large_list_defs)
  have P: "la_prev l = 0 \<or> la_prev l \<noteq> 0 \<and> la_prev l \<noteq> x \<and> (\<exists>l'. h_larges s (la_prev l) = Some l')"
    using pr [of "la_prev l"] l by (auto simp: large_list_defs)
  obtain s' where s': "large_unlink x s = Inr s'"
    using N P l by (cases "la_next l = la_prev l") (auto simp: large_unlink_def write_large_def deref_large_def)
  moreover have "large_head s' = (if large_head s = Some x then large_nxt s x else large_head s)"
    using s' N P l by (auto simp: large_unlink_def write_large_def deref_large_def large_head_def large_nxt_def split: if_splits)
  moreover have "y \<noteq> x \<longrightarrow> large_nxt s' y = bypass (large_prv s x) (large_nxt s x) (large_nxt s) y" for y
    using s' N P l by (auto simp: large_unlink_def write_large_def deref_large_def large_prv_def large_nxt_def bypass_def
        split: if_splits option.splits)
  moreover have "y \<noteq> x \<longrightarrow> large_prv s' y = bypass (large_nxt s x) (large_prv s x) (large_prv s) y" for y
    using s' N P l by (auto simp: large_unlink_def write_large_def deref_large_def large_prv_def large_nxt_def bypass_def
        split: if_splits option.splits)
  moreover have "large_node s' = large_node s"
    using s' N P l by (intro ext) (auto simp: large_unlink_def write_large_def deref_large_def large_node_def split: if_splits)
  ultimately show "\<exists>s'. large_unlink x s = Inr s' \<and> large_head s' = (if large_head s = Some x then large_nxt s x else large_head s) \<and>
      (\<forall>y. y \<noteq> x \<longrightarrow> large_nxt s' y = bypass (large_prv s x) (large_nxt s x) (large_nxt s) y) \<and>
      (\<forall>y. y \<noteq> x \<longrightarrow> large_prv s' y = bypass (large_nxt s x) (large_prv s x) (large_prv s) y) \<and>
      large_node s' = large_node s" by blast
qed

end
