(* ===== verification/Slab_Ops.thy ===== *)
theory Slab_Ops
  imports Arena_Ops Large_Ops
begin

text \<open>
  The slab allocator (\<open>src/slab.c\<close>): the lock-free path through the page a thread has cached for a size
  class, the slow path through the arena, and frees by the owner and by other threads.
\<close>

section \<open>Statistics of a thread\<close>

definition STAT_FLUSH_INTERVAL :: u32 where "STAT_FLUSH_INTERVAL = 64"

text \<open>Flushing with nothing to add does not touch the arena; otherwise \<open>tld->arena\<close> is dereferenced.\<close>

definition tld_stat_flush :: "thread \<Rightarrow> gstate \<Rightarrow> gstate result" where
  "tld_stat_flush t g =
     (case t_tld g t of None \<Rightarrow> Inl (Bad_deref 0)
      | Some d \<Rightarrow>
          bindR (case tl_arena d of
              None \<Rightarrow> if tl_stat_allocated d = 0 \<and> tl_stat_freed d = 0 \<and> tl_stat_alloc_count d = 0 \<and>
                         tl_stat_free_count d = 0 then Inr g else Inl (Bad_deref 0)
            | Some a \<Rightarrow> Inr (upd_arena a (\<lambda>ar. ar\<lparr>
                ar_allocated := ar_allocated ar + tl_stat_allocated d,
                ar_freed := ar_freed ar + tl_stat_freed d,
                ar_alloc_count := ar_alloc_count ar + tl_stat_alloc_count d,
                ar_free_count := ar_free_count ar + tl_stat_free_count d\<rparr>) g)) (\<lambda>g.
          Inr (upd_tld t (\<lambda>d. d\<lparr>tl_stat_allocated := 0, tl_stat_freed := 0, tl_stat_alloc_count := 0,
                               tl_stat_free_count := 0, tl_stat_ops := 0\<rparr>) g)))"

definition tld_stat_tick :: "thread \<Rightarrow> gstate \<Rightarrow> gstate result" where
  "tld_stat_tick t g =
     (let g = upd_tld t (\<lambda>d. d\<lparr>tl_stat_ops := tl_stat_ops d + 1\<rparr>) g
      in case t_tld g t of None \<Rightarrow> Inl (Bad_deref 0)
         | Some d \<Rightarrow> if tl_stat_ops d \<ge> STAT_FLUSH_INTERVAL then tld_stat_flush t g else Inr g)"

definition tld_stat_alloc :: "thread \<Rightarrow> u64 \<Rightarrow> gstate \<Rightarrow> gstate result" where
  "tld_stat_alloc t n g =
     tld_stat_tick t (upd_tld t (\<lambda>d. d\<lparr>tl_stat_allocated := tl_stat_allocated d + n,
                                      tl_stat_alloc_count := tl_stat_alloc_count d + 1\<rparr>) g)"

definition tld_stat_free :: "thread \<Rightarrow> u64 \<Rightarrow> gstate \<Rightarrow> gstate result" where
  "tld_stat_free t n g =
     tld_stat_tick t (upd_tld t (\<lambda>d. d\<lparr>tl_stat_freed := tl_stat_freed d + n,
                                      tl_stat_free_count := tl_stat_free_count d + 1\<rparr>) g)"

section \<open>Allocation\<close>

text \<open>What each of the three successful cases of the cached page does once it has its slot.\<close>

definition slab_take :: "env \<Rightarrow> thread \<Rightarrow> page_ptr \<Rightarrow> addr \<times> page_meta \<Rightarrow> gstate \<Rightarrow> (addr \<times> gstate) result" where
  "slab_take e t pp sp g =
     bindR (debug_alloc e pp (fst sp) (upd_page pp (\<lambda>_. snd sp) g)) (\<lambda>g.
     bindR (tld_stat_alloc t (ucast (pm_slot_size (snd sp))) g) (\<lambda>g.
     Inr (fst sp, g)))"

text \<open>
  The cached page of thread \<open>t\<close> for a size class: \<open>Some (slot, zeroed)\<close>, or \<open>None\<close> to go on with the
  slow path.
\<close>

definition slab_fast :: "env \<Rightarrow> thread \<Rightarrow> u8 \<Rightarrow> gstate \<Rightarrow> ((addr \<times> bool) option \<times> gstate) result" where
  "slab_fast e t bin g =
     (case Option.bind (t_tld g t) (\<lambda>d. tl_bin_page d ! unat bin) of
        None \<Rightarrow> Inr (None, g)
      | Some pp \<Rightarrow>
          bindR (deref_page g pp) (\<lambda>pg.
          if pm_state pg \<noteq> PAGE_ACTIVE then Inr (None, g)
          else if pm_local_free pg \<noteq> 0 then
            bindR (slab_take e t pp (page_pop_local (h_mem g) pg) g) (\<lambda>(slot, g). Inr (Some (slot, False), g))
          else if pm_bump_offset pg < pm_bump_end pg then
            bindR (slab_take e t pp (page_bump pg) g) (\<lambda>(slot, g). Inr (Some (slot, True), g))
          else
            bindR (of_option Diverges (page_collect_remote (h_mem g) pg)) (\<lambda>(m, pg).
            let g = upd_page pp (\<lambda>_. pg) (g\<lparr>h_mem := m\<rparr>)
            in if pm_local_free pg \<noteq> 0 then
                 bindR (slab_take e t pp (page_pop_local (h_mem g) pg) g) (\<lambda>(slot, g). Inr (Some (slot, False), g))
               else Inr (None, upd_tld t (\<lambda>d. d\<lparr>tl_bin_page := (tl_bin_page d)[unat bin := None]\<rparr>) g))))"

text \<open>Claiming the page of a slot from the arena for the thread (a compare-and-swap on the owner).\<close>

definition slab_claim :: "thread \<Rightarrow> u8 \<Rightarrow> addr \<Rightarrow> gstate \<Rightarrow> gstate result" where
  "slab_claim t bin p g =
     (case (ptr_to_page g p, t_tld g t) of
        (Some pp, Some d) \<Rightarrow>
          bindR (deref_page g pp) (\<lambda>pg.
          if pm_owner_tid pg = UINT32_MAX then
            Inr (upd_tld t (\<lambda>d. d\<lparr>tl_bin_page := (tl_bin_page d)[unat bin := Some pp]\<rparr>)
                  (upd_page pp (\<lambda>pg. pg\<lparr>pm_owner_tid := tl_thread_id d\<rparr>) g))
          else if pm_owner_tid pg = tl_thread_id d then
            Inr (upd_tld t (\<lambda>d. d\<lparr>tl_bin_page := (tl_bin_page d)[unat bin := Some pp]\<rparr>) g)
          else Inr g)
      | _ \<Rightarrow> Inr g)"

definition slab_slow :: "env \<Rightarrow> thread \<Rightarrow> u8 \<Rightarrow> addr \<Rightarrow> bool \<Rightarrow> gstate \<Rightarrow> (addr \<times> bool \<times> gstate) result" where
  "slab_slow e t bin tld z g =
     bindR (arena_get e t g) (\<lambda>(arena, g).
     case arena of None \<Rightarrow> Inr (0, z, g)
     | Some a \<Rightarrow>
         bindR (arena_alloc e a bin z g) (\<lambda>(p, z, g).
         if p \<noteq> 0 \<and> tld \<noteq> 0 then bindR (slab_claim t bin p g) (\<lambda>g. Inr (p, z, g))
         else Inr (p, z, g)))"

definition slab_alloc_inner :: "env \<Rightarrow> thread \<Rightarrow> u64 \<Rightarrow> bool \<Rightarrow> gstate \<Rightarrow> (addr \<times> bool \<times> gstate) result" where
  "slab_alloc_inner e t sz z g =
     (let sz = (if sz = 0 then 1 else sz) in
      if sz > MEDIUM_MAX then bindR (large_alloc e sz g) (\<lambda>(p, g). Inr (p, False, g))
      else
        let bin = size_to_bin g sz;
            slot_size = bin_to_size g bin
        in if slot_size > PAGE_SIZE_ALLOC div 2 then bindR (large_alloc e sz g) (\<lambda>(p, g). Inr (p, False, g))
           else (case tld_get e t g of (tld, g) \<Rightarrow>
             bindR (if tld \<noteq> 0 then slab_fast e t bin g else Inr (None, g)) (\<lambda>(r, g).
             case r of Some (slot, z) \<Rightarrow> Inr (slot, z, g)
             | None \<Rightarrow> slab_slow e t bin tld z g)))"

definition slab_alloc :: "env \<Rightarrow> thread \<Rightarrow> u64 \<Rightarrow> gstate \<Rightarrow> (addr \<times> gstate) result" where
  "slab_alloc e t sz g = bindR (slab_alloc_inner e t sz False g) (\<lambda>(p, z, g). Inr (p, g))"

definition slab_alloc_zeroed :: "env \<Rightarrow> thread \<Rightarrow> u64 \<Rightarrow> bool \<Rightarrow> gstate \<Rightarrow> (addr \<times> bool \<times> gstate) result" where
  "slab_alloc_zeroed e t sz z g = slab_alloc_inner e t sz z g"

section \<open>Free\<close>

definition slab_free_remote :: "page_ptr \<Rightarrow> addr \<Rightarrow> page_meta \<Rightarrow> gstate \<Rightarrow> gstate" where
  "slab_free_remote pp p pg g =
     (case page_free_slot_remote p (h_mem g) pg of (m, pg) \<Rightarrow>
        let g = upd_page pp (\<lambda>_. pg) (g\<lparr>h_mem := m\<rparr>)
        in case pm_arena pg of None \<Rightarrow> g
           | Some a \<Rightarrow> upd_arena a (\<lambda>ar. ar\<lparr>ar_freed := ar_freed ar + ucast (pm_slot_size pg),
                                          ar_free_count := ar_free_count ar + 1\<rparr>) g)"

definition slab_free :: "env \<Rightarrow> thread \<Rightarrow> addr \<Rightarrow> gstate \<Rightarrow> gstate result" where
  "slab_free e t p g =
     (if p = 0 then Inr g
      else if ptr_to_segment g p = 0 then Inr g
      else (case ptr_to_page g p of None \<Rightarrow> Inr g
        | Some pp \<Rightarrow>
            bindR (deref_page g pp) (\<lambda>pg.
            if pm_state pg = PAGE_UNUSED then Inr g
            else
              bindR (debug_free e pp p g) (\<lambda>g.
              case tld_get e t g of (tld, g) \<Rightarrow>
              bindR (deref_page g pp) (\<lambda>pg.
              case (if tld \<noteq> 0 then t_tld g t else None) of
                Some d \<Rightarrow>
                  if pm_owner_tid pg = tl_thread_id d then
                    (case page_free_slot_local p (h_mem g) pg of (m, pg) \<Rightarrow>
                       tld_stat_free t (ucast (pm_slot_size pg)) (upd_page pp (\<lambda>_. pg) (g\<lparr>h_mem := m\<rparr>)))
                  else Inr (slab_free_remote pp p pg g)
              | None \<Rightarrow> Inr (slab_free_remote pp p pg g))))))"

end
