(* ===== verification/Malloc_Api.thy ===== *)
theory Malloc_Api
  imports Slab_Ops
begin

unbundle bit_operations_syntax

text \<open>
  The public entry points (\<open>src/malloc.c\<close>). A call takes the calling thread and the state and returns
  the pointer (0 is NULL) with the new state.
\<close>

section \<open>Operations\<close>

definition EINVAL :: int where "EINVAL = 22"
definition ENOMEM :: int where "ENOMEM = 12"

definition set_errno :: "thread \<Rightarrow> int \<Rightarrow> gstate \<Rightarrow> gstate" where
  "set_errno t n g = g\<lparr>t_errno := (t_errno g)(t := n)\<rparr>"

definition in_bootstrap :: "env \<Rightarrow> addr \<Rightarrow> bool" where
  "in_bootstrap e p \<longleftrightarrow> p \<ge> bootstrap_buf e \<and> p < bootstrap_buf e + BOOTSTRAP_BUF_SIZE"

definition my_malloc :: "env \<Rightarrow> thread \<Rightarrow> u64 \<Rightarrow> gstate \<Rightarrow> (addr \<times> gstate) result" where
  "my_malloc e t sz g =
     bindR (malloc_ensure_init g) (\<lambda>g.
     let sz = (if sz = 0 then 1 else sz)
     in if sz > MEDIUM_MAX then large_alloc e sz g else slab_alloc e t sz g)"

definition my_free :: "env \<Rightarrow> thread \<Rightarrow> addr \<Rightarrow> gstate \<Rightarrow> gstate result" where
  "my_free e t p g =
     (if p = 0 then Inr g
      else if in_bootstrap e p then Inr g
      else if ptr_to_segment g p \<noteq> 0 then slab_free e t p g
      else large_free p g)"

definition my_calloc :: "env \<Rightarrow> thread \<Rightarrow> u64 \<Rightarrow> u64 \<Rightarrow> gstate \<Rightarrow> (addr \<times> gstate) result" where
  "my_calloc e t count sz g =
     (if uint count * uint sz \<ge> 2 ^ 64 then Inr (0, set_errno t ENOMEM g)
      else
        let total = count * sz in
        bindR (malloc_ensure_init g) (\<lambda>g.
        let total = (if total = 0 then 1 else total)
        in if total > MEDIUM_MAX then large_alloc e total g
           else bindR (slab_alloc_zeroed e t total False g) (\<lambda>(p, zeroed, g).
                if p \<noteq> 0 \<and> \<not> zeroed then Inr (p, g\<lparr>h_mem := mem_set (h_mem g) p 0 total\<rparr>)
                else Inr (p, g))))"

text \<open>Allocate, copy, free: the common tail of the moving cases of \<open>my_realloc\<close>.\<close>

definition realloc_move :: "env \<Rightarrow> thread \<Rightarrow> addr \<Rightarrow> u64 \<Rightarrow> u64 \<Rightarrow> gstate \<Rightarrow> (addr \<times> gstate) result" where
  "realloc_move e t p old_size new_size g =
     bindR (my_malloc e t new_size g) (\<lambda>(new_ptr, g).
     if new_ptr = 0 then Inr (0, g)
     else
       let copy_size = (if old_size < new_size then old_size else new_size);
           g = g\<lparr>h_mem := mem_cpy (h_mem g) new_ptr p copy_size\<rparr>
       in bindR (my_free e t p g) (\<lambda>g. Inr (new_ptr, g)))"

definition realloc_large :: "env \<Rightarrow> thread \<Rightarrow> addr \<Rightarrow> u64 \<Rightarrow> gstate \<Rightarrow> (addr \<times> gstate) result" where
  "realloc_large e t p new_size g =
     bindR (large_find p g) (\<lambda>(la, g).
     if la = 0 then Inr (0, g)
     else bindR (deref_large g la) (\<lambda>l.
       if new_size \<le> la_size l - (p - la_base l) then
         bindR (write_large la (\<lambda>l. l\<lparr>la_user_size := new_size\<rparr>) g) (\<lambda>g. Inr (p, g))
       else realloc_move e t p (la_user_size l) new_size g))"

definition my_realloc :: "env \<Rightarrow> thread \<Rightarrow> addr \<Rightarrow> u64 \<Rightarrow> gstate \<Rightarrow> (addr \<times> gstate) result" where
  "my_realloc e t p new_size g =
     (if p = 0 then my_malloc e t new_size g
      else if new_size = 0 then bindR (my_free e t p g) (\<lambda>g. Inr (0, g))
      else
        bindR (malloc_ensure_init g) (\<lambda>g.
        if in_bootstrap e p then
          bindR (my_malloc e t new_size g) (\<lambda>(new_ptr, g).
          if new_ptr \<noteq> 0 then Inr (new_ptr, g\<lparr>h_mem := mem_cpy (h_mem g) new_ptr p new_size\<rparr>)
          else Inr (new_ptr, g))
        else (case (if ptr_to_segment g p \<noteq> 0 then ptr_to_page g p else None) of
            None \<Rightarrow> realloc_large e t p new_size g
          | Some pp \<Rightarrow>
              bindR (deref_page g pp) (\<lambda>pg.
              let old_size = ucast (pm_slot_size pg) :: u64
              in if new_size \<le> old_size \<and> size_to_bin g new_size = pm_bin_idx pg then Inr (p, g)
                 else realloc_move e t p old_size new_size g))))"

definition my_memalign :: "env \<Rightarrow> thread \<Rightarrow> u64 \<Rightarrow> u64 \<Rightarrow> gstate \<Rightarrow> (addr \<times> gstate) result" where
  "my_memalign e t alignment sz g =
     bindR (malloc_ensure_init g) (\<lambda>g.
     if alignment = 0 \<or> alignment AND (alignment - 1) \<noteq> 0 then Inr (0, set_errno t EINVAL g)
     else if alignment \<le> of_nat MIN_ALIGN then my_malloc e t sz g
     else if sz > MEDIUM_MAX \<or> alignment > PAGE_SIZE_ALLOC then large_alloc_aligned e sz alignment g
     else
       let alloc_size = (if sz < alignment then alignment else sz);
           alloc_size = align_up alloc_size alignment
       in if alloc_size > MEDIUM_MAX then large_alloc_aligned e sz alignment g
          else slab_alloc e t alloc_size g)"

text \<open>\<open>*memptr\<close> is passed in and out: it is written only on success.\<close>

definition my_posix_memalign ::
    "env \<Rightarrow> thread \<Rightarrow> addr \<Rightarrow> u64 \<Rightarrow> u64 \<Rightarrow> gstate \<Rightarrow> (int \<times> addr \<times> gstate) result" where
  "my_posix_memalign e t memptr alignment sz g =
     (if alignment < 8 \<or> alignment AND (alignment - 1) \<noteq> 0 then Inr (EINVAL, memptr, g)
      else bindR (my_memalign e t alignment sz g) (\<lambda>(p, g).
           if p = 0 then Inr (ENOMEM, memptr, g) else Inr (0, p, g)))"

definition my_valloc :: "env \<Rightarrow> thread \<Rightarrow> u64 \<Rightarrow> gstate \<Rightarrow> (addr \<times> gstate) result" where
  "my_valloc e t sz g = my_memalign e t (os_page_size e) sz g"

definition my_malloc_usable_size :: "addr \<Rightarrow> gstate \<Rightarrow> (u64 \<times> gstate) result" where
  "my_malloc_usable_size p g =
     (if p = 0 then Inr (0, g)
      else (case (if ptr_to_segment g p \<noteq> 0 then ptr_to_page g p else None) of
          Some pp \<Rightarrow> bindR (deref_page g pp) (\<lambda>pg. Inr (ucast (pm_slot_size pg), g))
        | None \<Rightarrow> large_usable_size p g))"

end
