(* ===== verification/Zone_Ops.thy ===== *)
theory Zone_Ops
  imports Malloc_Api
begin

unbundle bit_operations_syntax

text \<open>
  The macOS malloc zone (\<open>src/zone.c\<close>): the callbacks, the two tables of function pointers that are handed to the system,
  registration, and the interposed symbols. The system's list of zones belongs to libmalloc: it is a parameter.
\<close>

section \<open>Forwarding callbacks\<close>

definition zone_size :: "addr \<Rightarrow> gstate \<Rightarrow> (u64 \<times> gstate) result" where
  "zone_size p g = my_malloc_usable_size p g"

definition zone_malloc :: "env \<Rightarrow> thread \<Rightarrow> u64 \<Rightarrow> gstate \<Rightarrow> (addr \<times> gstate) result" where
  "zone_malloc e t sz g = my_malloc e t sz g"

definition zone_calloc :: "env \<Rightarrow> thread \<Rightarrow> u64 \<Rightarrow> u64 \<Rightarrow> gstate \<Rightarrow> (addr \<times> gstate) result" where
  "zone_calloc e t count sz g = my_calloc e t count sz g"

definition zone_valloc :: "env \<Rightarrow> thread \<Rightarrow> u64 \<Rightarrow> gstate \<Rightarrow> (addr \<times> gstate) result" where
  "zone_valloc e t sz g = my_valloc e t sz g"

definition zone_free :: "env \<Rightarrow> thread \<Rightarrow> addr \<Rightarrow> gstate \<Rightarrow> gstate result" where
  "zone_free e t p g = my_free e t p g"

definition zone_realloc :: "env \<Rightarrow> thread \<Rightarrow> addr \<Rightarrow> u64 \<Rightarrow> gstate \<Rightarrow> (addr \<times> gstate) result" where
  "zone_realloc e t p sz g = my_realloc e t p sz g"

definition zone_memalign :: "env \<Rightarrow> thread \<Rightarrow> u64 \<Rightarrow> u64 \<Rightarrow> gstate \<Rightarrow> (addr \<times> gstate) result" where
  "zone_memalign e t alignment sz g = my_memalign e t alignment sz g"

definition zone_free_definite_size :: "env \<Rightarrow> thread \<Rightarrow> addr \<Rightarrow> u64 \<Rightarrow> gstate \<Rightarrow> gstate result" where
  "zone_free_definite_size e t p sz g = my_free e t p g"

section \<open>Sizes, batches and ownership\<close>

definition zone_good_size :: "env \<Rightarrow> gstate \<Rightarrow> u64 \<Rightarrow> u64" where
  "zone_good_size e g sz =
     (let sz = (if sz = 0 then 1 else sz)
      in if sz > MEDIUM_MAX then (sz + os_page_size e - 1) AND NOT (os_page_size e - 1)
         else bin_to_size g (size_to_bin g sz))"

text \<open>The entries of \<open>results\<close> written by the loop (the last one may be NULL), and \<open>count\<close>.\<close>

fun zone_batch_malloc :: "env \<Rightarrow> thread \<Rightarrow> u64 \<Rightarrow> nat \<Rightarrow> gstate \<Rightarrow> (addr list \<times> nat \<times> gstate) result" where
  "zone_batch_malloc e t sz 0 g = Inr ([], 0, g)"
| "zone_batch_malloc e t sz (Suc n) g =
     bindR (my_malloc e t sz g) (\<lambda>(p, g).
     if p = 0 then Inr ([0], 0, g)
     else bindR (zone_batch_malloc e t sz n g) (\<lambda>(ps, count, g). Inr (p # ps, Suc count, g)))"

fun zone_batch_free :: "env \<Rightarrow> thread \<Rightarrow> addr list \<Rightarrow> gstate \<Rightarrow> (addr list \<times> gstate) result" where
  "zone_batch_free e t [] g = Inr ([], g)"
| "zone_batch_free e t (p # ps) g =
     bindR (my_free e t p g) (\<lambda>g.
     bindR (zone_batch_free e t ps g) (\<lambda>(qs, g). Inr (0 # qs, g)))"

definition zone_claimed_address :: "env \<Rightarrow> addr \<Rightarrow> gstate \<Rightarrow> (bool \<times> gstate) result" where
  "zone_claimed_address e p g =
     (if p = 0 then Inr (False, g)
      else if in_bootstrap e p then Inr (True, g)
      else if ptr_to_segment g p \<noteq> 0 then Inr (True, g)
      else bindR (large_find p g) (\<lambda>(la, g). Inr (la \<noteq> 0, g)))"

section \<open>Memory pressure\<close>

fun relieve_pages :: "env \<Rightarrow> page_meta list \<Rightarrow> u64 \<Rightarrow> gstate \<Rightarrow> u64 \<times> gstate" where
  "relieve_pages e [] released g = (released, g)"
| "relieve_pages e (pg # pgs) released g =
     (if pm_state pg = PAGE_ACTIVE \<and> page_is_empty pg then
        relieve_pages e pgs (released + PAGE_SIZE_ALLOC) (os_madvise_free e (page_start pg) PAGE_SIZE_ALLOC g)
      else relieve_pages e pgs released g)"

partial_function (option) relieve_segs :: "env \<Rightarrow> addr \<Rightarrow> u64 \<Rightarrow> gstate \<Rightarrow> (u64 \<times> gstate) result option" where
  "relieve_segs e seg released g =
     (if seg = 0 then Some (Inr (released, g))
      else (case h_segs g seg of None \<Rightarrow> Some (Inl (Bad_deref seg))
        | Some sg \<Rightarrow> (case relieve_pages e (drop PAGES_DATA_START (sg_pages sg)) released g of (released, g) \<Rightarrow>
            relieve_segs e (sg_next sg) released g)))"

declare relieve_segs.simps [code]

fun relieve_arenas :: "env \<Rightarrow> nat list \<Rightarrow> u64 \<Rightarrow> gstate \<Rightarrow> (u64 \<times> gstate) result" where
  "relieve_arenas e [] released g = Inr (released, g)"
| "relieve_arenas e (a # as) released g =
     bindR (lock_arena a g) (\<lambda>g.
     bindR (ends (relieve_segs e (ar_segments (g_arenas g ! a)) released g)) (\<lambda>(released, g).
     relieve_arenas e as released (unlock_arena a g)))"

definition zone_pressure_relief :: "env \<Rightarrow> gstate \<Rightarrow> (u64 \<times> gstate) result" where
  "zone_pressure_relief e g = relieve_arenas e [0..<nat (sint (g_arena_count g))] 0 g"

section \<open>Statistics\<close>

record zone_stats =
  zs_blocks_in_use :: u32
  zs_size_in_use :: u64
  zs_max_size_in_use :: u64
  zs_size_allocated :: u64

definition monus :: "u64 \<Rightarrow> u64 \<Rightarrow> u64" where
  "monus a b = (if a > b then a - b else 0)"

definition zone_statistics :: "gstate \<Rightarrow> zone_stats \<times> gstate" where
  "zone_statistics g =
     (let arenas = take (nat (sint (g_arena_count g))) (g_arenas g);
          blocks = sum_list (map (\<lambda>a. monus (ar_alloc_count a) (ar_free_count a)) arenas) + g_large_alloc_count g;
          bytes = sum_list (map (\<lambda>a. monus (ar_allocated a) (ar_freed a)) arenas) + g_large_allocated g;
          prev_peak = g_peak_in_use g;
          g = (if bytes > prev_peak then g\<lparr>g_peak_in_use := bytes\<rparr> else g)
      in (\<lparr>zs_blocks_in_use = ucast blocks, zs_size_in_use = bytes,
           zs_max_size_in_use = (if bytes > prev_peak then bytes else prev_peak),
           zs_size_allocated = g_mmap_bytes g\<rparr>, g))"

section \<open>Locking around fork\<close>

fun lock_arenas :: "nat list \<Rightarrow> gstate \<Rightarrow> gstate result" where
  "lock_arenas [] g = Inr g"
| "lock_arenas (a # as) g = bindR (lock_arena a g) (lock_arenas as)"

definition zone_force_lock :: "gstate \<Rightarrow> gstate result" where
  "zone_force_lock g = bindR (lock_arenas [0..<nat (sint (g_arena_count g))] g) lock_large"

definition zone_force_unlock :: "gstate \<Rightarrow> gstate" where
  "zone_force_unlock g =
     (let g = unlock_large g in fold unlock_arena [0..<nat (sint (g_arena_count g))] g)"

definition zone_locked :: "gstate \<Rightarrow> bool" where
  "zone_locked g = False"

section \<open>Callbacks that do nothing\<close>

definition KERN_SUCCESS :: int where "KERN_SUCCESS = 0"

definition zone_destroy :: "gstate \<Rightarrow> gstate" where
  "zone_destroy g = g"

definition zone_enumerator :: "gstate \<Rightarrow> int \<times> gstate" where
  "zone_enumerator g = (KERN_SUCCESS, g)"

definition zone_log :: "addr \<Rightarrow> gstate \<Rightarrow> gstate" where
  "zone_log p g = g"

section \<open>The tables\<close>

text \<open>A NULL entry of a table is \<open>None\<close>.\<close>

record malloc_introspection_t =
  in_enumerator :: "gstate \<Rightarrow> int \<times> gstate"
  in_good_size :: "env \<Rightarrow> gstate \<Rightarrow> u64 \<Rightarrow> u64"
  in_check :: "(gstate \<Rightarrow> bool) option"
  in_print :: "(gstate \<Rightarrow> gstate) option"
  in_log :: "addr \<Rightarrow> gstate \<Rightarrow> gstate"
  in_force_lock :: "gstate \<Rightarrow> gstate result"
  in_force_unlock :: "gstate \<Rightarrow> gstate"
  in_statistics :: "gstate \<Rightarrow> zone_stats \<times> gstate"
  in_zone_locked :: "gstate \<Rightarrow> bool"

record malloc_zone_t =
  mz_size :: "addr \<Rightarrow> gstate \<Rightarrow> (u64 \<times> gstate) result"
  mz_malloc :: "env \<Rightarrow> thread \<Rightarrow> u64 \<Rightarrow> gstate \<Rightarrow> (addr \<times> gstate) result"
  mz_calloc :: "env \<Rightarrow> thread \<Rightarrow> u64 \<Rightarrow> u64 \<Rightarrow> gstate \<Rightarrow> (addr \<times> gstate) result"
  mz_valloc :: "env \<Rightarrow> thread \<Rightarrow> u64 \<Rightarrow> gstate \<Rightarrow> (addr \<times> gstate) result"
  mz_free :: "env \<Rightarrow> thread \<Rightarrow> addr \<Rightarrow> gstate \<Rightarrow> gstate result"
  mz_realloc :: "env \<Rightarrow> thread \<Rightarrow> addr \<Rightarrow> u64 \<Rightarrow> gstate \<Rightarrow> (addr \<times> gstate) result"
  mz_destroy :: "gstate \<Rightarrow> gstate"
  mz_zone_name :: string
  mz_batch_malloc :: "env \<Rightarrow> thread \<Rightarrow> u64 \<Rightarrow> nat \<Rightarrow> gstate \<Rightarrow> (addr list \<times> nat \<times> gstate) result"
  mz_batch_free :: "env \<Rightarrow> thread \<Rightarrow> addr list \<Rightarrow> gstate \<Rightarrow> (addr list \<times> gstate) result"
  mz_introspect :: malloc_introspection_t
  mz_version :: nat
  mz_memalign :: "env \<Rightarrow> thread \<Rightarrow> u64 \<Rightarrow> u64 \<Rightarrow> gstate \<Rightarrow> (addr \<times> gstate) result"
  mz_free_definite_size :: "env \<Rightarrow> thread \<Rightarrow> addr \<Rightarrow> u64 \<Rightarrow> gstate \<Rightarrow> gstate result"
  mz_pressure_relief :: "env \<Rightarrow> gstate \<Rightarrow> (u64 \<times> gstate) result"
  mz_claimed_address :: "env \<Rightarrow> addr \<Rightarrow> gstate \<Rightarrow> (bool \<times> gstate) result"

definition zone_introspection :: malloc_introspection_t where
  "zone_introspection = \<lparr>in_enumerator = zone_enumerator, in_good_size = zone_good_size, in_check = None, in_print = None,
     in_log = zone_log, in_force_lock = zone_force_lock, in_force_unlock = zone_force_unlock,
     in_statistics = zone_statistics, in_zone_locked = zone_locked\<rparr>"

definition custom_zone :: malloc_zone_t where
  "custom_zone = \<lparr>mz_size = zone_size, mz_malloc = zone_malloc, mz_calloc = zone_calloc, mz_valloc = zone_valloc,
     mz_free = zone_free, mz_realloc = zone_realloc, mz_destroy = zone_destroy, mz_zone_name = ''custom_malloc'',
     mz_batch_malloc = zone_batch_malloc, mz_batch_free = zone_batch_free, mz_introspect = zone_introspection,
     mz_version = 12, mz_memalign = zone_memalign, mz_free_definite_size = zone_free_definite_size,
     mz_pressure_relief = zone_pressure_relief, mz_claimed_address = zone_claimed_address\<rparr>"

text \<open>
  The branch for a foreign default zone has an empty body. \<open>malloc_zone_register\<close> of libmalloc acts on a list of zones that only
  it can see.
\<close>

definition zone_register :: "(malloc_zone_t \<Rightarrow> 'z \<Rightarrow> 'z) \<Rightarrow> 'z \<Rightarrow> gstate \<Rightarrow> ('z \<times> gstate) result" where
  "zone_register malloc_zone_register zones g =
     bindR (malloc_ensure_init g) (\<lambda>g. Inr (malloc_zone_register custom_zone zones, g))"

definition zone_init_constructor :: "(malloc_zone_t \<Rightarrow> 'z \<Rightarrow> 'z) \<Rightarrow> 'z \<Rightarrow> gstate \<Rightarrow> ('z \<times> gstate) result" where
  "zone_init_constructor malloc_zone_register zones g = zone_register malloc_zone_register zones g"

section \<open>Interposed symbols\<close>

definition c_malloc :: "env \<Rightarrow> thread \<Rightarrow> u64 \<Rightarrow> gstate \<Rightarrow> (addr \<times> gstate) result" where
  "c_malloc e t sz g = my_malloc e t sz g"

definition c_free :: "env \<Rightarrow> thread \<Rightarrow> addr \<Rightarrow> gstate \<Rightarrow> gstate result" where
  "c_free e t p g = my_free e t p g"

definition c_calloc :: "env \<Rightarrow> thread \<Rightarrow> u64 \<Rightarrow> u64 \<Rightarrow> gstate \<Rightarrow> (addr \<times> gstate) result" where
  "c_calloc e t count sz g = my_calloc e t count sz g"

definition c_realloc :: "env \<Rightarrow> thread \<Rightarrow> addr \<Rightarrow> u64 \<Rightarrow> gstate \<Rightarrow> (addr \<times> gstate) result" where
  "c_realloc e t p sz g = my_realloc e t p sz g"

definition c_valloc :: "env \<Rightarrow> thread \<Rightarrow> u64 \<Rightarrow> gstate \<Rightarrow> (addr \<times> gstate) result" where
  "c_valloc e t sz g = my_valloc e t sz g"

definition c_posix_memalign :: "env \<Rightarrow> thread \<Rightarrow> addr \<Rightarrow> u64 \<Rightarrow> u64 \<Rightarrow> gstate \<Rightarrow> (int \<times> addr \<times> gstate) result" where
  "c_posix_memalign e t memptr alignment sz g = my_posix_memalign e t memptr alignment sz g"

definition c_malloc_usable_size :: "addr \<Rightarrow> gstate \<Rightarrow> (u64 \<times> gstate) result" where
  "c_malloc_usable_size p g = my_malloc_usable_size p g"

definition c_malloc_size :: "addr \<Rightarrow> gstate \<Rightarrow> (u64 \<times> gstate) result" where
  "c_malloc_size p g = my_malloc_usable_size p g"

definition c_malloc_good_size :: "env \<Rightarrow> gstate \<Rightarrow> u64 \<Rightarrow> u64" where
  "c_malloc_good_size e g sz = zone_good_size e g sz"

end
