(* ===== verification/Page_Inv.thy ===== *)
theory Page_Inv
  imports Debug_Check
begin

unbundle bit_operations_syntax

text \<open>
  The full invariant of a page in use: the free lists and counters of \<open>Page_Slots\<close>, zeros in the part
  never handed out, and in debug mode a bitmap that is set exactly at the allocated slots; and that
  the steps of the slab allocator on a page keep it.
\<close>

section \<open>The debug bitmap\<close>

definition slot_bit :: "page_meta \<Rightarrow> nat \<Rightarrow> bool" where
  "slot_bit pg i \<longleftrightarrow> bit (pm_debug_bitmap pg ! (i div 8)) (i mod 8)"

definition dbg_ok :: "env \<Rightarrow> mem \<Rightarrow> page_meta \<Rightarrow> bool" where
  "dbg_ok e m pg \<longleftrightarrow> (malloc_debug e \<longrightarrow> length (pm_debug_bitmap pg) = 512 \<and>
     (\<forall>i < unat (pm_capacity pg). slot_bit pg i \<longleftrightarrow> slot_addr pg i \<in> page_live m pg) \<and>
     (\<forall>i < 4096. unat (pm_capacity pg) \<le> i \<longrightarrow> \<not> slot_bit pg i))"

lemma and_bit_0: "(w :: u8) AND push_bit k 1 = 0 \<longleftrightarrow> \<not> bit w k" if "k < 8"
proof
  assume "w AND push_bit k 1 = 0"
  then have "\<not> bit (w AND push_bit k 1) k" by simp
  then show "\<not> bit w k" using that by (simp add: bit_simps)
next
  assume "\<not> bit w k"
  then show "w AND push_bit k 1 = 0" by (intro bit_word_eqI) (auto simp: bit_simps)
qed

lemma debug_slot_index_slot:
  assumes "page_geom pg" "i < unat (pm_capacity pg)"
  shows "debug_slot_index pg (slot_addr pg i) = Inr (of_nat i)" "(of_nat i :: u16) \<noteq> UINT16_MAX"
    "unat (of_nat i :: u16) = i"
proof -
  let ?s = "unat (pm_slot_size pg)"
  note g = page_geomD [OF assms(1)] and c = capacity_bounds [OF assms(1)] and u = unat_slot_addr [OF assms]
  have i: "i < 4096" using assms(2) c(1) by simp
  then show ui: "unat (of_nat i :: u16) = i" by (intro unat_of_nat_small) simp
  then show "(of_nat i :: u16) \<noteq> UINT16_MAX" using i by (auto simp: config_simps)
  have off: "slot_addr pg i - page_start pg = of_nat (i * ?s)" by (simp add: slot_addr_def)
  have uo: "unat (of_nat (i * ?s) :: u64) = i * ?s" using u(2) by (intro unat_of_nat_small) simp
  have us: "unat (ucast (pm_slot_size pg) :: u64) = ?s" by (simp add: unat_ucast_up)
  have "\<not> slot_addr pg i < page_start pg"
    using u(1) unat_page_start [OF assms(1)] by (simp add: word_less_nat_alt)
  moreover have "pm_slot_size pg \<noteq> 0" using g(1) by auto
  moreover have "(of_nat (i * ?s) :: u64) mod ucast (pm_slot_size pg) = 0"
    by (simp add: word_unat_eq_iff unat_mod uo us del: of_nat_mult)
  moreover have d: "unat ((of_nat (i * ?s) :: u64) div ucast (pm_slot_size pg)) = i"
    using g(1) by (simp add: unat_div uo us del: of_nat_mult)
  then have "(ucast ((of_nat (i * ?s) :: u64) div ucast (pm_slot_size pg)) :: u16) = of_nat i"
    using i ui by (simp add: word_unat_eq_iff unsigned_ucast_eq take_bit_nat_eq_self del: of_nat_mult)
  moreover have "(of_nat i :: u16) < pm_capacity pg" using assms(2) ui by (simp add: word_less_nat_alt)
  ultimately show "debug_slot_index pg (slot_addr pg i) = Inr (of_nat i)"
    by (simp add: debug_slot_index_def off del: of_nat_mult)
qed

lemma slot_bit_update:
  assumes "i < 4096" "j < 4096" "length (pm_debug_bitmap pg) = 512"
  shows "slot_bit (pg\<lparr>pm_debug_bitmap := (pm_debug_bitmap pg)[i div 8 := v]\<rparr>) j =
    (if j div 8 = i div 8 then bit v (j mod 8) else slot_bit pg j)"
proof -
  have "i div 8 < 512" using assms(1) by linarith
  then show ?thesis using assms(3) by (simp add: slot_bit_def nth_list_update)
qed

lemma div_mod_8: "j div 8 = i div 8 \<Longrightarrow> j mod 8 = i mod 8 \<Longrightarrow> j = (i :: nat)"
  by (metis div_mult_mod_eq)

lemma debug_mark_allocated_ok:
  assumes "page_geom pg" "i < unat (pm_capacity pg)" "length (pm_debug_bitmap pg) = 512" "\<not> slot_bit pg i"
  shows "\<exists>bm. debug_mark_allocated pg (slot_addr pg i) = Inr (pg\<lparr>pm_debug_bitmap := bm\<rparr>) \<and> length bm = 512 \<and>
    (\<forall>j < 4096. slot_bit (pg\<lparr>pm_debug_bitmap := bm\<rparr>) j \<longleftrightarrow> j = i \<or> slot_bit pg j)"
proof -
  note d = debug_slot_index_slot [OF assms(1,2)]
  have i: "i < 4096" using assms(2) capacity_bounds(1) [OF assms(1)] by simp
  let ?old = "pm_debug_bitmap pg ! (i div 8)" and ?msk = "push_bit (i mod 8) 1 :: u8"
  have "?old AND ?msk = 0" using assms(4) and_bit_0 [of "i mod 8" ?old] by (simp add: slot_bit_def)
  then have "debug_mark_allocated pg (slot_addr pg i) =
      Inr (pg\<lparr>pm_debug_bitmap := (pm_debug_bitmap pg)[i div 8 := ?old OR ?msk]\<rparr>)"
    using d by (simp add: debug_mark_allocated_def Let_def)
  moreover have "slot_bit (pg\<lparr>pm_debug_bitmap := (pm_debug_bitmap pg)[i div 8 := ?old OR ?msk]\<rparr>) j \<longleftrightarrow>
      j = i \<or> slot_bit pg j" if "j < 4096" for j
    using slot_bit_update [OF i that assms(3)] div_mod_8 [of j i]
    by (auto simp: bit_simps slot_bit_def)
  ultimately show ?thesis using assms(3) by auto
qed

lemma debug_mark_freed_ok:
  assumes "page_geom pg" "i < unat (pm_capacity pg)" "length (pm_debug_bitmap pg) = 512" "slot_bit pg i"
  shows "\<exists>bm. debug_check_and_mark_freed pg (slot_addr pg i) = Inr (pg\<lparr>pm_debug_bitmap := bm\<rparr>) \<and> length bm = 512 \<and>
    (\<forall>j < 4096. slot_bit (pg\<lparr>pm_debug_bitmap := bm\<rparr>) j \<longleftrightarrow> j \<noteq> i \<and> slot_bit pg j)"
proof -
  note d = debug_slot_index_slot [OF assms(1,2)]
  have i: "i < 4096" using assms(2) capacity_bounds(1) [OF assms(1)] by simp
  let ?old = "pm_debug_bitmap pg ! (i div 8)" and ?msk = "push_bit (i mod 8) 1 :: u8"
  have "?old AND ?msk \<noteq> 0" using assms(4) and_bit_0 [of "i mod 8" ?old] by (simp add: slot_bit_def)
  then have "debug_check_and_mark_freed pg (slot_addr pg i) =
      Inr (pg\<lparr>pm_debug_bitmap := (pm_debug_bitmap pg)[i div 8 := ?old AND NOT ?msk]\<rparr>)"
    using d by (simp add: debug_check_and_mark_freed_def Let_def)
  moreover have "slot_bit (pg\<lparr>pm_debug_bitmap := (pm_debug_bitmap pg)[i div 8 := ?old AND NOT ?msk]\<rparr>) j \<longleftrightarrow>
      j \<noteq> i \<and> slot_bit pg j" if "j < 4096" for j
    using slot_bit_update [OF i that assms(3)] div_mod_8 [of j i]
    by (auto simp: bit_simps slot_bit_def)
  ultimately show ?thesis using assms(3) by auto
qed

section \<open>The invariant\<close>

definition virgin :: "mem \<Rightarrow> page_meta \<Rightarrow> bool" where
  "virgin m pg \<longleftrightarrow> (\<forall>x. unat (page_start pg) + unat (pm_bump_offset pg) \<le> unat x \<longrightarrow>
     unat x < unat (page_start pg) + 65536 \<longrightarrow> m x = 0)"

text \<open>The slot size of a bin: its size rounded up to a multiple of 16.\<close>

definition bin_slot :: "u8 \<Rightarrow> nat" where
  "bin_slot bin = (max 16 (unat (bin_sizes ! unat bin)) + 15) div 16 * 16"

definition bin_small :: "u8 \<Rightarrow> bool" where
  "bin_small bin \<longleftrightarrow> unat bin < 75 \<and> unat (bin_sizes ! unat bin) \<le> 32768"

definition page_inv :: "env \<Rightarrow> mem \<Rightarrow> page_meta \<Rightarrow> bool" where
  "page_inv e m pg \<longleftrightarrow> page_ok m pg \<and> dbg_ok e m pg \<and> virgin m pg \<and>
     bin_small (pm_bin_idx pg) \<and> unat (pm_slot_size pg) = bin_slot (pm_bin_idx pg)"

lemma page_invD:
  assumes "page_inv e m pg"
  shows "page_ok m pg" "dbg_ok e m pg" "virgin m pg" "bin_small (pm_bin_idx pg)"
    "unat (pm_slot_size pg) = bin_slot (pm_bin_idx pg)" "page_geom pg"
  using assms by (auto simp: page_inv_def page_ok_def)

text \<open>Everything but the bookkeeping of slots is the same.\<close>

definition same_id :: "page_meta \<Rightarrow> page_meta \<Rightarrow> bool" where
  "same_id pg pg' \<longleftrightarrow> same_shape (pg\<lparr>pm_debug_bitmap := pm_debug_bitmap pg'\<rparr>) pg'"

lemma same_idD:
  assumes "same_id pg pg'"
  shows "pm_segment pg' = pm_segment pg" "pm_page_index pg' = pm_page_index pg"
    "pm_slot_size pg' = pm_slot_size pg" "pm_capacity pg' = pm_capacity pg"
    "pm_bump_end pg' = pm_bump_end pg" "pm_arena pg' = pm_arena pg" "pm_bin_idx pg' = pm_bin_idx pg"
    "pm_state pg' = pm_state pg" "pm_owner_tid pg' = pm_owner_tid pg" "pm_next pg' = pm_next pg"
    "pm_prev pg' = pm_prev pg" "page_start pg' = page_start pg" "slot_addr pg' = slot_addr pg" "all_slots pg' = all_slots pg"
  using same_shapeD [OF assms [unfolded same_id_def]]
  by (simp_all add: page_start_def slot_addr_def all_slots_def fun_eq_iff)

lemma same_id_refl [simp]: "same_id pg pg"
  by (simp add: same_id_def)

lemma same_id_trans: "same_id a b \<Longrightarrow> same_id b c \<Longrightarrow> same_id a c"
  by (cases a; cases b; cases c) (simp add: same_id_def same_shape_def)

lemma same_shape_id: "same_shape pg pg' \<Longrightarrow> same_id pg pg'"
  by (cases pg; cases pg') (simp add: same_id_def same_shape_def)

lemma same_id_bitmap: "same_id pg (pg\<lparr>pm_debug_bitmap := bm\<rparr>)"
  by (cases pg) (simp add: same_id_def same_shape_def)

lemma bitmap_irrelevant [simp]:
  "page_start (pg\<lparr>pm_debug_bitmap := bm\<rparr>) = page_start pg" "slot_addr (pg\<lparr>pm_debug_bitmap := bm\<rparr>) = slot_addr pg"
  "bump_count (pg\<lparr>pm_debug_bitmap := bm\<rparr>) = bump_count pg" "page_geom (pg\<lparr>pm_debug_bitmap := bm\<rparr>) = page_geom pg"
  "page_free m (pg\<lparr>pm_debug_bitmap := bm\<rparr>) = page_free m pg" "page_live m (pg\<lparr>pm_debug_bitmap := bm\<rparr>) = page_live m pg"
  "page_ok m (pg\<lparr>pm_debug_bitmap := bm\<rparr>) = page_ok m pg" "virgin m (pg\<lparr>pm_debug_bitmap := bm\<rparr>) = virgin m pg"
  by (simp_all add: page_start_def slot_addr_def fun_eq_iff bump_count_def page_geom_def page_free_def page_live_def
      page_ok_def page_lists_def virgin_def)

lemma live_slot:
  assumes "page_ok m pg" "p \<in> page_live m pg"
  shows "p \<in> all_slots pg" "unat p + unat (pm_slot_size pg) \<le> unat (page_start pg) + unat (pm_bump_offset pg)"
proof -
  have g: "page_geom pg" using assms(1) by (simp add: page_ok_def)
  show "p \<in> all_slots pg" using assms page_live_slots by blast
  obtain i where i: "p = slot_addr pg i" "i < bump_count pg" using assms(2) by (auto simp: page_live_def)
  have "Suc i * unat (pm_slot_size pg) \<le> bump_count pg * unat (pm_slot_size pg)" using i(2) by (intro mult_le_mono1) simp
  then show "unat p + unat (pm_slot_size pg) \<le> unat (page_start pg) + unat (pm_bump_offset pg)"
    using unat_slot_addr(1) [OF g, of i] i bump_count_le [OF g] unat_page_start [OF g] page_geomD(6) [OF g] by simp
qed

text \<open>A page only depends on the bytes of its own 64 KB.\<close>

lemma load64_bytes:
  assumes "\<And>x. unat a \<le> unat x \<Longrightarrow> unat x < unat a + 8 \<Longrightarrow> m' x = m x" "unat a + 8 \<le> 2 ^ 64"
  shows "load64 m' a = load64 m a"
proof (rule load64_cong)
  fix i :: nat assume "i < 8"
  then have "unat (of_nat i :: addr) = i" by (intro unat_of_nat_small) simp
  then have "unat (a + of_nat i) = unat a + i" using assms(2) \<open>i < 8\<close> by (subst unat_add_small) auto
  then show "m' (a + of_nat i) = m (a + of_nat i)" using assms(1) [of "a + of_nat i"] \<open>i < 8\<close> by simp
qed

lemma page_inv_cong:
  assumes "page_inv e m pg" "\<And>x. unat x \<in> span (page_start pg) 65536 \<Longrightarrow> m' x = m x"
  shows "page_inv e m' pg" "page_live m' pg = page_live m pg"
proof -
  note I = page_invD [OF assms(1)]
  have "load64 m' x = load64 m x" if x: "x \<in> page_free m pg" for x
  proof -
    have s: "x \<in> all_slots pg" using page_free_slots [OF I(1)] x by blast
    note f = all_slots_facts(2,5) [OF I(6) s]
    have "16 \<le> unat (pm_slot_size pg)" by (rule page_geomD(1) [OF I(6)])
    then show ?thesis using f assms(2) by (intro load64_bytes) (auto simp: span_def subset_iff)
  qed
  note c = page_ok_cong [OF I(1) this]
  then show "page_live m' pg = page_live m pg" by simp
  have "virgin m' pg" using I(3) assms(2) by (auto simp: virgin_def)
  then show "page_inv e m' pg" using c I by (simp add: page_inv_def dbg_ok_def)
qed

section \<open>Steps on a page\<close>

definition debug_marked :: "env \<Rightarrow> page_meta \<Rightarrow> addr \<Rightarrow> page_meta result" where
  "debug_marked e pg p = (if malloc_debug e then debug_mark_allocated pg p else Inr pg)"

definition debug_cleared :: "env \<Rightarrow> page_meta \<Rightarrow> addr \<Rightarrow> page_meta result" where
  "debug_cleared e pg p = (if malloc_debug e then debug_check_and_mark_freed pg p else Inr pg)"

text \<open>Taking a slot: the slot must be a free one, the page is well-formed with it live.\<close>

lemma take_inv:
  assumes I: "page_inv e m pg" and ok: "page_ok m pg1" and p: "p \<in> all_slots pg" "p \<notin> page_live m pg"
    and live: "page_live m pg1 = insert p (page_live m pg)" and sh: "same_shape pg pg1"
    and bump: "pm_bump_offset pg \<le> pm_bump_offset pg1"
  shows "\<exists>pg'. debug_marked e pg1 p = Inr pg' \<and> page_inv e m pg' \<and> page_live m pg' = insert p (page_live m pg) \<and>
    same_id pg pg'"
proof -
  note D = page_invD [OF I] and S = same_idD [OF same_shape_id [OF sh]]
  have g1: "page_geom pg1" using ok by (simp add: page_ok_def)
  have v: "virgin m pg1" using D(3) S(12) bump by (auto simp: virgin_def word_le_nat_alt)
  obtain i where i: "p = slot_addr pg i" "i < unat (pm_capacity pg)" using p(1) by (auto simp: all_slots_def)
  have inj: "slot_addr pg j = p \<longleftrightarrow> j = i" if "j < unat (pm_capacity pg)" for j
    using slot_addr_inj [OF D(6) that i(2)] i(1) by auto
  show ?thesis
  proof (cases "malloc_debug e")
    case False
    then have "page_inv e m pg1" using ok v D(4,5) S by (simp add: page_inv_def dbg_ok_def)
    then show ?thesis using False live same_shape_id [OF sh] by (simp add: debug_marked_def)
  next
    case True
    have bm: "pm_debug_bitmap pg1 = pm_debug_bitmap pg" by (rule same_shapeD(12) [OF sh])
    then have b: "length (pm_debug_bitmap pg1) = 512" "\<And>j. slot_bit pg1 j = slot_bit pg j"
      "\<And>j. j < unat (pm_capacity pg) \<Longrightarrow> slot_bit pg j \<longleftrightarrow> slot_addr pg j \<in> page_live m pg"
      "\<And>j. j < 4096 \<Longrightarrow> unat (pm_capacity pg) \<le> j \<Longrightarrow> \<not> slot_bit pg j"
      using D(2) True by (auto simp: dbg_ok_def slot_bit_def)
    have "\<not> slot_bit pg1 i" "i < unat (pm_capacity pg1)" using b i p(2) S by auto
    from debug_mark_allocated_ok [OF g1 this(2) b(1) this(1)]
    obtain bm' where m: "debug_mark_allocated pg1 p = Inr (pg1\<lparr>pm_debug_bitmap := bm'\<rparr>)" "length bm' = 512"
      "\<And>j. j < 4096 \<Longrightarrow> slot_bit (pg1\<lparr>pm_debug_bitmap := bm'\<rparr>) j \<longleftrightarrow> j = i \<or> slot_bit pg j"
      using i(1) S(13) b(2) by auto
    define pg' where "pg' = pg1\<lparr>pm_debug_bitmap := bm'\<rparr>"
    have "slot_bit pg' j \<longleftrightarrow> slot_addr pg' j \<in> page_live m pg'" if "j < unat (pm_capacity pg)" for j
      using m(3) [of j] that capacity_bounds(1) [OF D(6)] b(3) inj live S(13) by (auto simp: pg'_def)
    moreover have "\<not> slot_bit pg' j" if "j < 4096" "unat (pm_capacity pg) \<le> j" for j
      using m(3) [OF that(1)] that b(4) i(2) by (auto simp: pg'_def)
    ultimately have "dbg_ok e m pg'" using m(2) S(4) by (simp add: dbg_ok_def pg'_def)
    then have "page_inv e m pg'" using ok v D(4,5) S by (simp add: page_inv_def pg'_def)
    moreover have "same_id pg pg'"
      unfolding pg'_def by (rule same_id_trans [OF same_shape_id [OF sh] same_id_bitmap])
    ultimately show ?thesis using True m(1) live by (simp add: debug_marked_def pg'_def)
  qed
qed

lemma pop_inv:
  assumes I: "page_inv e m pg" and nz: "pm_local_free pg \<noteq> 0"
  shows "\<exists>pg'. debug_marked e (snd (page_pop_local m pg)) (fst (page_pop_local m pg)) = Inr pg' \<and> page_inv e m pg' \<and>
    page_live m pg' = insert (fst (page_pop_local m pg)) (page_live m pg) \<and> same_id pg pg' \<and>
    fst (page_pop_local m pg) \<in> all_slots pg - page_live m pg"
proof -
  obtain L R where l: "page_geom pg" "page_lists m pg L R" using page_invD(1) [OF I] by (rule page_okE)
  note s = pop_local_live [OF l nz prod.collapse [symmetric]]
  have "pm_bump_offset (snd (page_pop_local m pg)) = pm_bump_offset pg" by (simp add: page_pop_local_def)
  then show ?thesis using take_inv [OF I s(1-3,5,6)] s(2,3) by auto
qed

lemma bump_inv:
  assumes I: "page_inv e m pg" and lt: "pm_bump_offset pg < pm_bump_end pg"
  shows "\<exists>pg'. debug_marked e (snd (page_bump pg)) (fst (page_bump pg)) = Inr pg' \<and> page_inv e m pg' \<and>
    page_live m pg' = insert (fst (page_bump pg)) (page_live m pg) \<and> same_id pg pg' \<and>
    fst (page_bump pg) \<in> all_slots pg - page_live m pg \<and>
    (\<forall>x. unat x \<in> span (fst (page_bump pg)) (unat (pm_slot_size pg)) \<longrightarrow> m x = 0)"
proof -
  obtain L R where l: "page_geom pg" "page_lists m pg L R" using page_invD(1) [OF I] by (rule page_okE)
  note s = bump_live [OF l lt prod.collapse [symmetric]] and o = bump_ok [OF l lt prod.collapse [symmetric]]
  have p: "fst (page_bump pg) = slot_addr pg (bump_count pg)" "bump_count pg < unat (pm_capacity pg)" using o by auto
  have g1: "page_geom (snd (page_bump pg))" and bc: "bump_count (snd (page_bump pg)) = Suc (bump_count pg)" using o by auto
  have ss: "pm_slot_size (snd (page_bump pg)) = pm_slot_size pg" by (simp add: page_bump_def)
  have "unat (pm_bump_offset pg) \<le> unat (pm_bump_offset (snd (page_bump pg)))"
    using page_geomD(6) [OF l(1)] page_geomD(6) [OF g1] bc ss by simp
  then have le: "pm_bump_offset pg \<le> pm_bump_offset (snd (page_bump pg))" by (simp add: word_le_nat_alt)
  have u: "unat (fst (page_bump pg)) = unat (page_start pg) + unat (pm_bump_offset pg)"
    using unat_slot_addr(1) [OF l(1) p(2)] p(1) unat_page_start [OF l(1)] page_geomD(6) [OF l(1)] by simp
  have "unat (page_start pg) + unat (pm_bump_offset pg) + unat (pm_slot_size pg) \<le> unat (page_start pg) + 65536"
    using unat_slot_addr(2) [OF l(1) p(2)] page_geomD(6) [OF l(1)] by simp
  then have "m x = 0" if "unat x \<in> span (fst (page_bump pg)) (unat (pm_slot_size pg))" for x
    using that u page_invD(3) [OF I, unfolded virgin_def, rule_format, of x] unfolding span_iff by linarith
  then show ?thesis using take_inv [OF I s(1-3,5,6) le] s(2,3) by auto
qed

text \<open>Collecting the remote frees.\<close>

lemma writes_links_out:
  assumes "page_ok m pg" "writes_links m m' A" "A \<subseteq> slot_addr pg ` {..<bump_count pg}"
    "unat (page_start pg) + unat (pm_bump_offset pg) \<le> unat x \<or> unat x < unat (page_start pg)"
  shows "m' x = m x"
proof (rule ccontr)
  assume "m' x \<noteq> m x"
  then obtain a where a: "a \<in> A" "x - a < 8" using assms(2) by (auto simp: writes_links_def)
  have g: "page_geom pg" using assms(1) by (simp add: page_ok_def)
  obtain i where i: "a = slot_addr pg i" "i < bump_count pg" using a(1) assms(3) by auto
  then have ic: "i < unat (pm_capacity pg)" using bump_count_le [OF g] by simp
  have "Suc i * unat (pm_slot_size pg) \<le> bump_count pg * unat (pm_slot_size pg)" using i(2) by (intro mult_le_mono1) simp
  then have e: "unat a + 8 \<le> unat (page_start pg) + unat (pm_bump_offset pg)" "unat (page_start pg) \<le> unat a"
    using unat_slot_addr(1) [OF g ic] i(1) unat_page_start [OF g] page_geomD(1,6) [OF g] by simp_all
  have u: "unat (x - a) < 8" using a(2) by (simp add: word_less_nat_alt)
  have "unat a < 2 ^ 48" using slot_addr_facts(2) [OF g ic] i(1) by simp
  then have "unat x = unat a + unat (x - a)" using u unat_add_small [of a "x - a"] by simp
  then show False using e u assms(4) by linarith
qed

lemma writes_links_virgin:
  assumes "page_ok m pg" "writes_links m m' A" "A \<subseteq> slot_addr pg ` {..<bump_count pg}" "virgin m pg"
  shows "virgin m' pg"
  unfolding virgin_def using writes_links_out [OF assms(1-3)] assms(4) by (auto simp: virgin_def)

lemma page_free_bumped:
  assumes "page_ok m pg"
  shows "page_free m pg \<subseteq> slot_addr pg ` {..<bump_count pg}"
proof -
  obtain L R where l: "page_lists m pg L R" using assms by (rule page_okE)
  then show ?thesis unfolding page_free_lists [OF l] by (simp add: page_lists_def)
qed

lemma collect_inv:
  assumes "page_inv e m pg"
  shows "\<exists>m' pg'. page_collect_remote m pg = Some (m', pg') \<and> page_inv e m' pg' \<and> page_live m' pg' = page_live m pg \<and>
    same_id pg pg' \<and> writes_links m m' (page_free m pg) \<and> pm_bump_offset pg' = pm_bump_offset pg \<and>
    (pm_local_free pg' = 0 \<longrightarrow> page_free m pg = {})"
proof -
  note D = page_invD [OF assms]
  obtain m' pg' where c: "page_collect_remote m pg = Some (m', pg')" "page_ok m' pg'" "page_live m' pg' = page_live m pg"
      "same_shape pg pg'" "pm_bump_offset pg' = pm_bump_offset pg" "writes_links m m' (page_free m pg)"
      "pm_local_free pg' = 0 \<longrightarrow> page_free m pg = {}"
    using collect_live [OF D(1)] by blast
  note S = same_idD [OF same_shape_id [OF c(4)]]
  have "virgin m' pg" by (rule writes_links_virgin [OF D(1) c(6) page_free_bumped [OF D(1)] D(3)])
  then have v: "virgin m' pg'" using S(12) c(5) by (simp add: virgin_def)
  have "dbg_ok e m' pg'" using D(2) S c(3) same_shapeD(12) [OF c(4)] by (simp add: dbg_ok_def slot_bit_def)
  then have "page_inv e m' pg'" using c(2) v D(4,5) S by (simp add: page_inv_def)
  then show ?thesis using c same_shape_id by blast
qed

text \<open>Freeing a live slot, after the debug check has cleared its bit.\<close>

lemma clear_ok:
  assumes I: "page_inv e m pg" and p: "p \<in> page_live m pg"
  shows "\<exists>bm. debug_cleared e pg p = Inr (pg\<lparr>pm_debug_bitmap := bm\<rparr>) \<and>
    (malloc_debug e \<longrightarrow> length bm = 512 \<and> (\<forall>j < unat (pm_capacity pg).
       slot_bit (pg\<lparr>pm_debug_bitmap := bm\<rparr>) j \<longleftrightarrow> slot_addr pg j \<in> page_live m pg - {p}) \<and>
       (\<forall>j < 4096. unat (pm_capacity pg) \<le> j \<longrightarrow> \<not> slot_bit (pg\<lparr>pm_debug_bitmap := bm\<rparr>) j))"
proof (cases "malloc_debug e")
  case False
  then show ?thesis by (auto simp: debug_cleared_def intro!: exI [of _ "pm_debug_bitmap pg"])
next
  case True
  note D = page_invD [OF I]
  obtain i where i: "p = slot_addr pg i" "i < unat (pm_capacity pg)"
    using live_slot(1) [OF D(1) p] by (auto simp: all_slots_def)
  have b: "length (pm_debug_bitmap pg) = 512"
    "\<And>j. j < unat (pm_capacity pg) \<Longrightarrow> slot_bit pg j \<longleftrightarrow> slot_addr pg j \<in> page_live m pg"
    "\<And>j. j < 4096 \<Longrightarrow> unat (pm_capacity pg) \<le> j \<Longrightarrow> \<not> slot_bit pg j"
    using D(2) True by (auto simp: dbg_ok_def)
  have "slot_bit pg i" using b(2) [OF i(2)] i(1) p by simp
  from debug_mark_freed_ok [OF D(6) i(2) b(1) this]
  obtain bm where m: "debug_check_and_mark_freed pg p = Inr (pg\<lparr>pm_debug_bitmap := bm\<rparr>)" "length bm = 512"
    "\<And>j. j < 4096 \<Longrightarrow> slot_bit (pg\<lparr>pm_debug_bitmap := bm\<rparr>) j \<longleftrightarrow> j \<noteq> i \<and> slot_bit pg j" using i(1) by auto
  have "slot_bit (pg\<lparr>pm_debug_bitmap := bm\<rparr>) j \<longleftrightarrow> slot_addr pg j \<in> page_live m pg - {p}" if "j < unat (pm_capacity pg)" for j
    using m(3) [of j] that capacity_bounds(1) [OF D(6)] b(2) [OF that] slot_addr_inj [OF D(6) that i(2)] i(1) by auto
  then show ?thesis using True m b(3) by (auto simp: debug_cleared_def)
qed

lemma free_inv:
  assumes I: "page_inv e m pg" and p: "p \<in> page_live m pg" and c: "debug_cleared e pg p = Inr pg1"
    and f: "page_free_slot_local p m pg1 = (m', pg') \<or> page_free_slot_remote p m pg1 = (m', pg')"
  shows "page_inv e m' pg'" "page_live m' pg' = page_live m pg - {p}" "same_id pg pg'" "writes_links m m' {p}"
proof -
  note D = page_invD [OF I]
  obtain bm where bm: "pg1 = pg\<lparr>pm_debug_bitmap := bm\<rparr>" "malloc_debug e \<Longrightarrow> length bm = 512"
    "\<And>j. malloc_debug e \<Longrightarrow> j < unat (pm_capacity pg) \<Longrightarrow>
       slot_bit pg1 j \<longleftrightarrow> slot_addr pg j \<in> page_live m pg - {p}"
    "\<And>j. malloc_debug e \<Longrightarrow> j < 4096 \<Longrightarrow> unat (pm_capacity pg) \<le> j \<Longrightarrow> \<not> slot_bit pg1 j"
    using clear_ok [OF I p] c by auto
  have ok1: "page_ok m pg1" "p \<in> page_live m pg1" "page_live m pg1 = page_live m pg" "bump_count pg1 = bump_count pg"
    "slot_addr pg1 = slot_addr pg" using D(1) p bm(1) by auto
  have F: "page_ok m' pg'" "page_live m' pg' = page_live m pg1 - {p}" "same_shape pg1 pg'" "writes_links m m' {p}"
    using f free_local_ok [OF ok1(1,2), of m' pg'] free_remote_ok [OF ok1(1,2), of m' pg'] by (elim disjE; simp)+
  have id: "same_id pg pg'"
    using same_id_trans [OF same_id_bitmap same_shape_id] F(3) bm(1) by blast
  note S = same_idD [OF id]
  have off: "pm_bump_offset pg' = pm_bump_offset pg"
    using f bm(1) by (auto simp: page_free_slot_local_def page_free_slot_remote_def split: prod.splits)
  have "p \<in> slot_addr pg ` {..<bump_count pg}" using p by (auto simp: page_live_def)
  then have "virgin m' pg" using writes_links_virgin [OF D(1) F(4)] D(3) by blast
  then have v: "virgin m' pg'" using S(12) off by (simp add: virgin_def)
  have "pm_debug_bitmap pg' = pm_debug_bitmap pg1" by (rule same_shapeD(12) [OF F(3)])
  then have "dbg_ok e m' pg'"
    using bm F(2) ok1(3) S by (auto simp: dbg_ok_def slot_bit_def)
  then show "page_inv e m' pg'" using F(1) v D(4,5) S by (simp add: page_inv_def)
  show "page_live m' pg' = page_live m pg - {p}" using F(2) ok1(3) by simp
  show "same_id pg pg'" by (rule id)
  show "writes_links m m' {p}" by (rule F(4))
qed

text \<open>A fresh page of zeros.\<close>

lemma page_init_inv:
  assumes g: "tables_ok g" and bin: "bin_small bin"
    and seg: "seg \<noteq> 0" "unat seg mod 4194304 = 0" "unat seg + 4194304 \<le> 2 ^ 48" "1 \<le> unat idx" "unat idx < 64"
    and pg: "pg = page_init e seg ar idx bin (ucast (bin_to_size g bin)) pg0"
    and zero: "\<And>x. unat x \<in> span (page_start pg) 65536 \<Longrightarrow> m x = 0"
  shows "page_inv e m pg" "page_live m pg = {}" "pm_bump_offset pg < pm_bump_end pg"
proof -
  have b: "unat bin < 75" "unat (bin_sizes ! unat bin) \<le> 32768" using bin by (auto simp: bin_small_def)
  have "unat (ucast (bin_to_size g bin) :: u32) = unat (bin_sizes ! unat bin)"
    using bin_to_size_nat [OF g b(1)] b(2) by (simp add: unsigned_ucast_eq take_bit_nat_eq_self)
  then have s: "unat (ucast (bin_to_size g bin) :: u32) \<le> 32768" "unat (pm_slot_size pg) = bin_slot bin"
    using b(2) page_init_slot_size [of "ucast (bin_to_size g bin)"] by (auto simp: pg bin_slot_def)
  note ok = page_init_ok [OF s(1) seg, of m e ar bin pg0, folded pg]
  show "page_live m pg = {}" by (rule ok(2))
  have f: "pm_bump_offset pg = 0" "pm_bin_idx pg = bin"
    "malloc_debug e \<Longrightarrow> pm_debug_bitmap pg = replicate 512 0"
    by (simp_all add: pg page_init_def Let_def config_simps)
  have geom: "page_geom pg" using ok(1) by (simp add: page_ok_def)
  have "virgin m pg" using zero f(1) by (simp add: virgin_def)
  moreover have "\<not> slot_bit pg i" if "malloc_debug e" "i < 4096" for i
    using f(3) that by (simp add: slot_bit_def)
  then have "dbg_ok e m pg"
    using capacity_bounds(1) [OF geom] f(3) ok(2) by (auto simp: dbg_ok_def)
  ultimately show "page_inv e m pg" using ok(1) f(2) bin s(2) by (simp add: page_inv_def)
  have "0 < unat (pm_bump_end pg)" using page_geomD(1,5) [OF geom] capacity_bounds(2) [OF geom] by simp
  then show "pm_bump_offset pg < pm_bump_end pg" using f(1) by (simp add: word_less_nat_alt)
qed

end
