(* ===== verification/Large_Correct.thy ===== *)
theory Large_Correct
  imports Large_Ops
begin

unbundle bit_operations_syntax

text \<open>
  Correctness of the large-block allocator: the invariant of its list, what a search finds, and
  what an allocation and a free do to the blocks, the mappings and the counters.
\<close>

section \<open>The invariant\<close>

definition large_ok :: "gstate \<Rightarrow> bool" where
  "large_ok g \<longleftrightarrow>
     (\<exists>xs. dll (large_head g) (large_nxt g) (large_prv g) (large_node g) xs \<and> set xs = dom (h_larges g)) \<and>
     (\<forall>b l. h_larges g b = Some l \<longrightarrow>
        la_base l = b \<and> b \<noteq> 0 \<and> 0 < unat (la_size l) \<and> unat b + unat (la_size l) \<le> 2 ^ 48 \<and>
        unat (la_user_size l) \<le> unat (la_size l))"

lemma large_okD:
  assumes "large_ok g" "h_larges g b = Some l"
  shows "la_base l = b" "b \<noteq> 0" "0 < unat (la_size l)" "unat b + unat (la_size l) \<le> 2 ^ 48"
    "unat (la_user_size l) \<le> unat (la_size l)"
  using assms unfolding large_ok_def by blast+

lemma large_fields_cong:
  assumes "h_larges g' = h_larges g" "g_large_list g' = g_large_list g"
  shows "large_head g' = large_head g" "large_nxt g' = large_nxt g" "large_prv g' = large_prv g"
    "large_node g' = large_node g"
  using assms by (auto simp: large_list_defs fun_eq_iff)

lemma large_ok_cong:
  "h_larges g' = h_larges g \<Longrightarrow> g_large_list g' = g_large_list g \<Longrightarrow> large_ok g' = large_ok g"
  by (simp add: large_ok_def large_fields_cong [of g' g])

text \<open>Linking and unlinking change only the links.\<close>

definition la_core :: "large_alloc_t \<Rightarrow> addr \<times> u64 \<times> u64" where
  "la_core l = (la_base l, la_size l, la_user_size l)"

definition same_cores :: "gstate \<Rightarrow> gstate \<Rightarrow> bool" where
  "same_cores g g' \<longleftrightarrow>
     g' = g\<lparr>h_larges := h_larges g', g_large_list := g_large_list g'\<rparr> \<and>
     (\<forall>b. map_option la_core (h_larges g' b) = map_option la_core (h_larges g b))"

lemma same_cores_refl [simp]: "same_cores g g"
  by (simp add: same_cores_def)

lemma same_cores_trans: "same_cores a b \<Longrightarrow> same_cores b c \<Longrightarrow> same_cores a c"
  by (cases a; cases b; cases c) (simp add: same_cores_def)

lemma write_large_cores1:
  "write_large p f g = Inr g' \<Longrightarrow> (\<And>l. la_core (f l) = la_core l) \<Longrightarrow> same_cores g g'"
  by (auto simp: write_large_def upd_large_def same_cores_def option.map_comp comp_def split: if_splits)

lemma write_large_cores:
  "(if c then write_large p f g else Inr g) = Inr g' \<Longrightarrow> (\<And>l. la_core (f l) = la_core l) \<Longrightarrow> same_cores g g'"
  by (cases c) (auto dest: write_large_cores1)

lemma large_link_cores:
  assumes "large_link la g = Inr g'"
  shows "same_cores g g'"
proof -
  obtain g1 g2 where 1: "write_large la (\<lambda>l. l\<lparr>la_next := g_large_list g, la_prev := 0\<rparr>) g = Inr g1"
    and 2: "(if g_large_list g1 \<noteq> 0 then write_large (g_large_list g1) (\<lambda>l. l\<lparr>la_prev := la\<rparr>) g1 else Inr g1) = Inr g2"
    and 3: "g' = g2\<lparr>g_large_list := la\<rparr>"
    using assms unfolding large_link_def bindR_eq_Inr sum.inject by blast
  have "same_cores g g1" by (rule write_large_cores1 [OF 1]) (simp add: la_core_def)
  moreover have "same_cores g1 g2" by (rule write_large_cores [OF 2]) (simp add: la_core_def)
  moreover have "same_cores g2 g'" by (simp add: 3 same_cores_def)
  ultimately show ?thesis by (blast intro: same_cores_trans)
qed

lemma large_unlink_cores:
  assumes "large_unlink la g = Inr g'"
  shows "same_cores g g'"
proof -
  obtain l l1 l2 :: large_alloc_t and g1 g2
    where 1: "(if la_prev l \<noteq> 0 then write_large (la_prev l) (\<lambda>p. p\<lparr>la_next := la_next l\<rparr>) g else Inr g) = Inr g1"
    and 2: "(if la_next l1 \<noteq> 0 then write_large (la_next l1) (\<lambda>n. n\<lparr>la_prev := la_prev l1\<rparr>) g1 else Inr g1) = Inr g2"
    and 3: "(if g_large_list g2 = la then g2\<lparr>g_large_list := la_next l2\<rparr> else g2) = g'"
    using assms unfolding large_unlink_def bindR_eq_Inr sum.inject by blast
  have "same_cores g g1" by (rule write_large_cores [OF 1]) (simp add: la_core_def)
  moreover have "same_cores g1 g2" by (rule write_large_cores [OF 2]) (simp add: la_core_def)
  moreover have "same_cores g2 g'" unfolding 3 [symmetric] by (simp add: same_cores_def)
  ultimately show ?thesis by (blast intro: same_cores_trans)
qed

lemma same_cores_Some:
  assumes "same_cores g g'" "h_larges g' b = Some l'"
  shows "\<exists>l. h_larges g b = Some l \<and> la_base l = la_base l' \<and> la_size l = la_size l' \<and> la_user_size l = la_user_size l'"
proof -
  have "map_option la_core (h_larges g' b) = map_option la_core (h_larges g b)" using assms(1) by (simp add: same_cores_def)
  then show ?thesis using assms(2) by (cases "h_larges g b") (auto simp: la_core_def)
qed

lemma same_cores_dom: "same_cores g g' \<Longrightarrow> dom (h_larges g') = dom (h_larges g)"
  unfolding same_cores_def dom_def by (metis option.map_disc_iff)

lemma same_cores_frame:
  assumes "same_cores g g'"
  shows "h_segs g' = h_segs g" "h_mem g' = h_mem g" "h_log g' = h_log g" "t_tld g' = t_tld g"
    "g_large_lock g' = g_large_lock g" "g_large_allocated g' = g_large_allocated g"
    "g_large_alloc_count g' = g_large_alloc_count g" "g_mmap_bytes g' = g_mmap_bytes g"
  by (subst conjunct1 [OF assms [unfolded same_cores_def]], simp)+

lemma same_cores_region:
  assumes "same_cores g g'"
  shows "region e g' = region e g"
proof
  fix x
  show "region e g' x = region e g x"
  proof (cases x)
    case (Large b)
    have "map_option la_core (h_larges g' b) = map_option la_core (h_larges g b)" using assms by (simp add: same_cores_def)
    then show ?thesis using Large by (auto simp: la_core_def split: option.splits)
  qed (simp_all add: same_cores_frame [OF assms])
qed

section \<open>Searching\<close>

definition contains :: "gstate \<Rightarrow> addr \<Rightarrow> addr \<Rightarrow> bool" where
  "contains g p b \<longleftrightarrow> (\<exists>l. h_larges g b = Some l \<and> la_base l \<le> p \<and> p < la_base l + la_size l)"

lemma large_search_dseg:
  assumes "dseg (large_nxt g) prv q (ptr_opt la) xs" "\<forall>x\<in>set xs. large_node g x"
  shows "large_search g p la = Some (Inr (case find (contains g p) xs of None \<Rightarrow> 0 | Some b \<Rightarrow> b))"
  using assms
proof (induction xs arbitrary: q la)
  case Nil
  then show ?case by (simp add: large_search.simps [of g p 0])
next
  case (Cons x xs)
  then obtain l where l: "la = x" "x \<noteq> 0" "h_larges g x = Some l" by (auto simp: large_node_def)
  then have "dseg (large_nxt g) prv (Some x) (ptr_opt (la_next l)) xs"
    using Cons.prems by (simp add: large_nxt_def [of g x])
  then have "large_search g p (la_next l) = Some (Inr (case find (contains g p) xs of None \<Rightarrow> 0 | Some b \<Rightarrow> b))"
    using Cons.IH Cons.prems by simp
  then show ?case using l by (simp add: large_search.simps [of g p x] contains_def [of g p x])
qed

lemma contains_region:
  assumes "large_ok g"
  shows "contains g p b \<longleftrightarrow> unat p \<in> region e g (Large b)"
proof (cases "h_larges g b")
  case (Some l)
  note l = large_okD [OF assms Some]
  have "unat (b + la_size l) = unat b + unat (la_size l)" using l(4) by (intro unat_add_small) simp
  then show ?thesis using Some l(1) by (auto simp: contains_def word_le_nat_alt word_less_nat_alt)
qed (simp add: contains_def)

lemma large_search_ok:
  assumes "large_ok g"
  shows "\<exists>la. large_search g p (g_large_list g) = Some (Inr la) \<and>
    (if la = 0 then \<forall>b. unat p \<notin> region e g (Large b)
     else unat p \<in> region e g (Large la) \<and> (\<exists>l. h_larges g la = Some l))"
proof -
  obtain xs where xs: "dll (large_head g) (large_nxt g) (large_prv g) (large_node g) xs" "set xs = dom (h_larges g)"
    using assms by (auto simp: large_ok_def)
  then have s: "large_search g p (g_large_list g) = Some (Inr (case find (contains g p) xs of None \<Rightarrow> 0 | Some b \<Rightarrow> b))"
    by (intro large_search_dseg [where q = None and prv = "large_prv g"]) (auto simp: dll_def large_head_def)
  show ?thesis
  proof (cases "find (contains g p) xs")
    case None
    then have "\<not> contains g p b" for b using xs(2) by (auto simp: find_None_iff contains_def)
    then show ?thesis using s None contains_region [OF assms] by auto
  next
    case (Some b)
    then have b: "contains g p b" by (auto simp: find_Some_iff)
    then have "b \<noteq> 0" using large_okD(2) [OF assms] by (auto simp: contains_def)
    moreover have "\<exists>l. h_larges g b = Some l" using b by (auto simp: contains_def)
    moreover have "unat p \<in> region e g (Large b)" using b contains_region [OF assms] by blast
    ultimately show ?thesis using s Some by (intro exI [of _ b]) simp
  qed
qed

lemma large_ok_link:
  assumes "large_ok g" "h_larges g b = None" "b \<noteq> 0" "0 < unat n" "unat b + unat n \<le> 2 ^ 48" "unat u \<le> unat n"
    "g1 = g\<lparr>h_larges := (h_larges g)(b := Some \<lparr>la_base = b, la_size = n, la_user_size = u, la_next = 0, la_prev = 0\<rparr>)\<rparr>"
  shows "\<exists>g2. large_link b g1 = Inr g2 \<and> large_ok g2 \<and> same_cores g1 g2"
proof -
  obtain xs where xs: "dll (large_head g) (large_nxt g) (large_prv g) (large_node g) xs" "set xs = dom (h_larges g)"
    using assms(1) by (auto simp: large_ok_def)
  have b: "b \<notin> set xs" using xs(2) assms(2) by auto
  have "dll (large_head g) (large_nxt g1) (large_prv g1) (large_node g1) xs"
    using b by (intro dll_cong [OF xs(1)]) (use xs(2) large_okD(2) [OF assms(1)] in \<open>auto simp: large_list_defs assms(7)\<close>)
  then have d: "dll (large_head g1) (large_nxt g1) (large_prv g1) (large_node g1) xs"
    by (simp add: assms(7) large_head_def)
  have "large_node g1 b" using assms(3,7) by (simp add: large_node_def)
  then obtain g2 where g2: "large_link b g1 = Inr g2" "dll (large_head g2) (large_nxt g2) (large_prv g2) (large_node g2) (b # xs)"
    using large_list.ins_dll [OF d _ b] by blast
  note c = large_link_cores [OF g2(1)]
  have "set (b # xs) = dom (h_larges g2)" using same_cores_dom [OF c] xs(2) assms(7) by simp
  moreover have "la_base l = c \<and> c \<noteq> 0 \<and> 0 < unat (la_size l) \<and> unat c + unat (la_size l) \<le> 2 ^ 48 \<and>
      unat (la_user_size l) \<le> unat (la_size l)" if at: "h_larges g2 c = Some l" for c l
  proof -
    obtain l' where l': "h_larges g1 c = Some l'" "la_base l' = la_base l" "la_size l' = la_size l"
        "la_user_size l' = la_user_size l" using same_cores_Some [OF c at] by blast
    show ?thesis
    proof (cases "c = b")
      case True
      then show ?thesis using l' assms(3-7) by auto
    next
      case False
      then have "h_larges g c = Some l'" using l'(1) assms(7) by simp
      then show ?thesis using large_okD [OF assms(1)] l' by metis
    qed
  qed
  ultimately have "large_ok g2" unfolding large_ok_def using g2(2) by blast
  then show ?thesis using g2(1) c by blast
qed

section \<open>Allocating\<close>

text \<open>
  \<open>large_added e g b p sz g'\<close>: a block for \<open>sz\<close> bytes at \<open>p\<close> has been added in a mapping at \<open>b\<close>.
\<close>

definition large_frame :: "gstate \<Rightarrow> gstate \<Rightarrow> bool" where
  "large_frame g g' \<longleftrightarrow> g' = g\<lparr>h_mem := h_mem g', h_log := h_log g', g_mmap_bytes := g_mmap_bytes g',
     h_larges := h_larges g', g_large_list := g_large_list g', g_large_allocated := g_large_allocated g',
     g_large_alloc_count := g_large_alloc_count g'\<rparr>"

definition large_added :: "env \<Rightarrow> gstate \<Rightarrow> addr \<Rightarrow> addr \<Rightarrow> u64 \<Rightarrow> gstate \<Rightarrow> bool" where
  "large_added e g b p sz g' \<longleftrightarrow>
     h_larges g b = None \<and>
     (\<exists>l. h_larges g' b = Some l \<and> la_user_size l = sz \<and> unat b + 48 \<le> unat p \<and>
        unat p + unat sz \<le> unat b + unat (la_size l) \<and>
        fresh_range e g b (unat (la_size l)) g' \<and>
        region e g' = (region e g)(Large b := span b (unat (la_size l)))) \<and>
     (\<forall>c. c \<noteq> b \<longrightarrow> map_option la_core (h_larges g' c) = map_option la_core (h_larges g c)) \<and>
     large_frame g g' \<and> g_large_allocated g' = g_large_allocated g + sz \<and>
     g_large_alloc_count g' = g_large_alloc_count g + 1 \<and>
     (\<forall>l. h_larges g' b = Some l \<longrightarrow> g_mmap_bytes g' = g_mmap_bytes g + la_size l)"

lemma LARGE_HEADER_SIZE_48: "LARGE_HEADER_SIZE = 48"
  by (simp add: LARGE_HEADER_SIZE_def config_simps)

lemma align_up_bounds:
  assumes "k < 64" "unat x + 2 ^ k \<le> 2 ^ 64"
  shows "unat x \<le> unat (align_up x (2 ^ k))" "unat (align_up x (2 ^ k)) < unat x + 2 ^ k"
    "unat (align_up x (2 ^ k)) mod 2 ^ k = 0"
proof -
  have u: "unat (align_up x (2 ^ k)) = unat x + 2 ^ k - 1 - (unat x + 2 ^ k - 1) mod 2 ^ k"
    by (rule unat_align_up [OF assms(1)]) (use assms(2) in simp)
  show "unat x \<le> unat (align_up x (2 ^ k))" "unat (align_up x (2 ^ k)) mod 2 ^ k = 0"
    using trim_range(1,3) [OF _ u] by auto
  have "(0::nat) < 2 ^ k" by simp
  then show "unat (align_up x (2 ^ k)) < unat x + 2 ^ k" unfolding u by linarith
qed

lemma large_total:
  assumes "4 \<le> k" "k < 63" "12 \<le> j" "j \<le> 16" "unat sz + 2 * 2 ^ k + 200000 \<le> 2 ^ 64"
  defines "hs \<equiv> align_up 48 (2 ^ k)"
  defines "tot \<equiv> align_up (hs + sz) (2 ^ j)"
  shows "48 \<le> unat hs" "unat hs mod 2 ^ k = 0" "unat hs + unat sz \<le> unat tot"
    "unat tot + 2 ^ max j k \<le> 2 ^ 64" "tot \<noteq> 0"
proof -
  have j2: "(2::nat) ^ j \<le> 65536" using power_increasing [of j 16 "2::nat"] assms(4) by simp
  have "(2::nat) ^ k \<le> 2 ^ 62" using power_increasing [of k 62 "2::nat"] assms(2) by simp
  then have h: "48 \<le> unat hs" "unat hs < 48 + 2 ^ k" "unat hs mod 2 ^ k = 0"
    using align_up_bounds [of k 48] assms(2) unfolding hs_def by auto
  then have s: "unat (hs + sz) = unat hs + unat sz" using assms(5) by (intro unat_add_small) simp
  then have t: "unat (hs + sz) \<le> unat tot" "unat tot < unat (hs + sz) + 2 ^ j"
    using align_up_bounds [of j "hs + sz"] assms(4,5) h j2 unfolding tot_def by auto
  show "48 \<le> unat hs" "unat hs mod 2 ^ k = 0" "unat hs + unat sz \<le> unat tot" using h t s by auto
  then show "tot \<noteq> 0" by auto
  have "(2::nat) ^ max j k \<le> 65536 + 2 ^ k" using j2 by (auto simp: max_def)
  then show "unat tot + 2 ^ max j k \<le> 2 ^ 64" using t s h(2) assms(5) j2 by linarith
qed

lemma large_frameD:
  assumes "large_frame g g'"
  shows "h_segs g' = h_segs g" "t_tld g' = t_tld g" "g_arenas g' = g_arenas g" "g_registry g' = g_registry g"
    "g_bin_size g' = g_bin_size g" "g_size_to_bin_small g' = g_size_to_bin_small g"
    "g_large_lock g' = g_large_lock g" "g_initialized g' = g_initialized g" "g_arena_count g' = g_arena_count g"
    "t_thread_id_counter g' = t_thread_id_counter g" "g_arena_next g' = g_arena_next g" "t_errno g' = t_errno g"
  by (subst assms [unfolded large_frame_def], simp)+

text \<open>The part of \<open>large_alloc_aligned\<close> after the mapping has been made.\<close>

lemma large_install:
  assumes ok: "large_ok g" and lay: "layout_ok e (h_log g) (region e g)" and lock: "\<not> g_large_lock g"
    and f: "fresh_range e g b (unat n) g1" and m: "same_meta g g1" and n: "n \<noteq> 0" "unat sz \<le> unat n"
    and g2: "g2 = g1\<lparr>h_larges := (h_larges g1)(b := Some \<lparr>la_base = b, la_size = n, la_user_size = sz, la_next = 0, la_prev = 0\<rparr>)\<rparr>"
  shows "\<exists>g3 g4. lock_large g2 = Inr g3 \<and> large_link b g3 = Inr g4 \<and> large_ok g4 \<and>
    h_larges g b = None \<and> (\<exists>l. h_larges g4 b = Some l \<and> la_user_size l = sz \<and> la_size l = n) \<and>
    (\<forall>c. c \<noteq> b \<longrightarrow> map_option la_core (h_larges g4 c) = map_option la_core (h_larges g c)) \<and>
    region e g4 = (region e g)(Large b := span b (unat n)) \<and>
    g4 = g\<lparr>h_mem := h_mem g1, h_log := h_log g1, g_mmap_bytes := g_mmap_bytes g1, h_larges := h_larges g4,
           g_large_list := g_large_list g4, g_large_lock := True\<rparr>"
proof -
  have n0: "0 < unat n" using n(1) by (simp add: unat_gt_0)
  note fr = fresh_rangeD [OF f] and me = same_metaD [OF m]
  have none: "h_larges g b = None"
    using large_okD(3) [OF ok] by (intro fresh_not_large [OF lay f n0]) blast
  define g0 where "g0 = g1\<lparr>g_large_lock := True\<rparr>"
  define g3 where "g3 = g2\<lparr>g_large_lock := True\<rparr>"
  have l3: "lock_large g2 = Inr g3" using lock me by (simp add: lock_large_def g3_def g2)
  have ok0: "large_ok g0" using large_ok_cong [of g0 g] ok me by (simp add: g0_def)
  have g3': "g3 = g0\<lparr>h_larges := (h_larges g0)(b := Some \<lparr>la_base = b, la_size = n, la_user_size = sz, la_next = 0, la_prev = 0\<rparr>)\<rparr>"
    by (simp add: g3_def g2 g0_def)
  obtain g4 where g4: "large_link b g3 = Inr g4" "large_ok g4" "same_cores g3 g4"
    using large_ok_link [OF ok0 _ fr(1) n0 fr(2) n(2) g3'] none me by (auto simp: g0_def)
  have core: "map_option la_core (h_larges g4 c) = map_option la_core (h_larges g3 c)" for c
    using g4(3) by (simp add: same_cores_def)
  have h3: "h_larges g3 = (h_larges g)(b := Some \<lparr>la_base = b, la_size = n, la_user_size = sz, la_next = 0, la_prev = 0\<rparr>)"
    by (simp add: g3_def g2 me)
  have l4: "\<exists>l. h_larges g4 b = Some l \<and> la_user_size l = sz \<and> la_size l = n"
    using core [of b] h3 by (auto simp: la_core_def)
  have "region e g3 = (region e g)(Large b := span b (unat n))"
  proof
    fix x show "region e g3 x = ((region e g)(Large b := span b (unat n))) x"
      by (cases x) (auto simp: h3 g3_def g2 me split: option.splits)
  qed
  then have reg: "region e g4 = (region e g)(Large b := span b (unat n))" using same_cores_region [OF g4(3)] by simp
  have "g4 = g3\<lparr>h_larges := h_larges g4, g_large_list := g_large_list g4\<rparr>" using g4(3) by (simp add: same_cores_def)
  moreover have "g1 = g\<lparr>h_log := h_log g1, h_mem := h_mem g1, g_mmap_bytes := g_mmap_bytes g1\<rparr>"
    using m by (simp add: same_meta_def)
  ultimately have "g4 = g\<lparr>h_mem := h_mem g1, h_log := h_log g1, g_mmap_bytes := g_mmap_bytes g1, h_larges := h_larges g4,
           g_large_list := g_large_list g4, g_large_lock := True\<rparr>"
    unfolding g3_def g2 by (cases g; cases g1; cases g4) simp
  then show ?thesis using l3 g4 none l4 core h3 reg by auto
qed

lemma pow2_max: "(2 ^ j :: u64) > 2 ^ k \<longleftrightarrow> j > k" if "j < 64" "k < 64"
  using that by (simp add: word_less_nat_alt unat_pow2)

lemma large_alloc_aligned_ok:
  assumes e: "env_ok e" and ok: "large_ok g" and lay: "layout_ok e (h_log g) (region e g)"
    and lock: "\<not> g_large_lock g" and al: "is_pow2 al" and sz: "unat sz + 2 * unat al + 262144 \<le> 2 ^ 64"
  shows "\<exists>p g'. large_alloc_aligned e sz al g = Inr (p, g') \<and>
    (p = 0 \<and> g' = g \<or>
     (\<exists>b. large_added e g b p sz g' \<and> p \<noteq> 0 \<and> unat p mod unat al = 0 \<and> unat p mod 16 = 0 \<and> large_ok g' \<and>
        layout_ok e (h_log g') (region e g')))"
proof -
  obtain k0 where k0: "k0 < 64" "al = 2 ^ k0" using is_pow2D [OF al] by blast
  obtain j where j: "12 \<le> j" "j \<le> 16" "page_size e = 2 ^ j" using env_ok_page [OF e] by blast
  define k where "k = max 4 k0"
  have ual: "unat al = 2 ^ k0" using k0 by (simp add: unat_pow2)
  have "k0 \<noteq> 63" using sz ual by auto
  then have k: "4 \<le> k" "k < 63" using k0(1) by (auto simp: k_def)
  have al': "(if al < of_nat MIN_ALIGN then of_nat MIN_ALIGN else al) = 2 ^ k"
  proof (cases "k0 < 4")
    case True
    then have "(2::nat) ^ k0 < 2 ^ 4" by (intro power_strict_increasing) auto
    then show ?thesis using True ual by (simp add: k_def config_simps word_less_nat_alt max_def)
  next
    case False
    then have "(2::nat) ^ 4 \<le> 2 ^ k0" by (intro power_increasing) auto
    then show ?thesis using False k0(2) ual by (simp add: k_def config_simps word_less_nat_alt max_def)
  qed
  have sz': "unat sz + 2 * 2 ^ k + 200000 \<le> 2 ^ 64" using sz ual by (cases "k0 < 4") (auto simp: k_def max_def)
  define hs :: u64 where "hs = align_up 48 (2 ^ k)"
  define n where "n = align_up (hs + sz) (2 ^ j)"
  note T = large_total [OF k j(1,2) sz', folded hs_def, folded n_def]
  have mx: "(if page_size e > 2 ^ k then page_size e else 2 ^ k) = 2 ^ max j k"
    using j(2,3) k(2) pow2_max [of j k] by (auto simp: max_def)
  obtain b g1 where mm: "os_mmap_aligned e n (2 ^ max j k) g = (b, g1)" by fastforce
  have eq: "large_alloc_aligned e sz al g = (if b = 0 then Inr (0, g1) else
      let g = g1\<lparr>h_larges := (h_larges g1)(b := Some \<lparr>la_base = b, la_size = n, la_user_size = sz, la_next = 0, la_prev = 0\<rparr>)\<rparr>
      in bindR (lock_large g) (\<lambda>g. bindR (large_link b g) (\<lambda>g.
         let g = unlock_large g; g = g\<lparr>g_large_allocated := g_large_allocated g + sz, g_large_alloc_count := g_large_alloc_count g + 1\<rparr>
         in Inr (b + hs, g))))"
    unfolding large_alloc_aligned_def al' Let_def LARGE_HEADER_SIZE_48 os_page_size_def hs_def [symmetric] j(3)
      n_def [symmetric] mx [unfolded j(3)] mm by simp
  have "max j k < 64" using j k by simp
  from os_mmap_aligned_fresh [OF e this T(4) mm]
  consider "b = 0" "g1 = g" | "fresh_range e g b (unat n) g1" "unat b mod 2 ^ max j k = 0" by (elim disjE conjE) auto
  then show ?thesis
  proof cases
    case 1
    then show ?thesis using eq by simp
  next
    case 2
    note fr = fresh_rangeD [OF 2(1)]
    have m: "same_meta g g1" by (rule same_meta_os_mmap_aligned [OF mm])
    have szn: "unat sz \<le> unat n" using T(3) by simp
    from large_install [OF ok lay lock 2(1) m T(5) szn refl]
    obtain g3 g4 l where i: "lock_large (g1\<lparr>h_larges := (h_larges g1)(b := Some \<lparr>la_base = b, la_size = n, la_user_size = sz, la_next = 0, la_prev = 0\<rparr>)\<rparr>) = Inr g3"
      "large_link b g3 = Inr g4" "large_ok g4" "h_larges g b = None" "h_larges g4 b = Some l" "la_user_size l = sz" "la_size l = n"
      "\<And>c. c \<noteq> b \<Longrightarrow> map_option la_core (h_larges g4 c) = map_option la_core (h_larges g c)"
      "region e g4 = (region e g)(Large b := span b (unat n))"
      "g4 = g\<lparr>h_mem := h_mem g1, h_log := h_log g1, g_mmap_bytes := g_mmap_bytes g1, h_larges := h_larges g4,
           g_large_list := g_large_list g4, g_large_lock := True\<rparr>" by blast
    define g' where "g' = (unlock_large g4)\<lparr>g_large_allocated := g_large_allocated g4 + sz, g_large_alloc_count := g_large_alloc_count g4 + 1\<rparr>"
    have r: "large_alloc_aligned e sz al g = Inr (b + hs, g')"
      unfolding eq Let_def using fr(1) i(1,2) by (simp add: g'_def unlock_large_def)
    have g4s: "h_log g4 = h_log g1" "h_mem g4 = h_mem g1" "g_large_allocated g4 = g_large_allocated g"
      "g_large_alloc_count g4 = g_large_alloc_count g" "g_mmap_bytes g4 = g_mmap_bytes g1" by (subst i(10), simp)+
    have "g1 \<noteq> g" using fr(4,5) [of "unat b"] T(5) by (auto simp: unat_gt_0)
    then have by1: "g_mmap_bytes g1 = g_mmap_bytes g + n" using os_mmap_aligned_bytes [OF mm] by simp
    have frame: "large_frame g g'"
      unfolding large_frame_def g'_def unlock_large_def using i(10) lock by (cases g; cases g4) simp
    have up: "unat (b + hs) = unat b + unat hs" using fr(2) T(3) by (intro unat_add_small) simp
    have reg: "region e g' = region e g4"
    proof
      fix x show "region e g' x = region e g4 x" by (cases x) (simp_all add: g'_def unlock_large_def)
    qed
    have fr': "fresh_range e g b (unat n) g'"
      using 2(1) by (simp add: fresh_range_def g'_def unlock_large_def g4s)
    have "large_added e g b (b + hs) sz g'"
      unfolding large_added_def
    proof (intro conjI)
      show "\<exists>l. h_larges g' b = Some l \<and> la_user_size l = sz \<and> unat b + 48 \<le> unat (b + hs) \<and>
          unat (b + hs) + unat sz \<le> unat b + unat (la_size l) \<and> fresh_range e g b (unat (la_size l)) g' \<and>
          region e g' = (region e g)(Large b := span b (unat (la_size l)))"
        using i(5-7,9) T(1,3) up fr' reg by (intro exI [of _ l]) (simp add: g'_def unlock_large_def)
    qed (use i(4,5,7,8) frame g4s by1 in \<open>simp_all add: g'_def unlock_large_def\<close>)
    moreover have "large_ok g'" using large_ok_cong [of g' g4] i(3) by (simp add: g'_def unlock_large_def)
    moreover have "layout_ok e (h_log g') (region e g')"
      using layout_add [OF lay fr', of "Large b"] i(4) by (simp add: reg i(9))
    moreover have "2 ^ i dvd unat (b + hs)" if "i \<le> k" for i
    proof -
      have "2 ^ i dvd (2::nat) ^ k" "2 ^ i dvd (2::nat) ^ max j k" using that by (simp_all add: le_imp_power_dvd)
      then have "2 ^ i dvd unat b" "2 ^ i dvd unat hs" using 2(2) T(2) by (meson dvd_trans mod_0_imp_dvd)+
      then show ?thesis by (simp add: up)
    qed
    from this [of k0] this [of 4] have "unat (b + hs) mod unat al = 0" "unat (b + hs) mod 16 = 0"
      using k(1) by (simp_all add: k_def ual dvd_imp_mod_0)
    moreover have "b + hs \<noteq> 0" using up T(1) by auto
    ultimately show ?thesis
      using r by (intro exI [of _ "b + hs"] exI [of _ g'] conjI disjI2 exI [of _ b])
  qed
qed

section \<open>Freeing\<close>

definition large_removed :: "env \<Rightarrow> gstate \<Rightarrow> addr \<Rightarrow> gstate \<Rightarrow> bool" where
  "large_removed e g b g' \<longleftrightarrow>
     (\<exists>l. h_larges g b = Some l \<and> g_large_allocated g' = g_large_allocated g - la_user_size l \<and>
        (\<forall>a. mapped (h_log g') a \<longleftrightarrow> mapped (h_log g) a \<and> a \<notin> span b (unat (la_size l))) \<and>
        g_mmap_bytes g' = g_mmap_bytes g - la_size l) \<and>
     h_larges g' b = None \<and>
     (\<forall>c. c \<noteq> b \<longrightarrow> map_option la_core (h_larges g' c) = map_option la_core (h_larges g c)) \<and>
     region e g' = (region e g)(Large b := {}) \<and> h_mem g' = h_mem g \<and> large_frame g g' \<and>
     g_large_alloc_count g' = g_large_alloc_count g - 1"

lemma unlock_lock: "\<not> g_large_lock g \<Longrightarrow> unlock_large (g\<lparr>g_large_lock := True\<rparr>) = g"
  by (cases g) (simp add: unlock_large_def)

lemma region_lock [simp]: "region e (g\<lparr>g_large_lock := c\<rparr>) = region e g"
proof
  fix x show "region e (g\<lparr>g_large_lock := c\<rparr>) x = region e g x" by (cases x) simp_all
qed

lemma large_ok_lock [simp]: "large_ok (g\<lparr>g_large_lock := c\<rparr>) = large_ok g"
  by (rule large_ok_cong) simp_all

lemma large_find_ok:
  assumes "large_ok g" "\<not> g_large_lock g"
  shows "\<exists>la. large_find p g = Inr (la, g) \<and>
    (if la = 0 then \<forall>b. unat p \<notin> region e g (Large b)
     else unat p \<in> region e g (Large la) \<and> (\<exists>l. h_larges g la = Some l))"
  using large_search_ok [of "g\<lparr>g_large_lock := True\<rparr>" p e] assms unlock_lock [OF assms(2)]
  by (auto simp: large_find_def lock_large_def simp del: region.simps)

lemma large_free_unknown:
  assumes "large_ok g" "\<not> g_large_lock g" "\<And>b. unat p \<notin> region e g (Large b)"
  shows "large_free p g = Inr g"
  using large_search_ok [of "g\<lparr>g_large_lock := True\<rparr>" p e] assms unlock_lock [OF assms(2)]
  by (auto simp: large_free_def lock_large_def simp del: region.simps split: if_splits)

lemma large_ok_unlink:
  assumes "large_ok g" "h_larges g b = Some l"
  shows "\<exists>g2 l2. large_unlink b g = Inr g2 \<and> same_cores g g2 \<and> h_larges g2 b = Some l2 \<and> la_core l2 = la_core l \<and>
    (\<forall>g3. h_larges g3 = (h_larges g2)(b := None) \<longrightarrow> g_large_list g3 = g_large_list g2 \<longrightarrow> large_ok g3)"
proof -
  obtain xs where xs: "dll (large_head g) (large_nxt g) (large_prv g) (large_node g) xs" "set xs = dom (h_larges g)"
    using assms(1) by (auto simp: large_ok_def)
  have b: "b \<in> set xs" using xs(2) assms(2) by auto
  obtain g2 where g2: "large_unlink b g = Inr g2"
      "dll (large_head g2) (large_nxt g2) (large_prv g2) (large_node g2) (remove1 b xs)"
    using large_list.del_dll [OF xs(1) b] by blast
  note c = large_unlink_cores [OF g2(1)]
  obtain l2 where l2: "h_larges g2 b = Some l2" using same_cores_dom [OF c] assms(2) by blast
  have "map_option la_core (h_larges g2 b) = map_option la_core (h_larges g b)" using c by (simp add: same_cores_def)
  then have core: "la_core l2 = la_core l" using l2 assms(2) by simp
  have rem: "set (remove1 b xs) = dom (h_larges g) - {b}" using xs by (simp add: dll_def)
  have "large_ok g3" if "h_larges g3 = (h_larges g2)(b := None)" "g_large_list g3 = g_large_list g2" for g3
  proof -
    have hd: "large_head g3 = large_head g2" using that(2) by (simp add: large_head_def)
    have "dll (large_head g3) (large_nxt g3) (large_prv g3) (large_node g3) (remove1 b xs)"
      unfolding hd using rem g2(2)
      by (intro dll_cong [OF g2(2)]) (auto simp: large_list_defs that(1) dll_def)
    moreover have "set (remove1 b xs) = dom (h_larges g3)" using rem same_cores_dom [OF c] that(1) by auto
    moreover have "la_base k = d \<and> d \<noteq> 0 \<and> 0 < unat (la_size k) \<and> unat d + unat (la_size k) \<le> 2 ^ 48 \<and>
        unat (la_user_size k) \<le> unat (la_size k)" if at: "h_larges g3 d = Some k" for d k
    proof -
      have "h_larges g2 d = Some k" using at \<open>h_larges g3 = (h_larges g2)(b := None)\<close> by (auto split: if_splits)
      then obtain k' where "h_larges g d = Some k'" "la_base k' = la_base k" "la_size k' = la_size k" "la_user_size k' = la_user_size k"
        using same_cores_Some [OF c] by blast
      then show ?thesis using large_okD [OF assms(1)] by metis
    qed
    ultimately show ?thesis unfolding large_ok_def by blast
  qed
  then show ?thesis using g2(1) c l2 core by blast
qed

lemma large_free_ok:
  assumes ok: "large_ok g" and lay: "layout_ok e (h_log g) (region e g)" and lock: "\<not> g_large_lock g"
    and p: "unat p \<in> region e g (Large b)"
  shows "\<exists>g'. large_free p g = Inr g' \<and> large_removed e g b g' \<and> large_ok g' \<and> layout_ok e (h_log g') (region e g')"
proof -
  obtain l where l: "h_larges g b = Some l" using p by (auto split: option.splits)
  note L = large_okD [OF ok l]
  have p0: "p \<noteq> 0" using p L l by (auto simp: unat_eq_zero)
  define g1 where "g1 = g\<lparr>g_large_lock := True\<rparr>"
  have ok1: "large_ok g1" and reg1: "region e g1 = region e g" using ok by (simp_all add: g1_def)
  obtain la where la: "large_search g1 p (g_large_list g1) = Some (Inr la)" "la \<noteq> 0" "unat p \<in> region e g (Large la)"
    using large_search_ok [OF ok1, of p e] p unfolding reg1 by (metis (full_types))
  have lab: "la = b" using layout_disjoint [OF lay, of "Large la" "Large b"] p la(3) by blast
  have "h_larges g1 b = Some l" using l by (simp add: g1_def)
  from large_ok_unlink [OF ok1 this]
  obtain g2 l2 where u: "large_unlink b g1 = Inr g2" "same_cores g1 g2" "h_larges g2 b = Some l2" "la_core l2 = la_core l"
    "\<And>g3. h_larges g3 = (h_larges g2)(b := None) \<Longrightarrow> g_large_list g3 = g_large_list g2 \<Longrightarrow> large_ok g3" by blast
  have c: "la_base l2 = b" "la_size l2 = la_size l" "la_user_size l2 = la_user_size l" using u(4) L(1) by (auto simp: la_core_def)
  have sf: "g2 = g\<lparr>h_larges := h_larges g2, g_large_list := g_large_list g2, g_large_lock := True\<rparr>"
    using u(2) unfolding same_cores_def g1_def by (cases g; cases g2) simp
  define g' where "g' = g\<lparr>h_larges := (h_larges g2)(b := None), g_large_list := g_large_list g2,
      g_large_allocated := g_large_allocated g - la_user_size l, g_large_alloc_count := g_large_alloc_count g - 1,
      h_log := Munmap b (la_size l) # h_log g, g_mmap_bytes := g_mmap_bytes g - la_size l\<rparr>"
  have n0: "la_size l > 0" using L(3) by (simp add: word_less_nat_alt)
  have "large_free p g = bindR (large_unlink b g1) (\<lambda>g. bindR (deref_large g b) (\<lambda>l.
      let g = unlock_large g;
          g = g\<lparr>g_large_allocated := g_large_allocated g - la_user_size l, g_large_alloc_count := g_large_alloc_count g - 1\<rparr>;
          g = os_munmap (la_base l) (la_size l) g
      in Inr (g\<lparr>h_larges := (h_larges g)(b := None)\<rparr>)))"
    using p0 lock la(1,2) L(2) unfolding lab by (simp add: large_free_def lock_large_def g1_def [symmetric])
  also have "\<dots> = Inr g'"
    using u(1,3) c L(2) n0 sf lock
    by (cases g; cases g2) (auto simp: deref_large_def unlock_large_def os_munmap_def sys_munmap_def g'_def)
  finally have r: "large_free p g = Inr g'" .
  have core: "map_option la_core (h_larges g' d) = map_option la_core (h_larges g d)" if "d \<noteq> b" for d
    using u(2) that by (simp add: g'_def same_cores_def g1_def)
  have reg: "region e g' = (region e g)(Large b := {})"
  proof
    fix x show "region e g' x = ((region e g)(Large b := {})) x"
    proof (cases x)
      case (Large d)
      then show ?thesis using core [of d] by (cases "d = b") (auto simp: g'_def la_core_def split: option.splits)
    qed (simp_all add: g'_def)
  qed
  have mp: "mapped (h_log g') = mapped (h_log (os_munmap b (la_size l) g))"
    using L(2) n0 by (auto simp: fun_eq_iff os_munmap_mapped g'_def)
  have "large_removed e g b g'"
    unfolding large_removed_def using l core reg by (auto simp: g'_def large_frame_def)
  moreover have "large_ok g'" by (rule u(5)) (simp_all add: g'_def)
  moreover have "layout_ok e (h_log g') (region e g')"
    using layout_remove [OF lay, of "Large b" b "la_size l"] l L(2) n0 by (simp add: reg layout_ok_def mp)
  ultimately show ?thesis using r by blast
qed

section \<open>Properties\<close>

lemma large_ok_zero: "large_ok zero_gstate"
  by (auto simp: large_ok_def dll_def zero_gstate_def large_head_def intro!: exI [of _ "[]"])

lemma layout_zero: "layout_ok e (h_log zero_gstate) (region e zero_gstate)"
proof -
  have "region e zero_gstate x = {}" for x by (cases x) (simp_all add: zero_gstate_def)
  then show ?thesis by (simp add: layout_ok_def)
qed

lemma lock_zero: "\<not> g_large_lock zero_gstate"
  by (simp add: zero_gstate_def)

text \<open>
  C26. \<open>large_alloc_aligned\<close> for a power-of-two alignment and a positive size that does not overflow the total
  returns NULL and changes nothing, or returns a pointer that is a multiple of the alignment
  (and of 16) with \<open>size\<close> bytes behind it, in a mapping of its own that was not mapped before
  and reads as zero; freeing that pointer gives back exactly that mapping, leaves every other large block as
  it was and restores all three counters.
\<close>

theorem large_alloc_free_roundtrip:
  assumes "env_ok e" "large_ok g" "layout_ok e (h_log g) (region e g)" "\<not> g_large_lock g"
    "is_pow2 al" "unat sz + 2 * unat al + 262144 \<le> 2 ^ 64" and sz: "sz \<noteq> 0"
  shows "\<exists>p g1. large_alloc_aligned e sz al g = Inr (p, g1) \<and>
    (p = 0 \<and> g1 = g \<or>
     p \<noteq> 0 \<and> unat p mod unat al = 0 \<and> unat p mod 16 = 0 \<and>
     (\<forall>a \<in> span p (unat sz). \<not> mapped (h_log g) a \<and> mapped (h_log g1) a \<and> h_mem g1 (of_nat a) = 0) \<and>
     (\<exists>g2. large_free p g1 = Inr g2 \<and> (\<forall>a. mapped (h_log g2) a = mapped (h_log g) a) \<and>
        (\<forall>c. map_option la_core (h_larges g2 c) = map_option la_core (h_larges g c)) \<and>
        g_large_allocated g2 = g_large_allocated g \<and> g_large_alloc_count g2 = g_large_alloc_count g \<and>
        g_mmap_bytes g2 = g_mmap_bytes g))"
proof -
  from large_alloc_aligned_ok [OF assms(1-6)] obtain p g1 where r: "large_alloc_aligned e sz al g = Inr (p, g1)"
    "p = 0 \<and> g1 = g \<or> (\<exists>b. large_added e g b p sz g1 \<and> p \<noteq> 0 \<and> unat p mod unat al = 0 \<and> unat p mod 16 = 0 \<and> large_ok g1 \<and>
        layout_ok e (h_log g1) (region e g1))" by (elim exE conjE) (rule that)
  show ?thesis
  proof (cases "p = 0 \<and> g1 = g")
    case True
    then show ?thesis using r(1) by auto
  next
    case False
    then obtain b where b: "large_added e g b p sz g1" "p \<noteq> 0" "unat p mod unat al = 0" "unat p mod 16 = 0" "large_ok g1"
      "layout_ok e (h_log g1) (region e g1)" using r(2) by (elim disjE exE conjE) (simp, rule that)
    then obtain l where l: "h_larges g b = None" "h_larges g1 b = Some l" "la_user_size l = sz" "unat b + 48 \<le> unat p"
      "unat p + unat sz \<le> unat b + unat (la_size l)" "fresh_range e g b (unat (la_size l)) g1"
      "region e g1 = (region e g)(Large b := span b (unat (la_size l)))"
      "\<And>c. c \<noteq> b \<Longrightarrow> map_option la_core (h_larges g1 c) = map_option la_core (h_larges g c)"
      "large_frame g g1" "g_large_allocated g1 = g_large_allocated g + sz"
      "g_large_alloc_count g1 = g_large_alloc_count g + 1" "g_mmap_bytes g1 = g_mmap_bytes g + la_size l"
      unfolding large_added_def by blast
    note fr = fresh_rangeD [OF l(6)]
    have zero: "\<not> mapped (h_log g) a \<and> mapped (h_log g1) a \<and> h_mem g1 (of_nat a) = 0" if "a \<in> span p (unat sz)" for a
    proof -
      have a: "a \<in> span b (unat (la_size l))" using that l(4,5) by simp
      moreover have "unat (of_nat a :: addr) = a" using a fr(2) by (intro unat_of_nat_small) simp
      ultimately show ?thesis using fr(4,5) fr(6) [of "of_nat a"] by auto
    qed
    have "0 < unat sz" using sz by (simp add: unat_gt_0)
    then have "unat p \<in> region e g1 (Large b)" using l(2,4,5) by simp
    moreover have "\<not> g_large_lock g1" using large_frameD(7) [OF l(9)] assms(4) by simp
    ultimately obtain g2 where f: "large_free p g1 = Inr g2" "large_removed e g1 b g2"
      using large_free_ok [OF b(5,6)] by blast
    then have g2: "g_large_allocated g2 = g_large_allocated g1 - sz" "h_larges g2 b = None"
      "\<And>a. mapped (h_log g2) a \<longleftrightarrow> mapped (h_log g1) a \<and> a \<notin> span b (unat (la_size l))"
      "g_mmap_bytes g2 = g_mmap_bytes g1 - la_size l" "g_large_alloc_count g2 = g_large_alloc_count g1 - 1"
      "\<And>c. c \<noteq> b \<Longrightarrow> map_option la_core (h_larges g2 c) = map_option la_core (h_larges g1 c)"
      using l(2,3) unfolding large_removed_def by auto
    have "map_option la_core (h_larges g2 c) = map_option la_core (h_larges g c)" for c
      using g2(2,6) l(1,8) by (cases "c = b") auto
    moreover have "mapped (h_log g2) a = mapped (h_log g) a" for a using g2(3) fr(4,5) by blast
    ultimately show ?thesis using r(1) b(2-4) zero f(1) g2 l(10-12) by auto
  qed
qed

theorem large_alloc_free_roundtrip_witness:
  "env_ok (demo_env False) \<and> large_ok zero_gstate \<and> is_pow2 4096 \<and>
   (\<exists>p g1. large_alloc_aligned (demo_env False) 200000 4096 zero_gstate = Inr (p, g1) \<and>
     (p \<noteq> 0 \<longrightarrow> (\<exists>g2. large_free p g1 = Inr g2 \<and> g_large_allocated g2 = 0)))"
proof -
  have pw: "is_pow2 4096" using is_pow2_power [of 12] by simp
  have z: "g_large_allocated zero_gstate = 0" by (simp add: zero_gstate_def)
  show ?thesis
    using large_alloc_free_roundtrip [OF demo_env_ok large_ok_zero layout_zero lock_zero pw, of 200000 False]
      demo_env_ok large_ok_zero pw z by auto
qed

lemma wrap_48:
  assumes "2 ^ 64 \<le> unat (sz :: u64) + 48"
  shows "unat (48 + sz) = unat sz + 48 - 2 ^ 64" "unat (48 + sz) < 48"
proof -
  have "unat sz < 18446744073709551616" by (rule unat64_bound)
  then obtain r where r: "48 + unat sz = 18446744073709551616 + r" "r < 48"
    using assms le_Suc_ex [of "2 ^ 64" "48 + unat sz"] by (auto simp: add.commute)
  have "unat (48 + sz) = (48 + unat sz) mod 18446744073709551616" by (simp add: unat_word_ariths)
  then have "unat (48 + sz) = r" unfolding r(1) using r(2) by simp
  then show "unat (48 + sz) = unat sz + 48 - 2 ^ 64" "unat (48 + sz) < 48" using r by simp_all
qed

lemma align_up_small:
  assumes "0 < unat w" "unat w \<le> 2 ^ j" "j \<le> 16"
  shows "align_up w (2 ^ j) = 2 ^ j"
proof -
  have p: "(2::nat) ^ j \<le> 65536" using power_increasing [of j 16 "2::nat"] assms(3) by simp
  have d: "j < 64" using assms by simp
  have b: "unat w \<le> unat (align_up w (2 ^ j))" "unat (align_up w (2 ^ j)) < unat w + 2 ^ j"
    "unat (align_up w (2 ^ j)) mod 2 ^ j = 0" using align_up_bounds [OF d, of w] assms p by auto
  then obtain q where q: "unat (align_up w (2 ^ j)) = 2 ^ j * q" by (auto dest!: mod_0_imp_dvd)
  have "2 ^ j * q < 2 ^ j * 2" "0 < 2 ^ j * q" using b q assms(1,2) by linarith+
  then have "q = 1" by auto
  then show ?thesis using q d by (simp add: word_unat_eq_iff unat_pow2)
qed

text \<open>
  C39. A size within 48 bytes of the top of the 64-bit range wraps the total around: when
  \<open>large_alloc\<close> succeeds for such a size, the block it records as that large is a mapping of one
  operating-system page.
\<close>

theorem large_alloc_wraps:
  assumes "env_ok e" "2 ^ 64 \<le> unat sz + 48" "large_alloc e sz g = Inr (p, g')" "p \<noteq> 0"
  shows "\<exists>b l. h_larges g' b = Some l \<and> p = b + 48 \<and> la_user_size l = sz \<and> la_size l = page_size e \<and>
    unat (la_size l) \<le> 65536"
proof -
  obtain j where j: "12 \<le> j" "j \<le> 16" "page_size e = 2 ^ j" using env_ok_page [OF assms(1)] by blast
  define n where "n = align_up (48 + sz) (2 ^ j)"
  have up: "align_up LARGE_HEADER_SIZE 16 = 48" by (simp add: LARGE_HEADER_SIZE_48 align_up_def)
  have "(2::nat) ^ 4 < 2 ^ j" using j(1) by (intro power_strict_increasing) auto
  then have pg: "(2 ^ j :: u64) > 16" using j(2) by (simp add: word_less_nat_alt unat_pow2)
  obtain b g1 where m: "os_mmap_aligned e n (2 ^ j) g = (b, g1)" by fastforce
  have "b \<noteq> 0" using assms(3,4) m pg
    by (auto simp: large_alloc_def large_alloc_aligned_def Let_def config_simps os_page_size_def j(3) up n_def)
  then obtain g3 g4 where g: "large_link b g3 = Inr g4" "p = b + 48" "h_larges g' = h_larges g4"
    "h_larges g3 b = Some \<lparr>la_base = b, la_size = n, la_user_size = sz, la_next = 0, la_prev = 0\<rparr>"
    using assms(3) m pg by (auto simp: large_alloc_def large_alloc_aligned_def Let_def config_simps os_page_size_def j(3) up
        n_def bindR_eq_Inr lock_large_def unlock_large_def split: if_splits)
  have "map_option la_core (h_larges g4 b) = map_option la_core (h_larges g3 b)"
    using large_link_cores [OF g(1)] by (simp add: same_cores_def)
  then obtain l where l: "h_larges g' b = Some l" "la_size l = n" "la_user_size l = sz" using g(3,4) by (auto simp: la_core_def)
  have "n \<noteq> 0"
  proof
    assume "n = 0"
    then have "mmap_ret e (h_log g) n = None" using env_ok_mmap(1) [OF assms(1)] by (cases "mmap_ret e (h_log g) n") auto
    then show False using m \<open>b \<noteq> 0\<close> by (simp add: os_mmap_aligned_def sys_mmap_def j(3))
  qed
  then have "0 < unat (48 + sz)" by (cases "48 + sz = 0") (auto simp: n_def align_up_def unat_gt_0 mask_eq_exp_minus_1 [symmetric])
  moreover have "unat (48 + sz) \<le> 2 ^ j"
    using wrap_48(2) [OF assms(2)] power_increasing [of 12 j "2::nat"] j(1) by simp
  ultimately have "n = 2 ^ j" unfolding n_def using j(2) by (intro align_up_small) auto
  moreover have "(2::nat) ^ j \<le> 65536" using power_increasing [of j 16 "2::nat"] j(2) by simp
  ultimately show ?thesis using l g(2) j by (intro exI [of _ b] exI [of _ l]) (simp add: unat_pow2)
qed

lemma demo_large_alloc:
  "case large_alloc (demo_env False) 18446744073709551605 zero_gstate of Inr (p, g') \<Rightarrow> p \<noteq> 0 | _ \<Rightarrow> False"
  by code_simp

theorem large_alloc_wraps_witness:
  "\<exists>p g' b l. env_ok (demo_env False) \<and> 2 ^ 64 \<le> unat (18446744073709551605 :: u64) + 48 \<and>
     large_alloc (demo_env False) 18446744073709551605 zero_gstate = Inr (p, g') \<and> p \<noteq> 0 \<and>
     h_larges g' b = Some l \<and> la_user_size l = 18446744073709551605 \<and> la_size l = 4096"
proof -
  obtain p g' where r: "large_alloc (demo_env False) 18446744073709551605 zero_gstate = Inr (p, g')" "p \<noteq> 0"
    using demo_large_alloc by (auto split: sum.splits prod.splits)
  have s: "page_size (demo_env False) = 4096" by (simp add: demo_env_def)
  have b: "2 ^ 64 \<le> unat (18446744073709551605 :: u64) + 48" by simp
  from large_alloc_wraps [OF demo_env_ok b r] show ?thesis using r b demo_env_ok s by auto
qed

end
