(* ===== verification/Heap_Inv.thy ===== *)
theory Heap_Inv
  imports Page_Inv Large_Correct Slab_Ops
begin

text \<open>
  The invariant of the whole heap between two calls, part by part: tables and array sizes, the
  registry, the address layout, segments and their pages, the lists of the arenas, the
  large blocks, and the thread caches; and the live blocks it describes.
\<close>

section \<open>Segments and pages\<close>

definition page_span :: "page_ptr \<Rightarrow> nat set" where
  "page_span pp = {unat (fst pp) + snd pp * 65536 ..< unat (fst pp) + snd pp * 65536 + 65536}"

definition seg_hdr_ok :: "addr \<Rightarrow> segment \<Rightarrow> bool" where
  "seg_hdr_ok b sg \<longleftrightarrow> b \<noteq> 0 \<and> unat b mod 4194304 = 0 \<and> unat b + 4194304 \<le> 2 ^ 48 \<and> length (sg_pages sg) = 64"

definition page_wf :: "env \<Rightarrow> mem \<Rightarrow> page_ptr \<Rightarrow> page_meta \<Rightarrow> bool" where
  "page_wf e m pp pg \<longleftrightarrow> pm_segment pg = fst pp \<and> pm_page_index pg = of_nat (snd pp) \<and>
     (if snd pp = 0 then pm_state pg = PAGE_FULL
      else pm_state pg = PAGE_UNUSED \<and> (\<forall>x. unat x \<in> page_span pp \<longrightarrow> m x = 0) \<or>
           pm_state pg = PAGE_ACTIVE \<and> page_inv e m pg)"

definition segs_ok :: "env \<Rightarrow> mem \<Rightarrow> (addr \<Rightarrow> segment option) \<Rightarrow> bool" where
  "segs_ok e m segs \<longleftrightarrow>
     (\<forall>b sg. segs b = Some sg \<longrightarrow> seg_hdr_ok b sg) \<and> (\<forall>pp pg. pg_at segs pp = Some pg \<longrightarrow> page_wf e m pp pg)"

definition active :: "(addr \<Rightarrow> segment option) \<Rightarrow> page_ptr \<Rightarrow> page_meta \<Rightarrow> bool" where
  "active segs pp pg \<longleftrightarrow> pg_at segs pp = Some pg \<and> pm_state pg = PAGE_ACTIVE"

section \<open>Lists of the arenas\<close>

definition bin_nxt :: "gstate \<Rightarrow> page_ptr \<Rightarrow> page_ptr option" where
  "bin_nxt g pp = Option.bind (get_page g pp) pm_next"

definition bin_prv :: "gstate \<Rightarrow> page_ptr \<Rightarrow> page_ptr option" where
  "bin_prv g pp = Option.bind (get_page g pp) pm_prev"

definition bin_node :: "nat \<Rightarrow> u8 \<Rightarrow> gstate \<Rightarrow> page_ptr \<Rightarrow> bool" where
  "bin_node a bin g pp \<longleftrightarrow> a < length (g_arenas g) \<and> unat bin < length (ar_bins (g_arenas g ! a)) \<and>
     (\<exists>pg. active (h_segs g) pp pg \<and> pm_bin_idx pg = bin \<and> pm_arena pg = Some a)"

primrec seg_path :: "nat \<Rightarrow> (addr \<Rightarrow> segment option) \<Rightarrow> addr \<Rightarrow> addr list \<Rightarrow> bool" where
  "seg_path a segs h [] \<longleftrightarrow> h = 0"
| "seg_path a segs h (b # bs) \<longleftrightarrow> h = b \<and> b \<noteq> 0 \<and>
     (\<exists>sg. segs b = Some sg \<and> sg_arena sg = Some a \<and> seg_path a segs (sg_next sg) bs)"

definition arena_ok :: "gstate \<Rightarrow> nat \<Rightarrow> bool" where
  "arena_ok g a \<longleftrightarrow>
     (\<forall>bin. unat bin < 75 \<longrightarrow> (\<exists>xs. dll (bin_head a bin g) (bin_nxt g) (bin_prv g) (bin_node a bin g) xs)) \<and>
     (\<exists>bs. seg_path a (h_segs g) (ar_segments (g_arenas g ! a)) bs)"

section \<open>Threads\<close>

definition tld_ok :: "gstate \<Rightarrow> tld \<Rightarrow> bool" where
  "tld_ok g d \<longleftrightarrow> tl_self d \<noteq> 0 \<and> unat (tl_self d) < 2 ^ 48 \<and> length (tl_bin_page d) = 75 \<and>
     tl_thread_id d < t_thread_id_counter g \<and> (\<forall>a. tl_arena d = Some a \<longrightarrow> a < 4) \<and>
     (\<forall>i < 75. \<forall>pp. tl_bin_page d ! i = Some pp \<longrightarrow>
        (\<exists>pg. active (h_segs g) pp pg \<and> unat (pm_bin_idx pg) = i \<and> pm_owner_tid pg = tl_thread_id d))"

definition owners_ok :: "gstate \<Rightarrow> bool" where
  "owners_ok g \<longleftrightarrow>
     (\<forall>pp pg. active (h_segs g) pp pg \<longrightarrow>
        (pm_owner_tid pg = UINT32_MAX \<or> pm_owner_tid pg < t_thread_id_counter g) \<and>
        (\<forall>a. pm_arena pg = Some a \<longrightarrow> a < 4) \<and>
        (\<forall>t d. t_tld g t = Some d \<longrightarrow> pm_owner_tid pg = tl_thread_id d \<longrightarrow> tl_arena d \<noteq> None)) \<and>
     (\<forall>t t' d d'. t_tld g t = Some d \<longrightarrow> t_tld g t' = Some d' \<longrightarrow> t \<noteq> t' \<longrightarrow> tl_thread_id d \<noteq> tl_thread_id d')"

section \<open>The invariant\<close>

definition base_ok :: "gstate \<Rightarrow> bool" where
  "base_ok g \<longleftrightarrow> g_initialized g = 2 \<and> tables_ok g \<and> g_arena_count g = 4 \<and> length (g_arenas g) = 64 \<and>
     (\<forall>a < 64. length (ar_bins (g_arenas g ! a)) = 75)"

definition registry_ok :: "u64 list \<Rightarrow> (addr \<Rightarrow> segment option) \<Rightarrow> bool" where
  "registry_ok r segs \<longleftrightarrow> reg_ok r \<and> finite (dom segs) \<and> reg_set r \<subseteq> dom segs \<and>
     (dom segs = reg_set r \<or> card (reg_set r) = 256)"

definition heap_inv :: "env \<Rightarrow> gstate \<Rightarrow> bool" where
  "heap_inv e g \<longleftrightarrow> base_ok g \<and> registry_ok (g_registry g) (h_segs g) \<and> layout_ok e (h_log g) (region e g) \<and>
     segs_ok e (h_mem g) (h_segs g) \<and> (\<forall>a < 4. arena_ok g a) \<and> large_ok g \<and>
     (\<forall>t d. t_tld g t = Some d \<longrightarrow> tld_ok g d) \<and> owners_ok g"

text \<open>Between calls no lock is held.\<close>

definition unlocked :: "gstate \<Rightarrow> bool" where
  "unlocked g \<longleftrightarrow> \<not> g_large_lock g \<and> (\<forall>a < 64. \<not> ar_lock (g_arenas g ! a))"

section \<open>Live blocks\<close>

text \<open>
  A live block is given by its first address and its length: an allocated slot of an active page, or
  the mapping of a large block.
\<close>

definition slab_blocks :: "mem \<Rightarrow> (addr \<Rightarrow> segment option) \<Rightarrow> (addr \<times> nat) set" where
  "slab_blocks m segs = {(p, unat (pm_slot_size pg)) | p pp pg. active segs pp pg \<and> p \<in> page_live m pg}"

definition large_blocks :: "gstate \<Rightarrow> (addr \<times> nat) set" where
  "large_blocks g = {(b, unat (la_size l)) | b l. h_larges g b = Some l}"

text \<open>The large blocks with the size the client asked for.\<close>

definition large_recs :: "gstate \<Rightarrow> (addr \<times> nat \<times> u64) set" where
  "large_recs g = {(b, unat (la_size l), la_user_size l) | b l. h_larges g b = Some l}"

definition blocks :: "gstate \<Rightarrow> (addr \<times> nat) set" where
  "blocks g = slab_blocks (h_mem g) (h_segs g) \<union> large_blocks g"

text \<open>The bytes of the blocks are kept, and a segment that can be looked up stays so.\<close>

definition keeps :: "gstate \<Rightarrow> gstate \<Rightarrow> bool" where
  "keeps g g' \<longleftrightarrow> reg_set (g_registry g) \<subseteq> reg_set (g_registry g') \<and>
     (\<forall>s n x. (s, n) \<in> blocks g \<longrightarrow> unat x \<in> span s n \<longrightarrow> h_mem g' x = h_mem g x)"

text \<open>A step that changes no block, one that adds a block and one that takes a block away; slots stay slots.\<close>

abbreviation slabs :: "gstate \<Rightarrow> (addr \<times> nat) set" where
  "slabs g \<equiv> slab_blocks (h_mem g) (h_segs g)"

definition quiet :: "gstate \<Rightarrow> gstate \<Rightarrow> bool" where
  "quiet g g' \<longleftrightarrow> slabs g' = slabs g \<and> large_recs g' = large_recs g \<and> keeps g g'"

definition adds :: "gstate \<Rightarrow> addr \<Rightarrow> nat \<Rightarrow> gstate \<Rightarrow> bool" where
  "adds g s n g' \<longleftrightarrow> blocks g' = insert (s, n) (blocks g) \<and> slabs g \<subseteq> slabs g' \<and> large_recs g \<subseteq> large_recs g' \<and>
     keeps g g' \<and> 0 < n \<and> (\<forall>s' n'. (s', n') \<in> blocks g \<longrightarrow> span s n \<inter> span s' n' = {})"

definition drops :: "gstate \<Rightarrow> addr \<Rightarrow> nat \<Rightarrow> gstate \<Rightarrow> bool" where
  "drops g s n g' \<longleftrightarrow> (s, n) \<in> blocks g \<and> blocks g' = blocks g - {(s, n)} \<and>
     slabs g - {(s, n)} \<subseteq> slabs g' \<and> {r \<in> large_recs g. fst r \<noteq> s} \<subseteq> large_recs g' \<and>
     reg_set (g_registry g) \<subseteq> reg_set (g_registry g') \<and>
     (\<forall>s' n' x. (s', n') \<in> blocks g' \<longrightarrow> unat x \<in> span s' n' \<longrightarrow> h_mem g' x = h_mem g x)"

lemma large_blocks_recs: "large_blocks g = {(b, n). \<exists>u. (b, n, u) \<in> large_recs g}"
  by (auto simp: large_blocks_def large_recs_def)

lemma quiet_blocks: "quiet g g' \<Longrightarrow> blocks g' = blocks g"
  by (simp add: quiet_def blocks_def large_blocks_recs)

lemma quiet_refl [simp]: "quiet g g"
  by (simp add: quiet_def keeps_def)

lemma quiet_trans:
  assumes "quiet a b" "quiet b c"
  shows "quiet a c"
  using assms quiet_blocks [OF assms(1)] unfolding quiet_def keeps_def by auto

lemma quiet_adds:
  assumes "quiet a b" "adds b s n c"
  shows "adds a s n c"
  using assms quiet_blocks [OF assms(1)] unfolding quiet_def adds_def keeps_def by auto

lemma adds_quiet:
  assumes "adds a s n b" "quiet b c"
  shows "adds a s n c"
  using assms quiet_blocks [OF assms(2)] unfolding quiet_def adds_def keeps_def by auto

lemma quiet_drops:
  assumes "quiet a b" "drops b s n c"
  shows "drops a s n c"
  using assms quiet_blocks [OF assms(1)] unfolding quiet_def drops_def keeps_def by auto

lemma drops_quiet:
  assumes "drops a s n b" "quiet b c"
  shows "drops a s n c"
  using assms quiet_blocks [OF assms(2)] unfolding quiet_def drops_def keeps_def by auto

section \<open>Consequences\<close>

lemma heap_invD:
  assumes "heap_inv e g"
  shows "base_ok g" "registry_ok (g_registry g) (h_segs g)" "layout_ok e (h_log g) (region e g)"
    "segs_ok e (h_mem g) (h_segs g)" "\<And>a. a < 4 \<Longrightarrow> arena_ok g a" "large_ok g"
    "\<And>t d. t_tld g t = Some d \<Longrightarrow> tld_ok g d" "owners_ok g"
  using assms by (auto simp: heap_inv_def)

lemma base_okD:
  assumes "base_ok g"
  shows "g_initialized g = 2" "tables_ok g" "g_arena_count g = 4" "length (g_arenas g) = 64"
    "\<And>a. a < 64 \<Longrightarrow> length (ar_bins (g_arenas g ! a)) = 75"
  using assms by (auto simp: base_ok_def)

lemma tld_okD:
  assumes "tld_ok g d"
  shows "tl_self d \<noteq> 0" "unat (tl_self d) < 2 ^ 48" "length (tl_bin_page d) = 75" "tl_thread_id d < t_thread_id_counter g"
    "\<And>a. tl_arena d = Some a \<Longrightarrow> a < 4"
    "\<And>i pp. i < 75 \<Longrightarrow> tl_bin_page d ! i = Some pp \<Longrightarrow>
       \<exists>pg. active (h_segs g) pp pg \<and> unat (pm_bin_idx pg) = i \<and> pm_owner_tid pg = tl_thread_id d"
  using assms unfolding tld_ok_def by blast+

lemma owners_okD:
  assumes "owners_ok g"
  shows "\<And>pp pg. active (h_segs g) pp pg \<Longrightarrow> pm_owner_tid pg = UINT32_MAX \<or> pm_owner_tid pg < t_thread_id_counter g"
    "\<And>pp pg a. active (h_segs g) pp pg \<Longrightarrow> pm_arena pg = Some a \<Longrightarrow> a < 4"
    "\<And>pp pg t d. active (h_segs g) pp pg \<Longrightarrow> t_tld g t = Some d \<Longrightarrow> pm_owner_tid pg = tl_thread_id d \<Longrightarrow> tl_arena d \<noteq> None"
    "\<And>t t' d d'. t_tld g t = Some d \<Longrightarrow> t_tld g t' = Some d' \<Longrightarrow> t \<noteq> t' \<Longrightarrow> tl_thread_id d \<noteq> tl_thread_id d'"
  using assms unfolding owners_ok_def by blast+

lemma pg_at_seg: "pg_at segs pp = Some pg \<Longrightarrow> \<exists>sg. segs (fst pp) = Some sg \<and> snd pp < length (sg_pages sg)"
  by (auto simp: pg_at_def split: option.splits if_splits)

lemma segs_ok_hdr: "segs_ok e m segs \<Longrightarrow> segs b = Some sg \<Longrightarrow> seg_hdr_ok b sg"
  by (simp add: segs_ok_def)

lemma segs_ok_wf: "segs_ok e m segs \<Longrightarrow> pg_at segs pp = Some pg \<Longrightarrow> page_wf e m pp pg"
  unfolding segs_ok_def by blast

lemma unat_of_nat_index: "i < 64 \<Longrightarrow> unat (of_nat i :: u16) = i"
  by (rule unat_of_nat_small) simp

lemma page_start_at:
  assumes "segs_ok e m segs" "pg_at segs pp = Some pg"
  shows "unat (page_start pg) = unat (fst pp) + snd pp * 65536" "span (page_start pg) 65536 = page_span pp"
    "snd pp < 64" "page_span pp \<subseteq> span (fst pp) 4194304" "segs (fst pp) \<noteq> None"
    "unat (fst pp) + 4194304 \<le> 2 ^ 48" "fst pp \<noteq> 0" "unat (fst pp) mod 4194304 = 0"
proof -
  obtain sg where sg: "segs (fst pp) = Some sg" "snd pp < length (sg_pages sg)" using pg_at_seg [OF assms(2)] by blast
  then have h: "seg_hdr_ok (fst pp) sg" using segs_ok_hdr [OF assms(1)] by blast
  then show i: "snd pp < 64" "unat (fst pp) + 4194304 \<le> 2 ^ 48" "fst pp \<noteq> 0" "unat (fst pp) mod 4194304 = 0"
    using sg(2) by (auto simp: seg_hdr_ok_def)
  have w: "pm_segment pg = fst pp" "pm_page_index pg = of_nat (snd pp)"
    using segs_ok_wf [OF assms] by (auto simp: page_wf_def)
  have m: "unat (ucast (of_nat (snd pp) :: u16) * PAGE_SIZE_ALLOC) = snd pp * 65536"
    using i(1) by (subst unat_mult_lem [THEN iffD1]) (auto simp: unat_ucast_up config_simps unat_of_nat_index)
  show u: "unat (page_start pg) = unat (fst pp) + snd pp * 65536"
    unfolding page_start_def w using i m by (subst unat_add_small) auto
  then show "span (page_start pg) 65536 = page_span pp" by (simp add: span_def page_span_def)
  show "page_span pp \<subseteq> span (fst pp) 4194304" using i(1) by (auto simp: page_span_def)
  show "segs (fst pp) \<noteq> None" using sg by simp
qed

lemma activeD:
  assumes "segs_ok e m segs" "active segs pp pg"
  shows "pg_at segs pp = Some pg" "pm_state pg = PAGE_ACTIVE" "page_inv e m pg" "pm_segment pg = fst pp"
    "pm_page_index pg = of_nat (snd pp)" "0 < snd pp"
  using assms segs_ok_wf [OF assms(1), of pp pg] by (auto simp: active_def page_wf_def split: if_splits)

lemma page_span_apart:
  assumes "layout_ok e log (region e g)" "segs_ok e m (h_segs g)" "get_page g pp = Some pg" "get_page g qq = Some qg" "pp \<noteq> qq"
  shows "page_span pp \<inter> page_span qq = {}"
proof (cases "fst pp = fst qq")
  case True
  then have "snd pp \<noteq> snd qq" using assms(5) by (simp add: prod_eq_iff)
  then have "snd pp < snd qq \<or> snd qq < snd pp" by auto
  then have "(snd pp + 1) * 65536 \<le> snd qq * 65536 \<or> (snd qq + 1) * 65536 \<le> snd pp * 65536" by auto
  then show ?thesis using True by (auto simp: page_span_def)
next
  case False
  have "region e g (Seg (fst pp)) = span (fst pp) 4194304" "region e g (Seg (fst qq)) = span (fst qq) 4194304"
    using page_start_at(5) [OF assms(2,3)] page_start_at(5) [OF assms(2,4)] by auto
  then have "span (fst pp) 4194304 \<inter> span (fst qq) 4194304 = {}"
    using layout_disjoint [OF assms(1), of "Seg (fst pp)" "Seg (fst qq)"] False by simp
  then show ?thesis using page_start_at(4) [OF assms(2,3)] page_start_at(4) [OF assms(2,4)] by blast
qed

text \<open>Where blocks lie.\<close>

lemma slab_block_at:
  assumes "segs_ok e m segs" "active segs pp pg" "p \<in> page_live m pg"
  shows "span p (unat (pm_slot_size pg)) \<subseteq> page_span pp" "p \<in> all_slots pg" "unat p mod 16 = 0" "p \<noteq> 0" "unat p < 2 ^ 48"
proof -
  note A = activeD [OF assms(1,2)] and D = page_invD [OF activeD(3) [OF assms(1,2)]]
  show p: "p \<in> all_slots pg" by (rule live_slot(1) [OF D(1) assms(3)])
  note f = all_slots_facts [OF D(6) p]
  show "unat p mod 16 = 0" "p \<noteq> 0" "unat p < 2 ^ 48" by (rule f(3) f(1) f(2))+
  show "span p (unat (pm_slot_size pg)) \<subseteq> page_span pp"
    using f(5) page_start_at(2) [OF assms(1) A(1)] by simp
qed

lemma slab_block_region:
  assumes "heap_inv e g" "(s, n) \<in> slab_blocks (h_mem g) (h_segs g)"
  shows "\<exists>b. span s n \<subseteq> region e g (Seg b)"
proof -
  note H = heap_invD [OF assms(1)]
  obtain pp pg where a: "active (h_segs g) pp pg" "s \<in> page_live (h_mem g) pg" "n = unat (pm_slot_size pg)"
    using assms(2) by (auto simp: slab_blocks_def)
  have "span s n \<subseteq> span (fst pp) 4194304"
    using slab_block_at(1) [OF H(4) a(1,2)] page_start_at(4) [OF H(4) activeD(1) [OF H(4) a(1)]] a(3) by blast
  moreover have "region e g (Seg (fst pp)) = span (fst pp) 4194304"
    using page_start_at(5) [OF H(4) activeD(1) [OF H(4) a(1)]] by auto
  ultimately show ?thesis by blast
qed

lemma large_block_region: "(s, n) \<in> large_blocks g \<Longrightarrow> region e g (Large s) = span s n"
  by (auto simp: large_blocks_def)

lemma block_region:
  assumes "heap_inv e g" "(s, n) \<in> blocks g"
  shows "\<exists>x. span s n \<subseteq> region e g x"
  using slab_block_region [OF assms(1)] large_block_region [of s n g e] assms(2)
  unfolding blocks_def by (metis Un_iff subset_refl)

lemma block_mapped:
  assumes "heap_inv e g" "(s, n) \<in> blocks g" "a \<in> span s n"
  shows "mapped (h_log g) a"
  using block_region [OF assms(1,2)] layout_mapped [OF heap_invD(3) [OF assms(1)]] assms(3) by blast

lemma block_pos: "heap_inv e g \<Longrightarrow> (s, n) \<in> blocks g \<Longrightarrow> 0 < n"
  using large_okD(3) [OF heap_invD(6)] page_geomD(1) [OF page_invD(6) [OF activeD(3) [OF heap_invD(4)]]]
  by (fastforce simp: blocks_def slab_blocks_def large_blocks_def)

text \<open>Different live blocks never overlap.\<close>

lemma slab_blocks_apart:
  assumes "heap_inv e g" "(s, n) \<in> slab_blocks (h_mem g) (h_segs g)" "(s', n') \<in> slab_blocks (h_mem g) (h_segs g)"
    "(s, n) \<noteq> (s', n')"
  shows "span s n \<inter> span s' n' = {}"
proof -
  note H = heap_invD [OF assms(1)]
  obtain pp pg where a: "active (h_segs g) pp pg" "s \<in> page_live (h_mem g) pg" "n = unat (pm_slot_size pg)"
    using assms(2) by (auto simp: slab_blocks_def)
  obtain qq qg where b: "active (h_segs g) qq qg" "s' \<in> page_live (h_mem g) qg" "n' = unat (pm_slot_size qg)"
    using assms(3) by (auto simp: slab_blocks_def)
  note A = activeD [OF H(4) a(1)] and B = activeD [OF H(4) b(1)]
  show ?thesis
  proof (cases "pp = qq")
    case True
    then have "qg = pg" using A(1) B(1) by simp
    then show ?thesis
      using all_slots_apart [OF page_invD(6) [OF A(3)] slab_block_at(2) [OF H(4) a(1,2)], of s']
        slab_block_at(2) [OF H(4) b(1,2)] a(3) b(3) assms(4) by simp
  next
    case False
    then show ?thesis
      using page_span_apart [OF H(3,4) A(1) B(1)] slab_block_at(1) [OF H(4) a(1,2)] slab_block_at(1) [OF H(4) b(1,2)] a(3) b(3)
      by blast
  qed
qed

lemma blocks_apart:
  assumes "heap_inv e g" "(s, n) \<in> blocks g" "(s', n') \<in> blocks g" "(s, n) \<noteq> (s', n')"
  shows "span s n \<inter> span s' n' = {}"
proof -
  note lay = heap_invD(3) [OF assms(1)]
  have ls: "span s n \<inter> span s' n' = {}" if L: "(s, n) \<in> large_blocks g" and S: "(s', n') \<in> slab_blocks (h_mem g) (h_segs g)" for s n s' n'
  proof -
    obtain b where "span s' n' \<subseteq> region e g (Seg b)" using slab_block_region [OF assms(1) S] by blast
    moreover have "region e g (Large s) \<inter> region e g (Seg b) = {}" using layout_disjoint [OF lay, of "Large s" "Seg b"] by blast
    ultimately show ?thesis using large_block_region [OF L, of e] by blast
  qed
  have ll: "span s n \<inter> span s' n' = {}" if "(s, n) \<in> large_blocks g" "(s', n') \<in> large_blocks g"
  proof -
    have "s \<noteq> s'" using that assms(4) by (auto simp: large_blocks_def)
    then have "region e g (Large s) \<inter> region e g (Large s') = {}" using layout_disjoint [OF lay, of "Large s" "Large s'"] by blast
    then show ?thesis using large_block_region [OF that(1), of e] large_block_region [OF that(2), of e] by simp
  qed
  consider "(s, n) \<in> slab_blocks (h_mem g) (h_segs g)" "(s', n') \<in> slab_blocks (h_mem g) (h_segs g)"
    | "(s, n) \<in> large_blocks g" "(s', n') \<in> slab_blocks (h_mem g) (h_segs g)"
    | "(s', n') \<in> large_blocks g" "(s, n) \<in> slab_blocks (h_mem g) (h_segs g)"
    | "(s, n) \<in> large_blocks g" "(s', n') \<in> large_blocks g" using assms(2,3) unfolding blocks_def by blast
  then show ?thesis
  proof cases
    case 1
    then show ?thesis by (rule slab_blocks_apart [OF assms(1) _ _ assms(4)])
  next
    case 2
    then show ?thesis by (rule ls)
  next
    case 3
    then show ?thesis using ls [of s' n' s n] by (simp only: Int_commute)
  next
    case 4
    then show ?thesis by (rule ll)
  qed
qed

section \<open>Steps that touch no block\<close>

text \<open>
  Counters, locks, the choice of an arena and dropping a cached page leave the view of the
  invariant alone.
\<close>

definition tld_le :: "tld \<Rightarrow> tld \<Rightarrow> bool" where
  "tld_le d d' \<longleftrightarrow> tl_self d' = tl_self d \<and> tl_thread_id d' = tl_thread_id d \<and>
     length (tl_bin_page d') = length (tl_bin_page d) \<and>
     (\<forall>i < length (tl_bin_page d). tl_bin_page d' ! i \<in> {tl_bin_page d ! i, None}) \<and>
     (tl_arena d' = tl_arena d \<or> tl_arena d = None \<and> (\<exists>a < 4. tl_arena d' = Some a))"

definition arena_view :: "arena \<Rightarrow> page_ptr option list \<times> addr" where
  "arena_view ar = (ar_bins ar, ar_segments ar)"

definition calm :: "gstate \<Rightarrow> gstate \<Rightarrow> bool" where
  "calm g g' \<longleftrightarrow>
     g_initialized g' = g_initialized g \<and> g_bin_size g' = g_bin_size g \<and>
     g_size_to_bin_small g' = g_size_to_bin_small g \<and> g_arena_count g' = g_arena_count g \<and>
     g_registry g' = g_registry g \<and> h_segs g' = h_segs g \<and> h_mem g' = h_mem g \<and> h_larges g' = h_larges g \<and>
     g_large_list g' = g_large_list g \<and> h_log g' = h_log g \<and> t_thread_id_counter g' = t_thread_id_counter g \<and>
     map arena_view (g_arenas g') = map arena_view (g_arenas g) \<and>
     (\<forall>t. rel_option tld_le (t_tld g t) (t_tld g' t))"

lemma calmD:
  assumes "calm g g'"
  shows "g_initialized g' = g_initialized g" "g_bin_size g' = g_bin_size g"
    "g_size_to_bin_small g' = g_size_to_bin_small g" "g_arena_count g' = g_arena_count g"
    "g_registry g' = g_registry g" "h_segs g' = h_segs g" "h_mem g' = h_mem g" "h_larges g' = h_larges g"
    "g_large_list g' = g_large_list g" "h_log g' = h_log g" "t_thread_id_counter g' = t_thread_id_counter g"
    "map arena_view (g_arenas g') = map arena_view (g_arenas g)"
    "\<And>t. rel_option tld_le (t_tld g t) (t_tld g' t)"
  using assms by (auto simp: calm_def)

lemma tld_le_refl [simp]: "tld_le d d"
  by (simp add: tld_le_def)

lemma tld_le_trans: "tld_le a b \<Longrightarrow> tld_le b c \<Longrightarrow> tld_le a c"
  unfolding tld_le_def by fastforce

lemma rel_option_tld_refl [simp]: "rel_option tld_le x x"
  by (cases x) simp_all

lemma calm_refl [simp]: "calm g g"
  by (simp add: calm_def)

lemma calm_trans: "calm a b \<Longrightarrow> calm b c \<Longrightarrow> calm a c"
proof -
  assume ab: "calm a b" and bc: "calm b c"
  have "rel_option tld_le (t_tld a t) (t_tld c t)" for t
    using calmD(13) [OF ab, of t] calmD(13) [OF bc, of t]
    by (cases "t_tld a t"; cases "t_tld b t"; cases "t_tld c t") (auto intro: tld_le_trans)
  then show ?thesis using calmD(1-12) [OF ab] calmD(1-12) [OF bc] by (simp add: calm_def)
qed

lemma calm_arena:
  assumes "calm g g'" "a < length (g_arenas g)"
  shows "ar_bins (g_arenas g' ! a) = ar_bins (g_arenas g ! a)" "ar_segments (g_arenas g' ! a) = ar_segments (g_arenas g ! a)"
    "length (g_arenas g') = length (g_arenas g)"
proof -
  show l: "length (g_arenas g') = length (g_arenas g)" using calmD(12) [OF assms(1)] by (rule map_eq_imp_length_eq)
  have "map arena_view (g_arenas g') ! a = map arena_view (g_arenas g) ! a" using calmD(12) [OF assms(1)] by simp
  then show "ar_bins (g_arenas g' ! a) = ar_bins (g_arenas g ! a)" "ar_segments (g_arenas g' ! a) = ar_segments (g_arenas g ! a)"
    using assms(2) l by (simp_all add: arena_view_def)
qed

lemma calm_tld:
  assumes "calm g g'" "t_tld g' t = Some d'"
  shows "\<exists>d. t_tld g t = Some d \<and> tld_le d d'"
  using calmD(13) [OF assms(1), of t] assms(2) by (cases "t_tld g t") auto

lemma quiet_calm:
  assumes "calm g g'"
  shows "quiet g g'"
  using calmD(5-8) [OF assms] by (simp add: quiet_def blocks_def large_recs_def keeps_def)

lemma calm_region:
  assumes "calm g g'"
  shows "region e g' = region e g"
proof
  fix x
  show "region e g' x = region e g x"
  proof (cases x)
    case (Tld t)
    then show ?thesis using calmD(13) [OF assms, of t]
      by (cases "t_tld g t"; cases "t_tld g' t") (auto simp: tld_le_def)
  qed (simp_all add: calmD [OF assms])
qed

lemma calm_arena_ok:
  assumes c: "calm g g'" and a: "a < length (g_arenas g)" and ok: "arena_ok g a"
  shows "arena_ok g' a"
proof -
  note C = calmD [OF c] and A = calm_arena [OF c a]
  have "bin_head a bin g' = bin_head a bin g" for bin by (simp add: bin_head_def A)
  moreover have "bin_nxt g' = bin_nxt g" "bin_prv g' = bin_prv g" by (simp_all add: bin_nxt_def bin_prv_def fun_eq_iff C)
  moreover have "bin_node a bin g' = bin_node a bin g" for bin by (simp add: bin_node_def fun_eq_iff C A)
  ultimately show ?thesis using ok by (simp add: arena_ok_def C A)
qed

lemma tld_leD:
  assumes "tld_le d d'"
  shows "tl_self d' = tl_self d" "tl_thread_id d' = tl_thread_id d" "length (tl_bin_page d') = length (tl_bin_page d)"
    "\<And>i pp. i < length (tl_bin_page d) \<Longrightarrow> tl_bin_page d' ! i = Some pp \<Longrightarrow> tl_bin_page d ! i = Some pp"
    "\<And>a. tl_arena d' = Some a \<Longrightarrow> tl_arena d = Some a \<or> a < 4" "tl_arena d \<noteq> None \<Longrightarrow> tl_arena d' \<noteq> None"
  using assms unfolding tld_le_def by fastforce+

lemma calm_tld_ok:
  assumes c: "calm g g'" and d: "tld_le d d'" and ok: "tld_ok g d"
  shows "tld_ok g' d'"
  unfolding tld_ok_def
proof (intro conjI allI impI)
  note C = calmD [OF c] and D = tld_leD [OF d] and K = tld_okD [OF ok]
  show "tl_self d' \<noteq> 0" "unat (tl_self d') < 2 ^ 48" "length (tl_bin_page d') = 75" "tl_thread_id d' < t_thread_id_counter g'"
    using D(1-3) K(1-4) by (simp_all add: C)
  show "a < 4" if "tl_arena d' = Some a" for a using D(5) [OF that] K(5) by blast
  fix i pp assume i: "i < 75" "tl_bin_page d' ! i = Some pp"
  then have "tl_bin_page d ! i = Some pp" using D(4) K(3) by simp
  then show "\<exists>pg. active (h_segs g') pp pg \<and> unat (pm_bin_idx pg) = i \<and> pm_owner_tid pg = tl_thread_id d'"
    using K(6) [OF i(1)] C(6) D(2) by simp
qed

lemma calm_owners:
  assumes c: "calm g g'" and ok: "owners_ok g"
  shows "owners_ok g'"
  unfolding owners_ok_def
proof (intro conjI allI impI)
  note C = calmD [OF c] and O = owners_okD [OF ok]
  fix pp pg assume "active (h_segs g') pp pg"
  then have a: "active (h_segs g) pp pg" by (simp add: C)
  show "pm_owner_tid pg = UINT32_MAX \<or> pm_owner_tid pg < t_thread_id_counter g'" using O(1) [OF a] by (simp add: C)
  show "b < 4" if "pm_arena pg = Some b" for b using O(2) [OF a that] .
  fix t d' assume d': "t_tld g' t = Some d'" "pm_owner_tid pg = tl_thread_id d'"
  then obtain d where d: "t_tld g t = Some d" "tld_le d d'" using calm_tld [OF c] by blast
  then have "tl_arena d \<noteq> None" using O(3) [OF a d(1)] d'(2) tld_leD(2) by simp
  then show "tl_arena d' \<noteq> None" by (rule tld_leD(6) [OF d(2)])
next
  note O = owners_okD [OF ok]
  fix t t' d d' assume t: "t_tld g' t = Some d" "t_tld g' t' = Some d'" "t \<noteq> t'"
  obtain d0 where d0: "t_tld g t = Some d0" "tld_le d0 d" using calm_tld [OF c t(1)] by blast
  obtain d1 where d1: "t_tld g t' = Some d1" "tld_le d1 d'" using calm_tld [OF c t(2)] by blast
  show "tl_thread_id d \<noteq> tl_thread_id d'"
    using O(4) [OF d0(1) d1(1) t(3)] tld_leD(2) [OF d0(2)] tld_leD(2) [OF d1(2)] by simp
qed

lemma heap_inv_calm:
  assumes c: "calm g g'" and H: "heap_inv e g"
  shows "heap_inv e g'"
proof -
  note C = calmD [OF c] and I = heap_invD [OF H] and B = base_okD [OF heap_invD(1) [OF H]]
  have "base_ok g'"
    using B(1-3,5) C(1-4) calm_arena [OF c] calm_arena(3) [OF c, of 0] B(4) by (simp add: base_ok_def tables_ok_def)
  moreover have "arena_ok g' a" if "a < 4" for a using calm_arena_ok [OF c _ I(5)] that B(4) by simp
  moreover have "large_ok g'" using I(6) large_ok_cong [of g' g] C by simp
  moreover have "tld_ok g' d'" if "t_tld g' t = Some d'" for t d'
    using calm_tld [OF c that] calm_tld_ok [OF c] I(7) by blast
  ultimately show ?thesis
    using I(2-4) calm_owners [OF c I(8)] by (simp add: heap_inv_def C calm_region [OF c])
qed

end
