(* ===== verification/Heap_Steps.thy ===== *)
theory Heap_Steps
  imports Heap_Inv
begin

text \<open>
  How the elementary changes of state act on the invariant and on the live blocks: a new page of slot
  bookkeeping, a claimed page, a new mapping, a page put to use, a page put on its list.
\<close>

section \<open>Updating one page\<close>

lemma dom_upd_page [simp]: "dom (h_segs (upd_page pp f g)) = dom (h_segs g)"
  by (auto simp: dom_def h_segs_upd_page)

lemma h_segs_None_upd_page [simp]: "h_segs (upd_page pp f g) b = None \<longleftrightarrow> h_segs g b = None"
  by (simp add: h_segs_upd_page)

lemma upd_page_hdr:
  "h_segs (upd_page pp f g) b = Some sg' \<Longrightarrow>
   \<exists>sg. h_segs g b = Some sg \<and> length (sg_pages sg') = length (sg_pages sg) \<and> sg_next sg' = sg_next sg \<and> sg_arena sg' = sg_arena sg"
  by (auto simp: h_segs_upd_page split: if_splits)

lemma region_upd_page [simp]: "region e (upd_page pp f g) = region e g"
proof
  fix x
  show "region e (upd_page pp f g) x = region e g x"
  proof (cases x)
    case (Seg b)
    then show ?thesis by (auto simp: h_segs_upd_page split: option.splits)
  qed simp_all
qed

lemma upd_seg_twice: "upd_seg b f (upd_seg b h g) = upd_seg b (f \<circ> h) g"
  by (simp add: upd_seg_def option.map_comp)

lemma upd_page_twice [simp]: "upd_page pp f (upd_page pp h g) = upd_page pp (f \<circ> h) g"
proof -
  have "xs[i := h (xs ! i), i := f (xs[i := h (xs ! i)] ! i)] = xs[i := f (h (xs ! i))]" for xs i
    by (cases "i < length xs") (simp_all add: not_less list_update_beyond)
  then show ?thesis unfolding upd_page_def upd_seg_twice comp_def by simp
qed

lemma active_upd_page:
  assumes "get_page g pp = Some pg"
  shows "active (h_segs (upd_page pp (\<lambda>_. pg') g)) qq qg \<longleftrightarrow>
    (if qq = pp then qg = pg' \<and> pm_state pg' = PAGE_ACTIVE else active (h_segs g) qq qg)"
  using assms by (auto simp: active_def)

lemma seg_path_upd_page: "seg_path a (h_segs g) h bs \<Longrightarrow> seg_path a (h_segs (upd_page pp f g)) h bs"
proof (induction bs arbitrary: h)
  case (Cons b bs)
  then obtain sg where sg: "h_segs g b = Some sg" "sg_arena sg = Some a" "seg_path a (h_segs g) (sg_next sg) bs" "h = b" "b \<noteq> 0" by auto
  obtain sg' where "h_segs (upd_page pp f g) b = Some sg'" "sg_next sg' = sg_next sg" "sg_arena sg' = sg_arena sg"
    using sg(1) by (auto simp: h_segs_upd_page)
  then show ?case using Cons.IH sg by simp
qed simp

text \<open>The lists of an arena only see the links, the state, the bin and the arena of a page.\<close>

definition same_links :: "page_meta \<Rightarrow> page_meta \<Rightarrow> bool" where
  "same_links pg pg' \<longleftrightarrow> pm_next pg' = pm_next pg \<and> pm_prev pg' = pm_prev pg \<and> pm_state pg' = pm_state pg \<and>
     pm_bin_idx pg' = pm_bin_idx pg \<and> pm_arena pg' = pm_arena pg"

lemma same_id_links: "same_id pg pg' \<Longrightarrow> same_links pg pg'"
  using same_idD [of pg pg'] by (simp add: same_links_def)

lemma arena_ok_upd_page:
  assumes "get_page g pp = Some pg" "same_links pg pg'" "arena_ok g a"
  shows "arena_ok (upd_page pp (\<lambda>_. pg') g) a"
proof -
  let ?g = "upd_page pp (\<lambda>_. pg') g"
  have "bin_head a bin ?g = bin_head a bin g" for bin by (simp add: bin_head_def)
  moreover have "bin_nxt ?g = bin_nxt g" "bin_prv ?g = bin_prv g"
    using assms(1,2) by (auto simp: bin_nxt_def bin_prv_def fun_eq_iff same_links_def)
  moreover have "bin_node a bin ?g = bin_node a bin g" for bin
  proof
    fix qq
    show "bin_node a bin ?g qq = bin_node a bin g qq"
      using assms(1,2) by (cases "qq = pp") (simp_all add: bin_node_def active_upd_page [OF assms(1)], simp_all add: same_links_def active_def)
  qed
  moreover have "\<exists>bs. seg_path a (h_segs ?g) (ar_segments (g_arenas ?g ! a)) bs"
    using assms(3) seg_path_upd_page [of a g _ _ pp] unfolding arena_ok_def upd_page_frame by blast
  ultimately show ?thesis using assms(3) unfolding arena_ok_def by simp
qed

lemma arena_ok_mem [simp]: "arena_ok (g\<lparr>h_mem := m\<rparr>) a = arena_ok g a"
  by (simp add: arena_ok_def bin_head_def bin_nxt_def [abs_def] bin_prv_def [abs_def] bin_node_def [abs_def])

lemma tld_ok_mem [simp]: "tld_ok (g\<lparr>h_mem := m\<rparr>) d = tld_ok g d"
  by (simp add: tld_ok_def)

lemma owners_ok_mem [simp]: "owners_ok (g\<lparr>h_mem := m\<rparr>) = owners_ok g"
  by (simp add: owners_ok_def)

lemma large_ok_mem [simp]: "large_ok (g\<lparr>h_mem := m\<rparr>) = large_ok g"
  by (rule large_ok_cong) simp_all

lemma large_ok_upd_page [simp]: "large_ok (upd_page pp f g) = large_ok g"
  by (rule large_ok_cong) simp_all

lemma region_mem [simp]: "region e (g\<lparr>h_mem := m\<rparr>) = region e g"
proof
  fix x show "region e (g\<lparr>h_mem := m\<rparr>) x = region e g x" by (cases x) simp_all
qed

lemma tld_ok_upd_page:
  assumes "get_page g pp = Some pg" "same_links pg pg'" "pm_owner_tid pg' = pm_owner_tid pg" "tld_ok g d"
  shows "tld_ok (upd_page pp (\<lambda>_. pg') g) d"
proof -
  note K = tld_okD [OF assms(4)]
  have "\<exists>qg. active (h_segs (upd_page pp (\<lambda>_. pg') g)) qq qg \<and> unat (pm_bin_idx qg) = i \<and> pm_owner_tid qg = tl_thread_id d"
    if "i < 75" "tl_bin_page d ! i = Some qq" for i qq
    using K(6) [OF that] assms(1-3) unfolding active_upd_page [OF assms(1)] same_links_def active_def by auto
  then show ?thesis using K(1-5) by (auto simp: tld_ok_def)
qed

lemma owners_ok_upd_page:
  assumes "get_page g pp = Some pg" "same_links pg pg'" "pm_owner_tid pg' = pm_owner_tid pg" "owners_ok g"
  shows "owners_ok (upd_page pp (\<lambda>_. pg') g)"
proof -
  note O = owners_okD [OF assms(4)]
  have "\<exists>q. active (h_segs g) qq q \<and> pm_owner_tid q = pm_owner_tid qg \<and> pm_arena q = pm_arena qg"
    if "active (h_segs (upd_page pp (\<lambda>_. pg') g)) qq qg" for qq qg
    using that assms(1-3) unfolding active_upd_page [OF assms(1)] same_links_def active_def by (auto split: if_splits)
  note q = this
  show ?thesis
    unfolding owners_ok_def upd_page_frame
  proof (intro conjI allI impI)
    fix qq qg assume "active (h_segs (upd_page pp (\<lambda>_. pg') g)) qq qg"
    from q [OF this] obtain q where a: "active (h_segs g) qq q" "pm_owner_tid q = pm_owner_tid qg" "pm_arena q = pm_arena qg"
      by blast
    show "pm_owner_tid qg = UINT32_MAX \<or> pm_owner_tid qg < t_thread_id_counter g" using O(1) [OF a(1)] a(2) by simp
    show "b < 4" if "pm_arena qg = Some b" for b using O(2) [OF a(1)] a(3) that by simp
    show "tl_arena d \<noteq> None" if "t_tld g t = Some d" "pm_owner_tid qg = tl_thread_id d" for t d
      using O(3) [OF a(1) that(1)] a(2) that(2) by simp
  qed (rule O(4))
qed

section \<open>Memory of one page\<close>

lemma segs_ok_page:
  assumes lay: "layout_ok e log (region e g)" and ok: "segs_ok e m (h_segs g)" and pp: "get_page g pp = Some pg"
    and wf: "page_wf e m' pp pg'" and out: "\<And>x. unat x \<notin> page_span pp \<Longrightarrow> m' x = m x"
  shows "segs_ok e m' (h_segs (upd_page pp (\<lambda>_. pg') g))"
  unfolding segs_ok_def
proof (intro conjI allI impI)
  fix b sg assume "h_segs (upd_page pp (\<lambda>_. pg') g) b = Some sg"
  then show "seg_hdr_ok b sg" using upd_page_hdr segs_ok_hdr [OF ok] unfolding seg_hdr_ok_def by metis
next
  fix qq qg assume q: "get_page (upd_page pp (\<lambda>_. pg') g) qq = Some qg"
  show "page_wf e m' qq qg"
  proof (cases "qq = pp")
    case True
    then show ?thesis using q pp wf by simp
  next
    case False
    then have q': "get_page g qq = Some qg" using q by simp
    have ap: "page_span pp \<inter> page_span qq = {}" by (rule page_span_apart [OF lay ok pp q']) (use False in simp)
    have eq: "m' x = m x" if "unat x \<in> page_span qq" for x using that ap by (intro out) blast
    note w = segs_ok_wf [OF ok q'] and ps = page_start_at(2) [OF ok q']
    have "page_inv e m' qg" if "page_inv e m qg"
      by (rule page_inv_cong(1) [OF that]) (use eq ps in auto)
    then show ?thesis using w eq unfolding page_wf_def by auto
  qed
qed

lemma page_live_other:
  assumes "layout_ok e log (region e g)" "segs_ok e m (h_segs g)" "get_page g pp = Some pg"
    and "active (h_segs g) qq qg" "qq \<noteq> pp" and out: "\<And>x. unat x \<notin> page_span pp \<Longrightarrow> m' x = m x"
  shows "page_live m' qg = page_live m qg"
proof -
  note A = activeD [OF assms(2,4)]
  have "page_span pp \<inter> page_span qq = {}" by (rule page_span_apart [OF assms(1-3) A(1)]) (use assms(5) in simp)
  then show ?thesis
    using page_start_at(2) [OF assms(2) A(1)] by (intro page_inv_cong(2) [OF A(3)] out) blast
qed

lemma page_step_inv:
  assumes H: "heap_inv e g" and pp: "active (h_segs g) pp pg" and id: "same_id pg pg'" and I: "page_inv e m' pg'"
    and out: "\<And>x. unat x \<notin> page_span pp \<Longrightarrow> m' x = h_mem g x"
  shows "heap_inv e (upd_page pp (\<lambda>_. pg') (g\<lparr>h_mem := m'\<rparr>))"
proof -
  note h = heap_invD [OF H] and A = activeD [OF heap_invD(4) [OF H] pp] and S = same_idD [OF id]
  let ?g = "g\<lparr>h_mem := m'\<rparr>"
  have pp': "get_page ?g pp = Some pg" using A(1) by simp
  have lnk: "same_links pg pg'" by (rule same_id_links [OF id])
  have "page_wf e m' pp pg'" using A I S by (simp add: page_wf_def)
  then have "segs_ok e m' (h_segs (upd_page pp (\<lambda>_. pg') ?g))"
    using segs_ok_page [OF h(3,4) A(1) _ out] by (simp add: h_segs_upd_page fun_eq_iff) (simp add: upd_page_def upd_seg_def)
  moreover have "arena_ok (upd_page pp (\<lambda>_. pg') ?g) a" if "a < 4" for a
    by (rule arena_ok_upd_page [OF pp' lnk]) (use h(5) that in simp)
  moreover have "tld_ok (upd_page pp (\<lambda>_. pg') ?g) d" if "t_tld g t = Some d" for t d
    by (rule tld_ok_upd_page [OF pp' lnk S(9)]) (use h(7) that in simp)
  moreover have "owners_ok (upd_page pp (\<lambda>_. pg') ?g)"
    by (rule owners_ok_upd_page [OF pp' lnk S(9)]) (use h(8) in simp)
  moreover have "registry_ok (g_registry g) (h_segs (upd_page pp (\<lambda>_. pg') ?g))"
    using h(2) by (simp add: registry_ok_def)
  moreover have "base_ok (upd_page pp (\<lambda>_. pg') ?g)" using h(1) by (simp add: base_ok_def tables_ok_def)
  ultimately show ?thesis using h(3,6) by (simp add: heap_inv_def)
qed

definition other_blocks :: "mem \<Rightarrow> (addr \<Rightarrow> segment option) \<Rightarrow> page_ptr \<Rightarrow> (addr \<times> nat) set" where
  "other_blocks m segs pp = {(p, unat (pm_slot_size qg)) | p qq qg. active segs qq qg \<and> qq \<noteq> pp \<and> p \<in> page_live m qg}"

lemma slab_blocks_split:
  assumes "active segs pp pg"
  shows "slab_blocks m segs = (\<lambda>p. (p, unat (pm_slot_size pg))) ` page_live m pg \<union> other_blocks m segs pp"
proof (intro equalityI subsetI)
  fix x assume "x \<in> slab_blocks m segs"
  then obtain p qq qg where x: "x = (p, unat (pm_slot_size qg))" "active segs qq qg" "p \<in> page_live m qg"
    by (auto simp: slab_blocks_def)
  show "x \<in> (\<lambda>p. (p, unat (pm_slot_size pg))) ` page_live m pg \<union> other_blocks m segs pp"
  proof (cases "qq = pp")
    case True
    then have "qg = pg" using x(2) assms by (simp add: active_def)
    then show ?thesis using x by auto
  next
    case False
    then show ?thesis using x unfolding other_blocks_def by blast
  qed
next
  fix x assume "x \<in> (\<lambda>p. (p, unat (pm_slot_size pg))) ` page_live m pg \<union> other_blocks m segs pp"
  then show "x \<in> slab_blocks m segs" using assms unfolding slab_blocks_def other_blocks_def by blast
qed

text \<open>The start of a slot of one page is never the start of a block in another.\<close>

lemma other_blocks_apart:
  assumes H: "heap_inv e g" and pp: "active (h_segs g) pp pg" and p: "p \<in> all_slots pg"
    and b: "(s, n) \<in> other_blocks (h_mem g) (h_segs g) pp"
  shows "span p (unat (pm_slot_size pg)) \<inter> span s n = {}" "p \<noteq> s"
proof -
  note h = heap_invD [OF H] and A = activeD [OF heap_invD(4) [OF H] pp]
  obtain qq qg where q: "active (h_segs g) qq qg" "qq \<noteq> pp" "s \<in> page_live (h_mem g) qg" "n = unat (pm_slot_size qg)"
    using b by (auto simp: other_blocks_def)
  have "page_span pp \<inter> page_span qq = {}"
    by (rule page_span_apart [OF h(3,4) A(1) activeD(1) [OF h(4) q(1)]]) (use q(2) in simp)
  moreover have "span p (unat (pm_slot_size pg)) \<subseteq> page_span pp"
    using all_slots_facts(5) [OF page_invD(6) [OF A(3)] p] page_start_at(2) [OF h(4) A(1)] by simp
  moreover have "span s n \<subseteq> page_span qq" using slab_block_at(1) [OF h(4) q(1,3)] q(4) by simp
  ultimately show ap: "span p (unat (pm_slot_size pg)) \<inter> span s n = {}" by blast
  have "16 \<le> unat (pm_slot_size pg)" "16 \<le> n"
    using page_geomD(1) [OF page_invD(6) [OF A(3)]] page_geomD(1) [OF page_invD(6) [OF activeD(3) [OF h(4) q(1)]]] q(4) by auto
  then have "unat p \<in> span p (unat (pm_slot_size pg))" "unat s \<in> span s n" by auto
  then show "p \<noteq> s" using ap by blast
qed

lemma page_step_others:
  assumes H: "heap_inv e g" and pp: "active (h_segs g) pp pg"
    and out: "\<And>x. unat x \<notin> page_span pp \<Longrightarrow> m' x = h_mem g x"
  shows "other_blocks m' (h_segs (upd_page pp (\<lambda>_. pg') g)) pp = other_blocks (h_mem g) (h_segs g) pp"
proof -
  note h = heap_invD [OF H] and A = activeD [OF heap_invD(4) [OF H] pp]
  have "page_live m' qg = page_live (h_mem g) qg" if "active (h_segs g) qq qg" "qq \<noteq> pp" for qq qg
    by (rule page_live_other [OF h(3,4) A(1) that out])
  then show ?thesis unfolding other_blocks_def active_upd_page [OF A(1)] by (auto, blast+)
qed

section \<open>Slots come and go\<close>

lemma h_segs_upd_page_mem [simp]: "h_segs (upd_page pp f (g\<lparr>h_mem := m\<rparr>)) = h_segs (upd_page pp f g)"
  by (rule ext) (simp add: h_segs_upd_page)

lemma large_blocks_frame [simp]: "large_blocks (upd_page pp f g) = large_blocks g" "large_blocks (g\<lparr>h_mem := m\<rparr>) = large_blocks g"
  by (simp_all add: large_blocks_def)

lemma large_recs_frame [simp]: "large_recs (upd_page pp f g) = large_recs g" "large_recs (g\<lparr>h_mem := m\<rparr>) = large_recs g"
  by (simp_all add: large_recs_def)

lemma page_step_blocks:
  assumes H: "heap_inv e g" and pp: "active (h_segs g) pp pg" and id: "same_id pg pg'"
    and out: "\<forall>x. unat x \<notin> page_span pp \<longrightarrow> m' x = h_mem g x"
    and g': "g' = upd_page pp (\<lambda>_. pg') (g\<lparr>h_mem := m'\<rparr>)"
  shows "slabs g' = (\<lambda>p. (p, unat (pm_slot_size pg))) ` page_live m' pg' \<union> other_blocks (h_mem g) (h_segs g) pp"
    "slabs g = (\<lambda>p. (p, unat (pm_slot_size pg))) ` page_live (h_mem g) pg \<union> other_blocks (h_mem g) (h_segs g) pp"
    "large_blocks g' = large_blocks g" "large_recs g' = large_recs g"
proof -
  note A = activeD [OF heap_invD(4) [OF H] pp] and S = same_idD [OF id]
  have "active (h_segs (upd_page pp (\<lambda>_. pg') g)) pp pg'" using A(1,2) S(8) by (simp add: active_upd_page)
  from slab_blocks_split [OF this, of m']
  show "slabs g' = (\<lambda>p. (p, unat (pm_slot_size pg))) ` page_live m' pg' \<union> other_blocks (h_mem g) (h_segs g) pp"
    by (simp add: g' S(3) page_step_others [OF H pp out [rule_format]])
  show "slabs g = (\<lambda>p. (p, unat (pm_slot_size pg))) ` page_live (h_mem g) pg \<union> other_blocks (h_mem g) (h_segs g) pp"
    by (simp add: slab_blocks_split [OF pp])
  show "large_blocks g' = large_blocks g" "large_recs g' = large_recs g" by (simp_all add: g')
qed

text \<open>A slot of an active page lies apart from every block outside the page.\<close>

lemma slot_apart:
  assumes H: "heap_inv e g" and pp: "active (h_segs g) pp pg" and p: "p \<in> all_slots pg"
    and b: "(s, n) \<in> other_blocks (h_mem g) (h_segs g) pp \<union> large_blocks g"
  shows "span p (unat (pm_slot_size pg)) \<inter> span s n = {}" "p \<noteq> s"
proof -
  note h = heap_invD [OF H] and A = activeD [OF heap_invD(4) [OF H] pp]
  show ap: "span p (unat (pm_slot_size pg)) \<inter> span s n = {}"
  proof (cases "(s, n) \<in> large_blocks g")
    case True
    have "region e g (Seg (fst pp)) = span (fst pp) 4194304" using page_start_at(5) [OF h(4) A(1)] by auto
    moreover have "region e g (Seg (fst pp)) \<inter> region e g (Large s) = {}"
      using layout_disjoint [OF h(3), of "Seg (fst pp)" "Large s"] by blast
    moreover have "span p (unat (pm_slot_size pg)) \<subseteq> span (fst pp) 4194304"
      using all_slots_facts(5) [OF page_invD(6) [OF A(3)] p] page_start_at(2,4) [OF h(4) A(1)] by blast
    ultimately show ?thesis using large_block_region [OF True, of e] by blast
  next
    case False
    then show ?thesis using other_blocks_apart(1) [OF H pp p] b by blast
  qed
  have "(s, n) \<in> blocks g" using b slab_blocks_split [OF pp] by (auto simp: blocks_def)
  then have "0 < n" by (rule block_pos [OF H])
  then have "unat s \<in> span s n" by simp
  moreover have "unat p \<in> span p (unat (pm_slot_size pg))" using page_geomD(1) [OF page_invD(6) [OF A(3)]] by simp
  ultimately show "p \<noteq> s" using ap by blast
qed

text \<open>Bytes of the blocks survive a step that writes only links of free slots of one page.\<close>

lemma page_step_keeps:
  assumes H: "heap_inv e g" and pp: "active (h_segs g) pp pg" and w: "writes_links (h_mem g) m' F" and F: "F \<subseteq> all_slots pg"
    and b: "(s, n) \<in> blocks g" "s \<notin> F" and x: "unat x \<in> span s n"
  shows "m' x = h_mem g x"
proof -
  note h = heap_invD [OF H] and A = activeD [OF heap_invD(4) [OF H] pp]
  have geom: "page_geom pg" by (rule page_invD(6) [OF A(3)])
  show ?thesis
  proof (cases "(s, n) \<in> other_blocks (h_mem g) (h_segs g) pp \<union> large_blocks g")
    case True
    show ?thesis
    proof (rule ccontr)
      assume "m' x \<noteq> h_mem g x"
      then obtain f where f: "f \<in> F" "x - f < 8" using w by (auto simp: writes_links_def)
      then have sl: "f \<in> all_slots pg" using F by blast
      have "unat (x - f) < 8" using f(2) by (simp add: word_less_nat_alt)
      moreover have "unat x = unat f + unat (x - f)"
        using all_slots_facts(2) [OF geom sl] \<open>unat (x - f) < 8\<close> unat_add_small [of f "x - f"] by simp
      ultimately have "unat x \<in> span f (unat (pm_slot_size pg))" using page_geomD(1) [OF geom] by simp
      then show False using slot_apart(1) [OF H pp sl True] x by blast
    qed
  next
    case False
    then have sn: "s \<in> page_live (h_mem g) pg" "n = unat (pm_slot_size pg)"
      using b(1) slab_blocks_split [OF pp] by (auto simp: blocks_def)
    then have "s \<in> all_slots pg" using slab_block_at(2) [OF h(4) pp] by blast
    then show ?thesis using writes_links_slot [OF geom w F _ b(2)] x sn(2) by blast
  qed
qed

lemma writes_links_span:
  assumes "segs_ok e m segs" "active segs pp pg" "writes_links m m' F" "F \<subseteq> all_slots pg" "unat x \<notin> page_span pp"
  shows "m' x = m x"
proof (rule ccontr)
  note A = activeD [OF assms(1,2)]
  have geom: "page_geom pg" by (rule page_invD(6) [OF A(3)])
  assume "m' x \<noteq> m x"
  then obtain f where f: "f \<in> F" "x - f < 8" using assms(3) by (auto simp: writes_links_def)
  then have sl: "f \<in> all_slots pg" using assms(4) by blast
  have "unat (x - f) < 8" using f(2) by (simp add: word_less_nat_alt)
  moreover have "unat x = unat f + unat (x - f)"
    using all_slots_facts(2) [OF geom sl] \<open>unat (x - f) < 8\<close> unat_add_small [of f "x - f"] by simp
  ultimately have "unat x \<in> span f (unat (pm_slot_size pg))" using page_geomD(1) [OF geom] by simp
  then show False using all_slots_facts(5) [OF geom sl] page_start_at(2) [OF assms(1) A(1)] assms(5) by blast
qed

text \<open>The three kinds of page steps, with their effect on the blocks.\<close>

lemma page_step_add:
  assumes H: "heap_inv e g" and pp: "active (h_segs g) pp pg" and id: "same_id pg pg'" and I: "page_inv e m' pg'"
    and live: "page_live m' pg' = insert p (page_live (h_mem g) pg)" "p \<in> all_slots pg - page_live (h_mem g) pg"
    and w: "writes_links (h_mem g) m' (page_free (h_mem g) pg)"
    and g': "g' = upd_page pp (\<lambda>_. pg') (g\<lparr>h_mem := m'\<rparr>)"
  shows "heap_inv e g' \<and> adds g p (unat (pm_slot_size pg)) g'"
proof -
  note h = heap_invD [OF H] and A = activeD [OF heap_invD(4) [OF H] pp]
  note D = page_invD [OF A(3)]
  let ?n = "unat (pm_slot_size pg)"
  have F: "page_free (h_mem g) pg \<subseteq> all_slots pg" by (rule page_free_slots [OF D(1)])
  have out: "m' x = h_mem g x" if "unat x \<notin> page_span pp" for x by (rule writes_links_span [OF h(4) pp w F that])
  have out': "\<forall>x. unat x \<notin> page_span pp \<longrightarrow> m' x = h_mem g x" using out by blast
  note B = page_step_blocks [OF H pp id out' g']
  have inv: "heap_inv e g'" unfolding g' by (rule page_step_inv [OF H pp id I out])
  have bl: "blocks g = (\<lambda>p. (p, ?n)) ` page_live (h_mem g) pg \<union> (other_blocks (h_mem g) (h_segs g) pp \<union> large_blocks g)"
    unfolding blocks_def B(2) by blast
  have "blocks g' = insert (p, ?n) (blocks g)" "slabs g \<subseteq> slabs g'" "large_recs g \<subseteq> large_recs g'" unfolding blocks_def B live(1) by blast+
  moreover have "h_mem g' x = h_mem g x" if "(s, n) \<in> blocks g" "unat x \<in> span s n" for s n x
  proof -
    have "s \<notin> page_free (h_mem g) pg"
      using that(1) slot_apart(2) [OF H pp, of _ s n] F unfolding bl by (auto simp: page_live_def)
    then have "m' x = h_mem g x" using page_step_keeps [OF H pp w F that(1) _ that(2)] by blast
    then show ?thesis by (simp add: g')
  qed
  moreover have "span p ?n \<inter> span s n = {}" if "(s, n) \<in> blocks g" for s n
  proof (cases "(s, n) \<in> other_blocks (h_mem g) (h_segs g) pp \<union> large_blocks g")
    case True
    then show ?thesis using slot_apart(1) [OF H pp _ True] live(2) by blast
  next
    case False
    then have "s \<in> page_live (h_mem g) pg" "n = ?n" using that bl by auto
    then show ?thesis
      using all_slots_apart [OF D(6), of p s] slab_block_at(2) [OF h(4) pp] live(2) by blast
  qed
  moreover have "0 < ?n" using page_geomD(1) [OF D(6)] by simp
  moreover have "g_registry g' = g_registry g" by (simp add: g')
  ultimately show ?thesis using inv unfolding adds_def keeps_def by simp
qed

lemma page_step_quiet:
  assumes H: "heap_inv e g" and pp: "active (h_segs g) pp pg" and id: "same_id pg pg'" and I: "page_inv e m' pg'"
    and live: "page_live m' pg' = page_live (h_mem g) pg" and w: "writes_links (h_mem g) m' (page_free (h_mem g) pg)"
    and g': "g' = upd_page pp (\<lambda>_. pg') (g\<lparr>h_mem := m'\<rparr>)"
  shows "heap_inv e g' \<and> quiet g g'"
proof -
  note h = heap_invD [OF H] and A = activeD [OF heap_invD(4) [OF H] pp]
  note D = page_invD [OF A(3)]
  have F: "page_free (h_mem g) pg \<subseteq> all_slots pg" by (rule page_free_slots [OF D(1)])
  have out: "m' x = h_mem g x" if "unat x \<notin> page_span pp" for x by (rule writes_links_span [OF h(4) pp w F that])
  have out': "\<forall>x. unat x \<notin> page_span pp \<longrightarrow> m' x = h_mem g x" using out by blast
  note B = page_step_blocks [OF H pp id out' g']
  have inv: "heap_inv e g'" unfolding g' by (rule page_step_inv [OF H pp id I out])
  have bl: "blocks g = (\<lambda>p. (p, unat (pm_slot_size pg))) ` page_live (h_mem g) pg \<union> (other_blocks (h_mem g) (h_segs g) pp \<union> large_blocks g)"
    unfolding blocks_def B(2) by blast
  have "slabs g' = slabs g" "large_recs g' = large_recs g" unfolding B live(1) by blast+
  moreover have "h_mem g' x = h_mem g x" if "(s, n) \<in> blocks g" "unat x \<in> span s n" for s n x
  proof -
    have "s \<notin> page_free (h_mem g) pg"
      using that(1) slot_apart(2) [OF H pp, of _ s n] F unfolding bl by (auto simp: page_live_def)
    then have "m' x = h_mem g x" using page_step_keeps [OF H pp w F that(1) _ that(2)] by blast
    then show ?thesis by (simp add: g')
  qed
  moreover have "g_registry g' = g_registry g" by (simp add: g')
  ultimately show ?thesis using inv unfolding quiet_def keeps_def by simp
qed

lemma page_step_drop:
  assumes H: "heap_inv e g" and pp: "active (h_segs g) pp pg" and id: "same_id pg pg'" and I: "page_inv e m' pg'"
    and live: "page_live m' pg' = page_live (h_mem g) pg - {p}" "p \<in> page_live (h_mem g) pg"
    and w: "writes_links (h_mem g) m' {p}" and g': "g' = upd_page pp (\<lambda>_. pg') (g\<lparr>h_mem := m'\<rparr>)"
  shows "heap_inv e g' \<and> drops g p (unat (pm_slot_size pg)) g'"
proof -
  note h = heap_invD [OF H] and A = activeD [OF heap_invD(4) [OF H] pp]
  let ?n = "unat (pm_slot_size pg)"
  have F: "{p} \<subseteq> all_slots pg" using slab_block_at(2) [OF h(4) pp live(2)] by simp
  have out: "m' x = h_mem g x" if "unat x \<notin> page_span pp" for x by (rule writes_links_span [OF h(4) pp w F that])
  have out': "\<forall>x. unat x \<notin> page_span pp \<longrightarrow> m' x = h_mem g x" using out by blast
  note B = page_step_blocks [OF H pp id out' g']
  have inv: "heap_inv e g'" unfolding g' by (rule page_step_inv [OF H pp id I out])
  have bl: "blocks g = (\<lambda>p. (p, ?n)) ` page_live (h_mem g) pg \<union> (other_blocks (h_mem g) (h_segs g) pp \<union> large_blocks g)"
    unfolding blocks_def B(2) by blast
  have no: "(p, n) \<notin> other_blocks (h_mem g) (h_segs g) pp \<union> large_blocks g" for n
    using slot_apart(2) [OF H pp, of p p n] F by blast
  have "slabs g - {(p, ?n)} \<subseteq> slabs g'" "{r \<in> large_recs g. fst r \<noteq> p} \<subseteq> large_recs g'" unfolding B live(1) by blast+
  moreover have eq: "blocks g' = blocks g - {(p, ?n)}" unfolding blocks_def B live(1) using no by blast
  moreover have "h_mem g' x = h_mem g x" if "(s, n) \<in> blocks g'" "unat x \<in> span s n" for s n x
  proof -
    have b: "(s, n) \<in> blocks g" "(s, n) \<noteq> (p, ?n)" using that(1) eq by auto
    have "s \<noteq> p"
    proof
      assume "s = p"
      then have "n = ?n" using b(1) no [of n] unfolding bl by auto
      then show False using b(2) \<open>s = p\<close> by simp
    qed
    then have "m' x = h_mem g x" using page_step_keeps [OF H pp w F b(1) _ that(2)] by blast
    then show ?thesis by (simp add: g')
  qed
  moreover have "(p, ?n) \<in> blocks g" unfolding bl using live(2) by blast
  moreover have "g_registry g' = g_registry g" by (simp add: g')
  ultimately show ?thesis using inv unfolding drops_def by simp
qed

end
