(* ===== verification/Heap_Maps.thy ===== *)
theory Heap_Maps
  imports Heap_Steps
begin

text \<open>
  Mappings come and go: the record of a thread, a large block, a segment. Each has its own region, so the rest of
  the heap does not notice.
\<close>

section \<open>New mappings\<close>

text \<open>Memory may change wherever nothing was mapped.\<close>

lemma mapped_page:
  assumes H: "heap_inv e g" and pp: "get_page g pp = Some pg" and x: "unat x \<in> page_span pp"
  shows "mapped (h_log g) (unat x)"
proof -
  note h = heap_invD [OF H]
  have "region e g (Seg (fst pp)) = span (fst pp) 4194304" using page_start_at(5) [OF h(4) pp] by auto
  then show ?thesis using layout_mapped [OF h(3), of _ "Seg (fst pp)"] page_start_at(4) [OF h(4) pp] x by blast
qed

lemma fresh_mem_live:
  assumes H: "heap_inv e g" and m: "\<forall>x. mapped (h_log g) (unat x) \<longrightarrow> m' x = h_mem g x" and pp: "active (h_segs g) pp pg"
  shows "page_live m' pg = page_live (h_mem g) pg" "page_inv e m' pg"
proof -
  note h = heap_invD [OF H] and A = activeD [OF heap_invD(4) [OF H] pp]
  have eq: "m' x = h_mem g x" if "unat x \<in> span (page_start pg) 65536" for x
    using that page_start_at(2) [OF h(4) A(1)] mapped_page [OF H A(1)] m by blast
  show "page_live m' pg = page_live (h_mem g) pg" "page_inv e m' pg"
    using page_inv_cong [OF A(3), of m'] eq by blast+
qed

lemma fresh_mem_segs:
  assumes H: "heap_inv e g" and m: "\<forall>x. mapped (h_log g) (unat x) \<longrightarrow> m' x = h_mem g x"
  shows "segs_ok e m' (h_segs g)" "slab_blocks m' (h_segs g) = slab_blocks (h_mem g) (h_segs g)"
proof -
  note h = heap_invD [OF H]
  show "slab_blocks m' (h_segs g) = slab_blocks (h_mem g) (h_segs g)"
    unfolding slab_blocks_def using fresh_mem_live(1) [OF H m] by (auto, blast+)
  have "page_wf e m' pp pg" if pp: "get_page g pp = Some pg" for pp pg
  proof -
    have "page_inv e m' pg" if "pm_state pg = PAGE_ACTIVE" using fresh_mem_live(2) [OF H m] pp that by (simp add: active_def)
    moreover have "m' x = h_mem g x" if "unat x \<in> page_span pp" for x using mapped_page [OF H pp that] m by blast
    ultimately show ?thesis using segs_ok_wf [OF h(4) pp] unfolding page_wf_def by auto
  qed
  then show "segs_ok e m' (h_segs g)" using segs_ok_hdr [OF h(4)] unfolding segs_ok_def by blast
qed

lemma fresh_mem_keeps:
  assumes H: "heap_inv e g" and m: "\<forall>x. mapped (h_log g) (unat x) \<longrightarrow> h_mem g' x = h_mem g x"
    and r: "reg_set (g_registry g) \<subseteq> reg_set (g_registry g')"
  shows "keeps g g'"
  using m r block_mapped [OF H] unfolding keeps_def by blast

text \<open>The record of a thread.\<close>

lemma word_less_Suc:
  assumes "c < UINT32_MAX"
  shows "x < c \<Longrightarrow> x < c + 1" "c < c + 1"
proof -
  have "unat (c + 1) = unat c + 1"
    using assms by (subst unat_add_small) (auto simp: config_simps word_less_nat_alt)
  then show "x < c \<Longrightarrow> x < c + 1" "c < c + 1" by (auto simp: word_less_nat_alt)
qed

lemma new_tld_owners:
  assumes ok: "owners_ok g" and tl: "\<And>t' d'. t_tld g t' = Some d' \<Longrightarrow> tld_ok g d'" and c: "t_thread_id_counter g < UINT32_MAX"
    and segs: "h_segs g' = h_segs g" and tld: "t_tld g' = (t_tld g)(t := Some d)" and id: "tl_thread_id d = t_thread_id_counter g"
    and cnt: "t_thread_id_counter g' = t_thread_id_counter g + 1"
  shows "owners_ok g'"
  unfolding owners_ok_def
proof (intro conjI allI impI)
  note O = owners_okD [OF ok]
  fix pp pg assume "active (h_segs g') pp pg"
  then have a: "active (h_segs g) pp pg" by (simp add: segs)
  show "pm_owner_tid pg = UINT32_MAX \<or> pm_owner_tid pg < t_thread_id_counter g'"
    using O(1) [OF a] word_less_Suc(1) [OF c] cnt by auto
  show "b < 4" if "pm_arena pg = Some b" for b by (rule O(2) [OF a that])
  show "tl_arena d' \<noteq> None" if "t_tld g' t' = Some d'" "pm_owner_tid pg = tl_thread_id d'" for t' d'
  proof (cases "t' = t")
    case True
    then have "pm_owner_tid pg = t_thread_id_counter g" using that tld id by simp
    then show ?thesis using O(1) [OF a] c by auto
  next
    case False
    then show ?thesis using O(3) [OF a] that tld by simp
  qed
next
  note O = owners_okD [OF ok]
  fix t1 t2 d1 d2 assume T: "t_tld g' t1 = Some d1" "t_tld g' t2 = Some d2" "t1 \<noteq> t2"
  have old: "tl_thread_id d' \<noteq> t_thread_id_counter g" if "t_tld g t' = Some d'" for t' d'
    using tld_okD(4) [OF tl [OF that]] by auto
  show "tl_thread_id d1 \<noteq> tl_thread_id d2"
    using T O(4) old [of t1 d1] old [of t2 d2] id unfolding tld by (auto split: if_splits)
qed

lemma new_tld_inv:
  assumes H: "heap_inv e g" and c: "t_thread_id_counter g < UINT32_MAX" and none: "t_tld g t = None"
    and f: "fresh_range e g p (unat (page_size e)) g1" and m: "same_meta g g1" and pos: "0 < unat (page_size e)"
    and g': "g' = g1\<lparr>t_tld := (t_tld g1)(t := Some ((zero_tld p)\<lparr>tl_thread_id := t_thread_id_counter g1, tl_arena := None\<rparr>)),
                  t_thread_id_counter := t_thread_id_counter g1 + 1\<rparr>"
  shows "heap_inv e g' \<and> quiet g g'"
proof -
  note h = heap_invD [OF H] and F = fresh_rangeD [OF f] and M = same_metaD [OF m]
  define d where "d = (zero_tld p)\<lparr>tl_thread_id := t_thread_id_counter g, tl_arena := None\<rparr>"
  have d: "tl_self d = p" "tl_bin_page d = replicate 75 None" "tl_arena d = None" "tl_thread_id d = t_thread_id_counter g"
    by (simp_all add: d_def zero_tld_def config_simps)
  have fld: "h_segs g' = h_segs g" "g_arenas g' = g_arenas g" "g_registry g' = g_registry g" "h_larges g' = h_larges g"
    "g_large_list g' = g_large_list g" "t_tld g' = (t_tld g)(t := Some d)" "t_thread_id_counter g' = t_thread_id_counter g + 1"
    "h_mem g' = h_mem g1" "h_log g' = h_log g1" "g_initialized g' = g_initialized g" "g_bin_size g' = g_bin_size g"
    "g_size_to_bin_small g' = g_size_to_bin_small g" "g_arena_count g' = g_arena_count g"
    by (simp_all add: g' M d_def)
  have mm: "\<forall>x. mapped (h_log g) (unat x) \<longrightarrow> h_mem g' x = h_mem g x" using F(7) fld(8) by simp
  note fs = fresh_mem_segs [OF H mm]
  have reg: "region e g' = (region e g)(Tld t := span p (unat (page_size e)))"
  proof
    fix x show "region e g' x = ((region e g)(Tld t := span p (unat (page_size e)))) x"
      by (cases x) (auto simp: fld d split: option.splits)
  qed
  have "layout_ok e (h_log g') (region e g')"
    unfolding reg fld(9) by (rule layout_add [OF h(3) f]) (simp add: none)
  moreover have "base_ok g'" using h(1) by (simp add: base_ok_def tables_ok_def fld)
  moreover have "arena_ok g' a = arena_ok g a" for a
    by (simp add: arena_ok_def bin_head_def bin_nxt_def [abs_def] bin_prv_def [abs_def] bin_node_def [abs_def] fld)
  moreover have "large_ok g'" using large_ok_cong [of g' g] h(6) fld by simp
  moreover have "tld_ok g' d'" if t': "t_tld g' t' = Some d'" for t' d'
  proof (cases "t' = t")
    case True
    then have "d' = d" using t' fld(6) by simp
    then show ?thesis using d F(1,2) pos word_less_Suc(2) [OF c] by (simp add: tld_ok_def fld)
  next
    case False
    then have "tld_ok g d'" using t' fld(6) h(7) by simp
    then show ?thesis using word_less_Suc(1) [OF c] unfolding tld_ok_def fld(1,7) by blast
  qed
  moreover have "owners_ok g'" by (rule new_tld_owners [OF h(8) h(7) c fld(1) fld(6) d(4) fld(7)])
  ultimately have "heap_inv e g'" using h(2,5) fs(1) by (simp add: heap_inv_def fld)
  moreover have "quiet g g'"
    using fs(2) fresh_mem_keeps [OF H mm] by (simp add: quiet_def blocks_def large_recs_def fld)
  ultimately show ?thesis by blast
qed

text \<open>
  A thread can get a record while fewer than \<open>2 ^ 32 - 1\<close> identifiers are in use.
\<close>

definition ids_ok :: "thread \<Rightarrow> gstate \<Rightarrow> bool" where
  "ids_ok t g \<longleftrightarrow> t_tld g t \<noteq> None \<or> t_thread_id_counter g < UINT32_MAX"

definition tld_frame :: "gstate \<Rightarrow> gstate \<Rightarrow> bool" where
  "tld_frame g g' \<longleftrightarrow> g' = g\<lparr>h_mem := h_mem g', h_log := h_log g', g_mmap_bytes := g_mmap_bytes g', t_tld := t_tld g',
     t_thread_id_counter := t_thread_id_counter g'\<rparr>"

lemma tld_frameD:
  assumes "tld_frame g g'"
  shows "h_segs g' = h_segs g" "h_larges g' = h_larges g" "g_arenas g' = g_arenas g" "g_registry g' = g_registry g"
    "g_bin_size g' = g_bin_size g" "g_size_to_bin_small g' = g_size_to_bin_small g" "g_arena_next g' = g_arena_next g"
    "g_large_lock g' = g_large_lock g" "g_initialized g' = g_initialized g" "g_arena_count g' = g_arena_count g"
    "g_large_list g' = g_large_list g" "t_errno g' = t_errno g"
  by (subst assms [unfolded tld_frame_def], simp)+

lemma tld_get_ok:
  assumes e: "env_ok e" and H: "heap_inv e g" and i: "ids_ok t g" and r: "tld_get e t g = (p, g')"
  shows "heap_inv e g' \<and> quiet g g' \<and> tld_frame g g' \<and> (\<forall>x. mapped (h_log g) (unat x) \<longrightarrow> h_mem g' x = h_mem g x) \<and>
    (p \<noteq> 0 \<longleftrightarrow> t_tld g' t \<noteq> None) \<and> (t_tld g t \<noteq> None \<or> t_tld g' t = None \<longrightarrow> g' = g) \<and>
    (t_tld g t = None \<longrightarrow> Option.bind (t_tld g' t) tl_arena = None)"
proof (cases "t_tld g t")
  case (Some d)
  then show ?thesis using r H tld_okD(1) [OF heap_invD(7) [OF H Some]] by (auto simp: tld_get_def tld_frame_def)
next
  case None
  obtain k where k: "12 \<le> k" "k \<le> 16" "page_size e = 2 ^ k" using env_ok_page [OF e] by blast
  obtain q g1 where mm: "os_mmap_aligned e (page_size e) (2 ^ k) g = (q, g1)" by fastforce
  have r': "(p, g') = (if q = 0 then (0, g1) else (q, g1\<lparr>t_tld := (t_tld g1)(t := Some ((zero_tld q)\<lparr>tl_thread_id := t_thread_id_counter g1, tl_arena := None\<rparr>)),
      t_thread_id_counter := t_thread_id_counter g1 + 1\<rparr>))"
    using r None mm base_okD(1) [OF heap_invD(1) [OF H]] by (simp add: tld_get_def malloc_is_initialized_def os_page_size_def k(3))
  have up: "unat (page_size e) = 2 ^ k" using k by (simp add: unat_pow2)
  have "(2::nat) ^ k \<le> 2 ^ 16" using k by (intro power_increasing) auto
  then have sz: "unat (page_size e) + 2 ^ k \<le> 2 ^ 64" by (simp add: up)
  have "k < 64" using k by simp
  from os_mmap_aligned_fresh [OF e this sz mm]
  consider "q = 0" "g1 = g" | "fresh_range e g q (unat (page_size e)) g1" by (elim disjE conjE) auto
  then show ?thesis
  proof cases
    case 1
    then show ?thesis using r' None H by (simp add: tld_frame_def)
  next
    case 2
    have q: "q \<noteq> 0" by (rule fresh_rangeD(1) [OF 2])
    have m: "same_meta g g1" by (rule same_meta_os_mmap_aligned [OF mm])
    have g': "p = q" "g' = g1\<lparr>t_tld := (t_tld g1)(t := Some ((zero_tld q)\<lparr>tl_thread_id := t_thread_id_counter g1, tl_arena := None\<rparr>)),
        t_thread_id_counter := t_thread_id_counter g1 + 1\<rparr>" using r' q by simp_all
    have "t_thread_id_counter g < UINT32_MAX" using i None by (simp add: ids_ok_def)
    from new_tld_inv [OF H this None 2 m _ g'(2)] have I: "heap_inv e g' \<and> quiet g g'" by (simp add: up)
    have "tld_frame g g'" using m unfolding g'(2) same_meta_def tld_frame_def by (cases g; cases g1) simp
    then show ?thesis using I q fresh_rangeD(7) [OF 2] None by (simp add: g')
  qed
qed

section \<open>Large blocks\<close>

lemma large_frame_inv:
  assumes H: "heap_inv e g" and f: "large_frame g g'" and m: "\<forall>x. mapped (h_log g) (unat x) \<longrightarrow> h_mem g' x = h_mem g x"
    and ok: "large_ok g'" and lay: "layout_ok e (h_log g') (region e g')"
  shows "heap_inv e g'" "slabs g' = slabs g"
proof -
  note h = heap_invD [OF H] and F = large_frameD [OF f] and fs = fresh_mem_segs [OF H m]
  have "base_ok g'" using h(1) by (simp add: base_ok_def tables_ok_def F)
  moreover have "arena_ok g' a = arena_ok g a" for a
    by (simp add: arena_ok_def bin_head_def bin_nxt_def [abs_def] bin_prv_def [abs_def] bin_node_def [abs_def] F)
  moreover have "tld_ok g' d = tld_ok g d" for d by (simp add: tld_ok_def F)
  moreover have "owners_ok g' = owners_ok g" by (simp add: owners_ok_def F)
  ultimately show "heap_inv e g'" using h(2,5,7,8) fs(1) ok lay by (simp add: heap_inv_def F)
  show "slabs g' = slabs g" using fs(2) by (simp add: F)
qed

lemma large_blocks_but:
  assumes "\<forall>c. c \<noteq> b \<longrightarrow> map_option la_core (h_larges g' c) = map_option la_core (h_larges g c)"
  shows "{x \<in> large_blocks g'. fst x \<noteq> b} = {x \<in> large_blocks g. fst x \<noteq> b}"
    "{x \<in> large_recs g'. fst x \<noteq> b} = {x \<in> large_recs g. fst x \<noteq> b}"
proof -
  have "(c, n, u) \<in> large_recs g' \<longleftrightarrow> (c, n, u) \<in> large_recs g" if "c \<noteq> b" for c n u
    using assms [rule_format, OF that] by (cases "h_larges g c"; cases "h_larges g' c") (auto simp: large_recs_def la_core_def)
  then show "{x \<in> large_recs g'. fst x \<noteq> b} = {x \<in> large_recs g. fst x \<noteq> b}" by auto
  have "(c, n) \<in> large_blocks g' \<longleftrightarrow> (c, n) \<in> large_blocks g" if "c \<noteq> b" for c n
    using assms [rule_format, OF that] by (cases "h_larges g c"; cases "h_larges g' c") (auto simp: large_blocks_def la_core_def)
  then show "{x \<in> large_blocks g'. fst x \<noteq> b} = {x \<in> large_blocks g. fst x \<noteq> b}" by auto
qed

lemma large_add_inv:
  assumes H: "heap_inv e g" and A: "large_added e g b p sz g'" and ok: "large_ok g'" and lay: "layout_ok e (h_log g') (region e g')"
    and l: "h_larges g' b = Some l"
  shows "heap_inv e g'" "adds g b (unat (la_size l)) g'"
proof -
  have a: "h_larges g b = None" "fresh_range e g b (unat (la_size l)) g'" "large_frame g g'"
    "\<forall>c. c \<noteq> b \<longrightarrow> map_option la_core (h_larges g' c) = map_option la_core (h_larges g c)"
    using A l unfolding large_added_def by auto
  note f = fresh_rangeD [OF a(2)]
  have m: "\<forall>x. mapped (h_log g) (unat x) \<longrightarrow> h_mem g' x = h_mem g x" using f(7) by blast
  note F = large_frame_inv [OF H a(3) m ok lay]
  show "heap_inv e g'" by (rule F(1))
  have "large_blocks g' = insert (b, unat (la_size l)) {x \<in> large_blocks g'. fst x \<noteq> b}"
    "large_blocks g = {x \<in> large_blocks g. fst x \<noteq> b}" using l a(1) by (auto simp: large_blocks_def)
  then have "large_blocks g' = insert (b, unat (la_size l)) (large_blocks g)" using large_blocks_but(1) [OF a(4)] by simp
  then have "blocks g' = insert (b, unat (la_size l)) (blocks g)" "slabs g \<subseteq> slabs g'"
    unfolding blocks_def F(2) by blast+
  moreover have "large_recs g = {x \<in> large_recs g. fst x \<noteq> b}" using a(1) by (auto simp: large_recs_def)
  then have "large_recs g \<subseteq> large_recs g'" using large_blocks_but(2) [OF a(4)] by blast
  moreover have "span b (unat (la_size l)) \<inter> span s n = {}" if "(s, n) \<in> blocks g" for s n
    using f(4) block_mapped [OF H that] by blast
  ultimately show "adds g b (unat (la_size l)) g'"
    using fresh_mem_keeps [OF H m] large_frameD(4) [OF a(3)] large_okD(3) [OF ok l] unfolding adds_def by simp
qed

lemma large_remove_inv:
  assumes H: "heap_inv e g" and R: "large_removed e g b g'" and ok: "large_ok g'" and lay: "layout_ok e (h_log g') (region e g')"
    and l: "h_larges g b = Some l"
  shows "heap_inv e g'" "drops g b (unat (la_size l)) g'"
proof -
  have a: "h_larges g' b = None" "large_frame g g'" "h_mem g' = h_mem g"
    "\<forall>c. c \<noteq> b \<longrightarrow> map_option la_core (h_larges g' c) = map_option la_core (h_larges g c)"
    using R unfolding large_removed_def by auto
  note F = large_frame_inv [OF H a(2) _ ok lay]
  show "heap_inv e g'" using F(1) a(3) by simp
  have L: "large_blocks g = insert (b, unat (la_size l)) {x \<in> large_blocks g. fst x \<noteq> b}"
    "large_blocks g' = {x \<in> large_blocks g'. fst x \<noteq> b}" using l a(1) by (auto simp: large_blocks_def)
  have lb: "(b, unat (la_size l)) \<in> large_blocks g" using l by (auto simp: large_blocks_def)
  have ns: "(b, unat (la_size l)) \<notin> slab_blocks (h_mem g) (h_segs g)"
  proof
    assume s: "(b, unat (la_size l)) \<in> slab_blocks (h_mem g) (h_segs g)"
    obtain c where c: "span b (unat (la_size l)) \<subseteq> region e g (Seg c)" using slab_block_region [OF H s] by blast
    have "unat b \<in> span b (unat (la_size l))" using large_okD(3) [OF heap_invD(6) [OF H] l] by simp
    then show False using c layout_disjoint [OF heap_invD(3) [OF H], of "Seg c" "Large b"] large_block_region [OF lb, of e] by blast
  qed
  have "(b, unat (la_size l)) \<notin> {x \<in> large_blocks g. fst x \<noteq> b}" by simp
  then have lg: "large_blocks g' = large_blocks g - {(b, unat (la_size l))}" using L large_blocks_but(1) [OF a(4)] by (metis Diff_insert_absorb)
  have "slabs g' = slabs g" using F(2) a(3) by simp
  moreover have "{x \<in> large_recs g. fst x \<noteq> b} \<subseteq> large_recs g'" using large_blocks_but(2) [OF a(4)] by blast
  ultimately show "drops g b (unat (la_size l)) g'" using lb lg ns a(3) large_frameD(4) [OF a(2)] by (auto simp: drops_def blocks_def)
qed

end
