(* ===== verification/Segment_Correct.thy ===== *)
theory Segment_Correct
  imports Heap_Maps
begin

text \<open>
  Segments: a new one joins the heap and its arena's list, and an unused page of a segment is put to
  use.
\<close>

section \<open>A new segment\<close>

lemma registry_add:
  assumes R: "registry_ok r segs" and b: "b \<noteq> 0" "segs b = None"
  shows "registry_ok (segment_register b r) (segs(b := Some sg))"
proof -
  have r: "reg_ok r" "finite (dom segs)" "reg_set r \<subseteq> dom segs" "dom segs = reg_set r \<or> card (reg_set r) = 256"
    using R by (auto simp: registry_ok_def)
  have nb: "b \<notin> reg_set r" using r(3) b(2) by auto
  note ok = register_ok [OF r(1) b(1)]
  have le: "card (reg_set r) \<le> 256"
    using card_mono [of "set r" "reg_set r"] card_length [of r] reg_ok_length [OF r(1)] by (simp add: reg_set_def)
  show ?thesis
  proof (cases "card (reg_set r) = 256")
    case True
    then have "segment_register b r = r" using register_cases [OF r(1) b(1)] full_table [OF r(1)]
      by (metis nth_mem probe_slot_less reg_ok_length [OF r(1)])
    then show ?thesis using r True by (auto simp: registry_ok_def)
  next
    case False
    then have "card (insert b (reg_set r)) \<le> 256" using le nb reg_set_finite [of r] by simp
    then have "reg_set (segment_register b r) = insert b (reg_set r)"
      using register_elems [OF r(1) b(1)] room_or_member [OF r(1) b(1)] by blast
    then show ?thesis using r False ok by (auto simp: registry_ok_def)
  qed
qed

lemma register_mono:
  assumes "reg_ok r" "b \<noteq> 0"
  shows "reg_set r \<subseteq> reg_set (segment_register b r)"
proof (cases "0 \<in> set r \<or> b \<in> set r")
  case True
  then show ?thesis using register_elems [OF assms] by blast
next
  case False
  show ?thesis
  proof (rule register_cases [OF assms])
    fix d assume d: "d < 256" "r ! probe_slot (seg_hash b) d = 0"
    have "probe_slot (seg_hash b) d < length r" using assms(1) by (simp add: reg_ok_length probe_slot_less)
    then have "0 \<in> set r" using nth_mem d(2) by metis
    then show ?thesis using False by blast
  qed simp_all
qed

lemma pg_at_fresh:
  assumes "segs b = None"
  shows "pg_at (segs(b := Some (fresh_segment b (Some a)))) pp =
    (if fst pp = b then if snd pp < 64 then Some (if snd pp = 0 then (fresh_page b (Some a) 0)\<lparr>pm_state := PAGE_FULL\<rparr>
       else fresh_page b (Some a) (snd pp)) else None else pg_at segs pp)"
  by (auto simp: pg_at_def fresh_segment_def config_simps nth_list_update)

lemma active_fresh:
  assumes "segs b = None"
  shows "active (segs(b := Some (fresh_segment b (Some a)))) pp pg \<longleftrightarrow> active segs pp pg"
  using assms by (auto simp: active_def pg_at_fresh [of segs b a pp] fresh_page_def) (auto simp: pg_at_def)

lemma seg_path_new: "seg_path a segs h bs \<Longrightarrow> segs b = None \<Longrightarrow> seg_path a (segs(b := x)) h bs"
  by (induction bs arbitrary: h) auto

lemma seg_path_dom: "seg_path a segs h bs \<Longrightarrow> c \<in> set bs \<Longrightarrow> \<exists>sg. segs c = Some sg \<and> sg_arena sg = Some a"
  by (induction bs arbitrary: h) auto

lemma dll_bins:
  assumes d: "dll (bin_head a bin g) (bin_nxt g) (bin_prv g) (bin_node a bin g) xs"
    and hd: "bin_head a bin g' = bin_head a bin g"
    and eq: "\<And>pp pg. pp \<in> set xs \<Longrightarrow> active (h_segs g) pp pg \<Longrightarrow> active (h_segs g') pp pg"
    and len: "length (g_arenas g') = length (g_arenas g)" "length (ar_bins (g_arenas g' ! a)) = length (ar_bins (g_arenas g ! a))"
  shows "dll (bin_head a bin g') (bin_nxt g') (bin_prv g') (bin_node a bin g') xs"
  unfolding hd
proof (rule dll_cong [OF d])
  fix pp assume pp: "pp \<in> set xs"
  then have n: "bin_node a bin g pp" using d by (simp add: dll_def)
  then obtain pg where a: "active (h_segs g) pp pg" by (auto simp: bin_node_def)
  note a' = eq [OF pp a]
  show "bin_nxt g' pp = bin_nxt g pp" "bin_prv g' pp = bin_prv g pp"
    using a a' by (simp_all add: bin_nxt_def bin_prv_def active_def)
  show "bin_node a bin g' pp" using n a a' len by (auto simp: bin_node_def active_def)
qed

text \<open>A step that touches segments, their pages and the lists of the arenas only.\<close>

definition seg_frame :: "gstate \<Rightarrow> gstate \<Rightarrow> bool" where
  "seg_frame g g' \<longleftrightarrow> g' = g\<lparr>h_segs := h_segs g', h_mem := h_mem g', h_log := h_log g', g_mmap_bytes := g_mmap_bytes g',
     g_registry := g_registry g', g_arenas := g_arenas g'\<rparr>"

lemma seg_frameD:
  assumes "seg_frame g g'"
  shows "h_larges g' = h_larges g" "t_tld g' = t_tld g" "g_bin_size g' = g_bin_size g"
    "g_size_to_bin_small g' = g_size_to_bin_small g" "g_arena_next g' = g_arena_next g"
    "g_large_lock g' = g_large_lock g" "g_initialized g' = g_initialized g" "g_arena_count g' = g_arena_count g"
    "t_thread_id_counter g' = t_thread_id_counter g" "g_large_list g' = g_large_list g" "t_errno g' = t_errno g"
  by (subst assms [unfolded seg_frame_def], simp)+

lemma seg_frame_refl [simp]: "seg_frame g g"
  by (simp add: seg_frame_def)

lemma seg_frame_trans: "seg_frame a b \<Longrightarrow> seg_frame b c \<Longrightarrow> seg_frame a c"
  by (cases a; cases b; cases c) (simp add: seg_frame_def)

lemma seg_frame_upds [simp]:
  "seg_frame g (upd_page pp f g)" "seg_frame g (upd_seg b h g)" "seg_frame g (upd_arena a k g)"
  by (simp_all add: seg_frame_def upd_page_def upd_seg_def upd_arena_def)

lemma no_owner_id:
  assumes "heap_inv e g" "t_tld g t = Some d"
  shows "tl_thread_id d \<noteq> UINT32_MAX"
proof
  assume "tl_thread_id d = UINT32_MAX"
  then have "UINT32_MAX < t_thread_id_counter g" using tld_okD(4) [OF heap_invD(7) [OF assms]] by simp
  moreover have "unat (t_thread_id_counter g) < 2 ^ 32" using unsigned_less [of "t_thread_id_counter g"] by simp
  ultimately show False by (simp add: word_less_nat_alt UINT32_MAX_def)
qed

lemma seg_step_inv:
  assumes H: "heap_inv e g" and f: "seg_frame g g'"
    and len: "length (g_arenas g') = 64" "\<And>a. a < 64 \<Longrightarrow> length (ar_bins (g_arenas g' ! a)) = 75"
    and reg: "registry_ok (g_registry g') (h_segs g')" and lay: "layout_ok e (h_log g') (region e g')"
    and segs: "segs_ok e (h_mem g') (h_segs g')" and ar: "\<And>a. a < 4 \<Longrightarrow> arena_ok g' a"
    and old: "\<And>pp pg. active (h_segs g) pp pg \<Longrightarrow>
        \<exists>pg'. active (h_segs g') pp pg' \<and> pm_bin_idx pg' = pm_bin_idx pg \<and> pm_owner_tid pg' = pm_owner_tid pg"
    and new: "\<And>pp pg'. active (h_segs g') pp pg' \<Longrightarrow>
        (\<exists>pg. active (h_segs g) pp pg \<and> pm_owner_tid pg' = pm_owner_tid pg \<and> pm_arena pg' = pm_arena pg) \<or>
        pm_owner_tid pg' = UINT32_MAX \<and> (\<exists>a < 4. pm_arena pg' = Some a)"
  shows "heap_inv e g'"
proof -
  note h = heap_invD [OF H] and F = seg_frameD [OF f] and O = owners_okD [OF heap_invD(8) [OF H]]
  have "base_ok g'" using h(1) len by (simp add: base_ok_def tables_ok_def F)
  moreover have "large_ok g'" using large_ok_cong [of g' g] h(6) F by simp
  moreover have "tld_ok g' d" if "t_tld g t = Some d" for t d
    using tld_okD [OF h(7) [OF that]] old unfolding tld_ok_def F by metis
  moreover have "owners_ok g'"
    unfolding owners_ok_def F
  proof (intro conjI allI impI)
    fix pp pg' assume a: "active (h_segs g') pp pg'"
    note n = new [OF a]
    show "pm_owner_tid pg' = UINT32_MAX \<or> pm_owner_tid pg' < t_thread_id_counter g"  using n O(1) by metis
    show "b < 4" if "pm_arena pg' = Some b" for b using n O(2) that by (metis option.inject)
    show "tl_arena d \<noteq> None" if "t_tld g t = Some d" "pm_owner_tid pg' = tl_thread_id d" for t d
      using n O(3) no_owner_id [OF H that(1)] that by metis
  qed (rule O(4))
  ultimately show ?thesis using reg lay segs ar by (simp add: heap_inv_def F)
qed

lemma new_segment_inv:
  assumes H: "heap_inv e g" and f: "fresh_range e g b 4194304 g1" and m: "same_meta g g1" and al: "unat b mod 4194304 = 0"
    and g': "g' = g1\<lparr>h_segs := (h_segs g1)(b := Some (fresh_segment b (Some a))), g_registry := segment_register b (g_registry g1)\<rparr>"
  shows "heap_inv e g' \<and> quiet g g' \<and> seg_frame g g' \<and> h_segs g b = None"
proof -
  note h = heap_invD [OF H] and F = fresh_rangeD [OF f] and M = same_metaD [OF m] and B = base_okD [OF heap_invD(1) [OF H]]
  have none: "h_segs g b = None" by (rule fresh_not_seg [OF h(3) f]) simp
  have fld: "h_segs g' = (h_segs g)(b := Some (fresh_segment b (Some a)))" "g_arenas g' = g_arenas g"
    "g_registry g' = segment_register b (g_registry g)" "h_mem g' = h_mem g1" "h_log g' = h_log g1"
    by (simp_all add: g' M)
  have fr: "seg_frame g g'" using m unfolding g' same_meta_def seg_frame_def by (cases g; cases g1) simp
  have mm: "\<forall>x. mapped (h_log g) (unat x) \<longrightarrow> h_mem g' x = h_mem g x" using F(7) fld(4) by simp
  note fs = fresh_mem_segs [OF H mm]
  have act: "active (h_segs g') = active (h_segs g)"
    using active_fresh [of "h_segs g" b a, OF none] by (auto simp: fld fun_eq_iff)
  have reg: "region e g' = (region e g)(Seg b := span b 4194304)"
  proof
    fix x show "region e g' x = ((region e g)(Seg b := span b 4194304)) x"
      by (cases x) (auto simp: fld seg_frameD [OF fr] split: option.splits)
  qed
  have lay: "layout_ok e (h_log g') (region e g')" unfolding reg fld(5) by (rule layout_add [OF h(3) f]) (simp add: none)
  have "page_wf e (h_mem g') pp pg" if "get_page g' pp = Some pg" for pp pg
  proof (cases "fst pp = b")
    case True
    then have pg: "snd pp < 64" "pg = (if snd pp = 0 then (fresh_page b (Some a) 0)\<lparr>pm_state := PAGE_FULL\<rparr> else fresh_page b (Some a) (snd pp))"
      using that none by (auto simp: fld pg_at_fresh split: if_splits)
    then have "page_span pp \<subseteq> span b 4194304" using True by (auto simp: page_span_def)
    then have "h_mem g' x = 0" if "unat x \<in> page_span pp" for x using that F(6) fld(4) by auto
    then show ?thesis using pg True by (simp add: page_wf_def fresh_page_def)
  next
    case False
    then show ?thesis using that none segs_ok_wf [OF fs(1)] by (simp add: fld pg_at_fresh)
  qed
  moreover have "seg_hdr_ok c sg" if "h_segs g' c = Some sg" for c sg
    using that segs_ok_hdr [OF h(4)] F(1,2) al by (auto simp: fld seg_hdr_ok_def fresh_segment_def config_simps split: if_splits)
  ultimately have segs: "segs_ok e (h_mem g') (h_segs g')" unfolding segs_ok_def by blast
  have ar: "arena_ok g' c" if "c < 4" for c
  proof -
    have "\<exists>xs. dll (bin_head c bin g') (bin_nxt g') (bin_prv g') (bin_node c bin g') xs" if bin: "unat bin < 75" for bin
    proof -
      obtain xs where xs: "dll (bin_head c bin g) (bin_nxt g) (bin_prv g) (bin_node c bin g) xs"
        using h(5) [OF \<open>c < 4\<close>] bin unfolding arena_ok_def by blast
      show ?thesis by (rule exI, rule dll_bins [OF xs]) (simp_all add: bin_head_def fld(2) act)
    qed
    moreover have "\<exists>bs. seg_path c (h_segs g') (ar_segments (g_arenas g' ! c)) bs"
      using h(5) [OF that] seg_path_new [where segs = "h_segs g" and b = b] none unfolding fld arena_ok_def by blast
    ultimately show ?thesis unfolding arena_ok_def by blast
  qed
  have rg: "registry_ok (g_registry g') (h_segs g')" unfolding fld by (rule registry_add [OF h(2) F(1) none])
  have inv: "heap_inv e g'"
    by (rule seg_step_inv [OF H fr _ _ rg lay segs ar]) (use B fld(2) in \<open>auto simp: act\<close>)
  have "slab_blocks (h_mem g') (h_segs g') = slab_blocks (h_mem g) (h_segs g)"
    using fs(2) by (simp add: slab_blocks_def act)
  moreover have "reg_set (g_registry g) \<subseteq> reg_set (g_registry g')" unfolding fld(3) by (rule register_mono [OF _ F(1)]) (use h(2) in \<open>simp add: registry_ok_def\<close>)
  ultimately have "quiet g g'" using fresh_mem_keeps [OF H mm] by (simp add: quiet_def blocks_def large_recs_def seg_frameD [OF fr])
  then show ?thesis using inv fr none by blast
qed

lemma segment_create_ok:
  assumes e: "env_ok e" and H: "heap_inv e g" and r: "segment_create e (Some a) g = (b, g')"
  shows "heap_inv e g' \<and> quiet g g' \<and> seg_frame g g' \<and> g_arenas g' = g_arenas g \<and>
    (b = 0 \<and> g' = g \<or> b \<noteq> 0 \<and> h_segs g b = None \<and> h_segs g' = (h_segs g)(b := Some (fresh_segment b (Some a))))"
proof -
  obtain q g1 where mm: "os_mmap_aligned e SEGMENT_SIZE (2 ^ 22) g = (q, g1)" by fastforce
  have S: "SEGMENT_SIZE = 2 ^ 22" by (simp add: config_simps)
  have m: "same_meta g g1" by (rule same_meta_os_mmap_aligned [OF mm])
  have "q = 0 \<and> g1 = g \<or> fresh_range e g q 4194304 g1 \<and> unat q mod 4194304 = 0"
    using os_mmap_aligned_fresh [OF e _ _ mm] by (simp add: config_simps)
  then consider "q = 0" "g1 = g" | "fresh_range e g q 4194304 g1" "unat q mod 4194304 = 0" by (elim disjE conjE)
  then show ?thesis
  proof cases
    case 1
    then show ?thesis using r mm H by (simp add: segment_create_def S)
  next
    case 2
    have "b = q" "g' = g1\<lparr>h_segs := (h_segs g1)(q := Some (fresh_segment q (Some a))), g_registry := segment_register q (g_registry g1)\<rparr>"
      using r mm fresh_rangeD(1) [OF 2(1)] by (auto simp: segment_create_def S)
    then show ?thesis using new_segment_inv [OF H 2(1) m 2(2)] fresh_rangeD(1) [OF 2(1)] same_metaD [OF m] by simp
  qed
qed

section \<open>The list of segments\<close>

definition locks :: "gstate \<Rightarrow> bool \<times> bool list" where
  "locks g = (g_large_lock g, map ar_lock (g_arenas g))"

lemma locks_upd [simp]: "locks (upd_page pp f g) = locks g" "locks (upd_seg b h g) = locks g" "locks (upd_tld t k g) = locks g"
  by (simp_all add: locks_def)

lemma locks_arena: "(\<And>ar. ar_lock (f ar) = ar_lock ar) \<Longrightarrow> locks (upd_arena a f g) = locks g"
  by (cases "a < length (g_arenas g)") (simp_all add: locks_def upd_arena_def map_update list_update_same_conv list_update_beyond not_less)

lemma seg_path_upd_seg:
  assumes "b \<notin> set bs \<or> (\<forall>sg. sg_next (f sg) = sg_next sg \<and> sg_arena (f sg) = sg_arena sg)" "seg_path a (h_segs g) h bs"
  shows "seg_path a (h_segs (upd_seg b f g)) h bs"
  using assms by (induction bs arbitrary: h) auto

lemma pg_at_upd_seg:
  assumes "\<And>sg. sg_pages (f sg) = sg_pages sg"
  shows "get_page (upd_seg b f g) = get_page g"
  using assms by (auto simp: fun_eq_iff pg_at_def split: option.splits)

lemma region_upd_seg [simp]: "region e (upd_seg b f g) = region e g"
proof
  fix x show "region e (upd_seg b f g) x = region e g x" by (cases x) (auto split: option.splits)
qed

lemma region_upd_arena [simp]: "region e (upd_arena a f g) = region e g"
proof
  fix x show "region e (upd_arena a f g) x = region e g x" by (cases x) auto
qed

lemma upd_seg_inv:
  assumes H: "heap_inv e g" and f: "\<And>sg. sg_pages (f sg) = sg_pages sg"
    and path: "\<And>a. a < 4 \<Longrightarrow> \<exists>bs. seg_path a (h_segs (upd_seg b f g)) (ar_segments (g_arenas g ! a)) bs"
  shows "heap_inv e (upd_seg b f g) \<and> quiet g (upd_seg b f g)"
proof -
  note h = heap_invD [OF H] and B = base_okD [OF heap_invD(1) [OF H]]
  let ?g = "upd_seg b f g"
  have pg: "get_page ?g = get_page g" by (rule pg_at_upd_seg [OF f])
  have act: "active (h_segs ?g) = active (h_segs g)" unfolding active_def pg ..
  have "seg_hdr_ok c sg" if "h_segs ?g c = Some sg" for c sg
    using that segs_ok_hdr [OF h(4)] f by (auto simp: seg_hdr_ok_def split: if_splits)
  then have segs: "segs_ok e (h_mem ?g) (h_segs ?g)" using segs_ok_wf [OF h(4)] unfolding segs_ok_def pg upd_seg_frame by blast
  have "dom (h_segs ?g) = dom (h_segs g)" by (auto split: if_splits)
  then have reg: "registry_ok (g_registry ?g) (h_segs ?g)" using h(2) by (simp add: registry_ok_def)
  have lay: "layout_ok e (h_log ?g) (region e ?g)" using h(3) by simp
  have ar: "arena_ok ?g a" if "a < 4" for a
  proof -
    have eq: "bin_head a bin ?g = bin_head a bin g" "bin_nxt ?g = bin_nxt g" "bin_prv ?g = bin_prv g" "bin_node a bin ?g = bin_node a bin g" for bin
      unfolding bin_head_def bin_nxt_def [abs_def] bin_prv_def [abs_def] bin_node_def [abs_def] pg act upd_seg_frame by (rule refl)+
    show ?thesis using h(5) [OF that] path [OF that] unfolding arena_ok_def eq upd_seg_frame by blast
  qed
  have "heap_inv e ?g"
    by (rule seg_step_inv [OF H seg_frame_upds(2) _ _ reg lay segs ar]) (use B in \<open>auto simp: act simp del: h_segs_upd_seg\<close>)
  moreover have "quiet g ?g" by (simp add: quiet_def blocks_def slab_blocks_def large_recs_def keeps_def act del: h_segs_upd_seg)
  ultimately show ?thesis by blast
qed

lemma arena_head_inv:
  assumes H: "heap_inv e g" and a: "a < 4" and f: "\<And>ar. ar_bins (f ar) = ar_bins ar"
    and path: "\<exists>bs. seg_path a (h_segs g) (ar_segments (f (g_arenas g ! a))) bs"
  shows "heap_inv e (upd_arena a f g) \<and> quiet g (upd_arena a f g)"
proof -
  note h = heap_invD [OF H] and B = base_okD [OF heap_invD(1) [OF H]]
  let ?g = "upd_arena a f g"
  have nth: "g_arenas ?g ! i = (if i = a then f (g_arenas g ! i) else g_arenas g ! i)" if "i < 64" for i
    using that B(4) by (simp add: g_arenas_upd_arena)
  have ar: "arena_ok ?g c" if c: "c < 4" for c
  proof -
    have eq: "bin_head c bin ?g = bin_head c bin g" "bin_nxt ?g = bin_nxt g" "bin_prv ?g = bin_prv g" "bin_node c bin ?g = bin_node c bin g" for bin
      using c f B(4) by (auto simp: bin_head_def bin_nxt_def bin_prv_def bin_node_def fun_eq_iff nth g_arenas_upd_arena)
    show ?thesis using h(5) [OF c] path c unfolding arena_ok_def eq by (auto simp: nth)
  qed
  have "heap_inv e ?g"
    by (rule seg_step_inv [OF H seg_frame_upds(3) _ _ _ _ _ ar]) (use h(2-4) B nth f in \<open>auto simp: g_arenas_upd_arena\<close>)
  moreover have "quiet g ?g" by (simp add: quiet_def blocks_def large_recs_def keeps_def)
  ultimately show ?thesis by blast
qed

lemma push_segment_ok:
  assumes H: "heap_inv e g" and a: "a < 4" and sg: "h_segs g b = Some sg" "sg_arena sg = Some a"
    and off: "seg_path a (h_segs g) (ar_segments (g_arenas g ! a)) bs" "b \<notin> set bs"
  shows "\<exists>g'. push_segment a b g = Inr g' \<and> heap_inv e g' \<and> quiet g g' \<and> seg_frame g g' \<and> locks g' = locks g \<and>
    h_segs g' b = Some (sg\<lparr>sg_next := ar_segments (g_arenas g ! a)\<rparr>)"
proof -
  note h = heap_invD [OF H] and B = base_okD [OF heap_invD(1) [OF H]]
  define hd where "hd = ar_segments (g_arenas g ! a)"
  define g1 where "g1 = upd_seg b (\<lambda>sg. sg\<lparr>sg_next := hd\<rparr>) g"
  have b0: "b \<noteq> 0" using segs_ok_hdr [OF h(4) sg(1)] by (simp add: seg_hdr_ok_def)
  have "\<exists>bs. seg_path c (h_segs g1) (ar_segments (g_arenas g ! c)) bs" if c: "c < 4" for c
  proof -
    obtain cs where cs: "seg_path c (h_segs g) (ar_segments (g_arenas g ! c)) cs" "c = a \<longrightarrow> cs = bs"
      using h(5) [OF c] off(1) unfolding arena_ok_def by (cases "c = a") auto
    have "b \<notin> set cs" using cs(2) off(2) sg seg_path_dom [OF cs(1), of b] by auto
    then show ?thesis using seg_path_upd_seg [OF _ cs(1)] unfolding g1_def by blast
  qed
  then have I1: "heap_inv e g1 \<and> quiet g g1" unfolding g1_def by (intro upd_seg_inv [OF H]) (simp_all add: g1_def)
  have p1: "seg_path a (h_segs g1) hd bs" unfolding g1_def hd_def by (rule seg_path_upd_seg [OF _ off(1)]) (use off(2) in simp)
  define g2 where "g2 = (if hd \<noteq> 0 then upd_seg hd (\<lambda>sg. sg\<lparr>sg_prev := b\<rparr>) g1 else g1)"
  have p2: "seg_path c (h_segs g2) k cs" if "seg_path c (h_segs g1) k cs" for c k cs
    unfolding g2_def using seg_path_upd_seg [OF _ that] that by auto
  have ar2: "g_arenas g2 = g_arenas g" by (simp add: g2_def g1_def)
  have I2: "heap_inv e g2 \<and> quiet g1 g2"
  proof (cases "hd = 0")
    case False
    have "\<exists>bs. seg_path c (h_segs g2) (ar_segments (g_arenas g1 ! c)) bs" if "c < 4" for c
      using heap_invD(5) [OF conjunct1 [OF I1] that] p2 unfolding arena_ok_def by blast
    then show ?thesis using False unfolding g2_def by (simp del: h_segs_upd_seg) (intro upd_seg_inv [OF conjunct1 [OF I1]], auto)
  qed (use I1 in \<open>simp add: g2_def\<close>)
  have hd: "hd = 0 \<or> (\<exists>s. h_segs g1 hd = Some s) \<and> hd \<noteq> b" using p1 off(2) by (cases bs) auto
  have sb: "h_segs g2 b = Some (sg\<lparr>sg_next := hd\<rparr>)" using sg(1) hd by (auto simp: g2_def g1_def)
  define g3 where "g3 = upd_arena a (\<lambda>ar. ar\<lparr>ar_segments := b, ar_segment_count := ar_segment_count ar + 1\<rparr>) g2"
  have "seg_path a (h_segs g2) b (b # bs)" using sb b0 sg(2) p2 [OF p1] by simp
  then have "\<exists>cs. seg_path a (h_segs g2) b cs" by (rule exI)
  then have I3: "heap_inv e g3 \<and> quiet g2 g3" unfolding g3_def by (intro arena_head_inv [OF conjunct1 [OF I2] a]) simp_all
  have w1: "write_seg b (\<lambda>sg. sg\<lparr>sg_next := hd\<rparr>) g = Inr g1" using sg(1) by (simp add: write_seg_def g1_def)
  have w2: "(if hd \<noteq> 0 then write_seg hd (\<lambda>sg. sg\<lparr>sg_prev := b\<rparr>) g1 else Inr g1) = Inr g2"
    using hd by (auto simp: write_seg_def g2_def)
  have ar1: "g_arenas g1 = g_arenas g" by (simp add: g1_def)
  have "push_segment a b g = bindR (if hd \<noteq> 0 then write_seg hd (\<lambda>sg. sg\<lparr>sg_prev := b\<rparr>) g1 else Inr g1) (\<lambda>g.
      Inr (upd_arena a (\<lambda>ar. ar\<lparr>ar_segments := b, ar_segment_count := ar_segment_count ar + 1\<rparr>) g))"
    unfolding push_segment_def hd_def [symmetric] w1 bindR_simps ar1 ..
  also have "\<dots> = Inr g3" unfolding w2 g3_def by simp
  finally have "push_segment a b g = Inr g3" .
  moreover have "seg_frame g g3"
    unfolding g3_def g2_def g1_def by (simp add: seg_frame_def upd_seg_def upd_arena_def)
  moreover have "locks g3 = locks g" unfolding g3_def by (subst locks_arena) (auto simp: g2_def g1_def)
  moreover have "h_segs g3 b = Some (sg\<lparr>sg_next := hd\<rparr>)" using sb by (simp add: g3_def)
  moreover have "quiet g g3" using I1 I2 I3 quiet_trans by blast
  ultimately show ?thesis using I3 unfolding hd_def by blast
qed

section \<open>A page put to use\<close>

lemma upd_page_const:
  assumes "get_page g pp = Some pg"
  shows "upd_page pp f g = upd_page pp (\<lambda>_. f pg) g"
proof -
  obtain sg where "h_segs g (fst pp) = Some sg" "sg_pages sg ! snd pp = pg"
    using assms by (auto simp: pg_at_def split: option.splits if_splits)
  then show ?thesis by (simp add: upd_page_def upd_seg_def)
qed

lemma find_unused_spec:
  "case find_unused pages i of
     Some j \<Rightarrow> i \<le> j \<and> j < 64 \<and> pm_state (pages ! j) = PAGE_UNUSED
   | None \<Rightarrow> \<forall>j. i \<le> j \<and> j < 64 \<longrightarrow> pm_state (pages ! j) \<noteq> PAGE_UNUSED"
proof (induction pages i rule: find_unused.induct)
  case (1 pages i)
  show ?case
  proof (cases "i < 64 \<and> pm_state (pages ! i) \<noteq> PAGE_UNUSED")
    case True
    then have "find_unused pages i = find_unused pages (i + 1)" by (subst find_unused.simps) (simp add: config_simps)
    moreover have "j = i \<or> i + 1 \<le> j" if "i \<le> j" for j using that by auto
    ultimately show ?thesis using 1 True by (auto simp: config_simps split: option.splits)
  next
    case False
    then show ?thesis by (subst find_unused.simps) (auto simp: config_simps)
  qed
qed

lemma new_page_wf:
  assumes H: "heap_inv e g" and pp: "get_page g pp = Some pg0" "pm_state pg0 = PAGE_UNUSED" and bin: "bin_small bin"
    and pg: "pg = page_init e (fst pp) ar (of_nat (snd pp)) bin (ucast (bin_to_size g bin)) pg0"
  shows "page_inv e (h_mem g) pg" "page_live (h_mem g) pg = {}" "pm_bump_offset pg < pm_bump_end pg" "page_wf e (h_mem g) pp pg"
    "pm_state pg = PAGE_ACTIVE" "pm_bin_idx pg = bin" "pm_arena pg = ar" "pm_owner_tid pg = UINT32_MAX" "0 < snd pp"
proof -
  note h = heap_invD [OF H] and B = base_okD [OF heap_invD(1) [OF H]]
  note s = page_start_at [OF h(4) pp(1)] and w = segs_ok_wf [OF h(4) pp(1)]
  have z: "0 < snd pp" "\<And>x. unat x \<in> page_span pp \<Longrightarrow> h_mem g x = 0" using w pp(2) by (auto simp: page_wf_def split: if_splits)
  have u: "unat (of_nat (snd pp) :: u16) = snd pp" by (rule unat_of_nat_index [OF s(3)])
  have f: "pm_segment pg = fst pp" "pm_page_index pg = of_nat (snd pp)" "pm_state pg = PAGE_ACTIVE" "pm_bin_idx pg = bin"
    "pm_arena pg = ar" "pm_owner_tid pg = UINT32_MAX" by (simp_all add: pg page_init_def Let_def)
  have "page_start pg = page_start pg0" using w f(1,2) by (simp add: page_start_def page_wf_def)
  then have zero: "h_mem g x = 0" if "unat x \<in> span (page_start pg) 65536" for x using that s(2) z(2) by simp
  have i: "1 \<le> unat (of_nat (snd pp) :: u16)" "unat (of_nat (snd pp) :: u16) < 64" using u z(1) s(3) by simp_all
  note P = page_init_inv [OF B(2) bin s(7,8,6) i pg zero]
  show "page_live (h_mem g) pg = {}" by (rule P(2))
  show "pm_bump_offset pg < pm_bump_end pg" by (rule P(3))
  show "page_inv e (h_mem g) pg" by (rule P(1))
  then show "page_wf e (h_mem g) pp pg" using f z(1) by (simp add: page_wf_def)
  show "pm_state pg = PAGE_ACTIVE" "pm_bin_idx pg = bin" "pm_arena pg = ar" "pm_owner_tid pg = UINT32_MAX" "0 < snd pp"
    by (rule f z)+
qed

lemma new_page_inv:
  assumes H: "heap_inv e g" and pp: "get_page g pp = Some pg0" "pm_state pg0 = PAGE_UNUSED" and bin: "bin_small bin"
    and a: "a < 4" and pg: "pg = page_init e (fst pp) (Some a) (of_nat (snd pp)) bin (ucast (bin_to_size g bin)) pg0"
    and g': "g' = upd_page pp (\<lambda>_. pg) g"
  shows "heap_inv e g' \<and> quiet g g'"
    "c < 4 \<Longrightarrow> unat bi < 75 \<Longrightarrow> \<exists>xs. dll (bin_head c bi g') (bin_nxt g') (bin_prv g') (bin_node c bi g') xs \<and> pp \<notin> set xs"
proof -
  note h = heap_invD [OF H] and B = base_okD [OF heap_invD(1) [OF H]] and P = new_page_wf [OF H pp bin pg]
  have act: "active (h_segs g') qq qg \<longleftrightarrow> (if qq = pp then qg = pg else active (h_segs g) qq qg)" for qq qg
    unfolding g' active_upd_page [OF pp(1)] using P(5) by simp
  have nact: "\<not> active (h_segs g) pp qg" for qg using pp by (auto simp: active_def)
  have bins: "\<exists>xs. dll (bin_head c bi g') (bin_nxt g') (bin_prv g') (bin_node c bi g') xs \<and> pp \<notin> set xs"
    if c: "c < 4" and bi: "unat bi < 75" for c bi
  proof -
    obtain xs where xs: "dll (bin_head c bi g) (bin_nxt g) (bin_prv g) (bin_node c bi g) xs"
      using h(5) [OF c] bi unfolding arena_ok_def by blast
    have "pp \<notin> set xs" using xs nact by (auto simp: dll_def bin_node_def)
    moreover have "dll (bin_head c bi g') (bin_nxt g') (bin_prv g') (bin_node c bi g') xs"
    proof (rule dll_bins [OF xs])
      show "active (h_segs g') qq qg" if "active (h_segs g) qq qg" for qq qg using that nact unfolding act by auto
    qed (simp_all add: g' bin_head_def)
    ultimately show ?thesis by blast
  qed
  then show "c < 4 \<Longrightarrow> unat bi < 75 \<Longrightarrow> \<exists>xs. dll (bin_head c bi g') (bin_nxt g') (bin_prv g') (bin_node c bi g') xs \<and> pp \<notin> set xs"
    by blast
  have ar: "arena_ok g' c" if "c < 4" for c
    using bins [OF that] h(5) [OF that] seg_path_upd_page [of c g _ _ pp] unfolding arena_ok_def g' upd_page_frame by blast
  have "segs_ok e (h_mem g) (h_segs g')" unfolding g' by (rule segs_ok_page [OF h(3,4) pp(1) P(4)]) simp
  moreover have "\<exists>pg'. active (h_segs g') qq pg' \<and> pm_bin_idx pg' = pm_bin_idx qg \<and> pm_owner_tid pg' = pm_owner_tid qg"
    if "active (h_segs g) qq qg" for qq qg
    using that nact unfolding act by (intro exI [of _ qg]) auto
  moreover have "(\<exists>pg. active (h_segs g) qq pg \<and> pm_owner_tid qg = pm_owner_tid pg \<and> pm_arena qg = pm_arena pg) \<or>
      pm_owner_tid qg = UINT32_MAX \<and> (\<exists>a < 4. pm_arena qg = Some a)" if "active (h_segs g') qq qg" for qq qg
    using that P(7,8) a unfolding act by (auto split: if_splits)
  moreover have "registry_ok (g_registry g) (h_segs g')" using h(2) by (simp add: registry_ok_def g')
  ultimately have inv: "heap_inv e g'"
    by (intro seg_step_inv [OF H _ _ _ _ _ _ ar]) (use h(3) B in \<open>simp_all add: g'\<close>)
  have "slab_blocks (h_mem g) (h_segs g') = slab_blocks (h_mem g) (h_segs g)"
  proof (intro equalityI subsetI)
    fix x assume "x \<in> slab_blocks (h_mem g) (h_segs g')"
    then obtain p qq qg where x: "x = (p, unat (pm_slot_size qg))" "active (h_segs g') qq qg" "p \<in> page_live (h_mem g) qg"
      by (auto simp: slab_blocks_def)
    have "qq \<noteq> pp" using x(2,3) P(2) unfolding act by auto
    then have "active (h_segs g) qq qg" using x(2) unfolding act by simp
    then show "x \<in> slab_blocks (h_mem g) (h_segs g)" using x unfolding slab_blocks_def by blast
  next
    fix x assume "x \<in> slab_blocks (h_mem g) (h_segs g)"
    then obtain p qq qg where x: "x = (p, unat (pm_slot_size qg))" "active (h_segs g) qq qg" "p \<in> page_live (h_mem g) qg"
      by (auto simp: slab_blocks_def)
    then have "active (h_segs g') qq qg" unfolding act using nact by auto
    then show "x \<in> slab_blocks (h_mem g) (h_segs g')" using x unfolding slab_blocks_def by blast
  qed
  then have "quiet g g'" by (simp add: quiet_def blocks_def large_recs_def keeps_def g')
  then show "heap_inv e g' \<and> quiet g g'" using inv by blast
qed

lemma upd_seg_count_inv:
  assumes "heap_inv e g"
  shows "heap_inv e (upd_seg b (\<lambda>sg. sg\<lparr>sg_pages_used := f sg\<rparr>) g) \<and> quiet g (upd_seg b (\<lambda>sg. sg\<lparr>sg_pages_used := f sg\<rparr>) g)"
  using heap_invD(5) [OF assms] seg_path_upd_seg [where f = "\<lambda>sg. sg\<lparr>sg_pages_used := f sg\<rparr>" and g = g and b = b]
  by (intro upd_seg_inv [OF assms]) (simp, simp del: h_segs_upd_seg, unfold arena_ok_def, blast)

text \<open>
  \<open>new_page\<close>: the page is in use for the size class, has no owner and is on no list.
\<close>

definition new_page :: "nat \<Rightarrow> u8 \<Rightarrow> page_ptr \<Rightarrow> gstate \<Rightarrow> bool" where
  "new_page a bin pp g \<longleftrightarrow>
     (\<exists>pg. active (h_segs g) pp pg \<and> pm_bin_idx pg = bin \<and> pm_arena pg = Some a \<and> pm_owner_tid pg = UINT32_MAX \<and>
        pm_bump_offset pg < pm_bump_end pg) \<and>
     (\<forall>c bi. c < 4 \<longrightarrow> unat bi < 75 \<longrightarrow>
        (\<exists>xs. dll (bin_head c bi g) (bin_nxt g) (bin_prv g) (bin_node c bi g) xs \<and> pp \<notin> set xs))"

lemma segment_alloc_page_ok:
  assumes H: "heap_inv e g" and sg: "h_segs g b = Some sg" "sg_arena sg = Some a" and a: "a < 4" and bin: "bin_small bin"
  shows "segment_alloc_page e b bin g = Inr (None, g) \<and> (\<forall>j. 1 \<le> j \<and> j < 64 \<longrightarrow> pm_state (sg_pages sg ! j) \<noteq> PAGE_UNUSED) \<or>
    (\<exists>pp g'. segment_alloc_page e b bin g = Inr (Some pp, g') \<and> heap_inv e g' \<and> quiet g g' \<and> seg_frame g g' \<and>
       g_arenas g' = g_arenas g \<and> new_page a bin pp g')"
proof (cases "find_unused (sg_pages sg) PAGES_DATA_START")
  case None
  then show ?thesis using find_unused_spec [where pages = "sg_pages sg" and i = PAGES_DATA_START] sg by (simp add: segment_alloc_page_def config_simps)
next
  case (Some i)
  have i: "i < 64" "pm_state (sg_pages sg ! i) = PAGE_UNUSED"
    using find_unused_spec [where pages = "sg_pages sg" and i = PAGES_DATA_START] Some by simp_all
  have "length (sg_pages sg) = 64" using segs_ok_hdr [OF heap_invD(4) [OF H] sg(1)] by (simp add: seg_hdr_ok_def)
  then have pp: "get_page g (b, i) = Some (sg_pages sg ! i)" using sg(1) i(1) by (simp add: pg_at_def)
  define pg where "pg = page_init e b (Some a) (of_nat i) bin (ucast (bin_to_size g bin)) (sg_pages sg ! i)"
  define g1 where "g1 = upd_page (b, i) (\<lambda>_. pg) g"
  define g2 where "g2 = upd_seg b (\<lambda>sg. sg\<lparr>sg_pages_used := sg_pages_used sg + 1\<rparr>) g1"
  have pg: "pg = page_init e (fst (b, i)) (Some a) (of_nat (snd (b, i))) bin (ucast (bin_to_size g bin)) (sg_pages sg ! i)"
    by (simp add: pg_def)
  note P = new_page_wf [OF H pp i(2) bin pg] and N = new_page_inv [OF H pp i(2) bin a pg g1_def]
  note I2 = upd_seg_count_inv [OF conjunct1 [OF N(1)], of b "\<lambda>sg. sg_pages_used sg + 1", folded g2_def]
  have pg2: "get_page g2 = get_page g1" unfolding g2_def by (rule pg_at_upd_seg) simp
  have r: "segment_alloc_page e b bin g = Inr (Some (b, i), g2)"
    using sg Some upd_page_const [OF pp] by (simp add: segment_alloc_page_def Let_def g2_def g1_def pg_def)
  have act: "active (h_segs g2) (b, i) pg" using pp P(5) by (simp add: active_def pg2 g1_def)
  have "\<exists>xs. dll (bin_head c bi g2) (bin_nxt g2) (bin_prv g2) (bin_node c bi g2) xs \<and> (b, i) \<notin> set xs"
    if "c < 4" "unat bi < 75" for c bi
  proof -
    have "bin_head c bi g2 = bin_head c bi g1" "bin_nxt g2 = bin_nxt g1" "bin_prv g2 = bin_prv g1" "bin_node c bi g2 = bin_node c bi g1"
      unfolding bin_head_def bin_nxt_def [abs_def] bin_prv_def [abs_def] bin_node_def [abs_def] active_def pg2 by (simp_all add: g2_def)
    then show ?thesis using N(2) [OF that] by simp
  qed
  then have "new_page a bin (b, i) g2" using act P(3,6-8) unfolding new_page_def by blast
  moreover have "seg_frame g g2" using seg_frame_trans seg_frame_upds unfolding g2_def g1_def by blast
  moreover have "quiet g g2" using N(1) I2 quiet_trans by blast
  moreover have "g_arenas g2 = g_arenas g" by (simp add: g2_def g1_def)
  ultimately show ?thesis using r I2 by blast
qed

text \<open>The walk along the segments of an arena ends.\<close>

lemma seg_walk_ok:
  assumes H: "heap_inv e g" and a: "a < 4" and bin: "bin_small bin" and p: "seg_path a (h_segs g) h bs"
  shows "seg_walk e bin h g = Some (Inr (None, g)) \<or>
    (\<exists>pp g'. seg_walk e bin h g = Some (Inr (Some pp, g')) \<and> heap_inv e g' \<and> quiet g g' \<and> seg_frame g g' \<and>
       g_arenas g' = g_arenas g \<and> new_page a bin pp g')"
  using p
proof (induction bs arbitrary: h)
  case Nil
  then show ?case by (simp add: seg_walk.simps [of e bin 0])
next
  case (Cons b bs)
  then obtain sg where sg: "h = b" "b \<noteq> 0" "h_segs g b = Some sg" "sg_arena sg = Some a" "seg_path a (h_segs g) (sg_next sg) bs"
    by auto
  from segment_alloc_page_ok [OF H sg(3,4) a bin] show ?case
  proof (elim disjE conjE exE)
    assume "segment_alloc_page e b bin g = Inr (None, g)"
    then have "seg_walk e bin h g = seg_walk e bin (sg_next sg) g" using sg by (simp add: seg_walk.simps [of e bin b])
    then show ?thesis using Cons.IH [OF sg(5)] by simp
  next
    fix pp g' assume "segment_alloc_page e b bin g = Inr (Some pp, g')"
    then have "seg_walk e bin h g = Some (Inr (Some pp, g'))" using sg by (simp add: seg_walk.simps [of e bin b])
    moreover assume "heap_inv e g'" "quiet g g'" "seg_frame g g'" "g_arenas g' = g_arenas g" "new_page a bin pp g'"
    ultimately show ?thesis by blast
  qed
qed

end
