(* ===== verification/Arena_Correct.thy ===== *)
theory Arena_Correct
  imports Segment_Correct
begin

text \<open>
  Arenas: the lists of pages per size class implement doubly-linked lists, the walks along them
  end, and an allocation from an arena adds one zeroed block.
\<close>

section \<open>The lists of pages\<close>

lemma write_page_ok: "get_page g pp = Some pg \<Longrightarrow> write_page pp f g = Inr (upd_page pp f g)"
  by (simp add: write_page_def)

lemma deref_page_ok: "get_page g pp = Some pg \<Longrightarrow> deref_page g pp = Inr pg"
  by (simp add: deref_page_def of_option_def)

lemma bin_set_head [simp]:
  "get_page (set_bin_head a bin h g) = get_page g" "bin_nxt (set_bin_head a bin h g) = bin_nxt g"
  "bin_prv (set_bin_head a bin h g) = bin_prv g" "bin_node c bi (set_bin_head a bin h g) = bin_node c bi g"
  "h_segs (set_bin_head a bin h g) = h_segs g"
  by (cases "c = a"; auto simp: set_bin_head_def bin_nxt_def bin_prv_def bin_node_def fun_eq_iff upd_arena_def)+

lemma bin_head_set:
  assumes "bin_node a bin g x"
  shows "bin_head a bin (set_bin_head a bin h g) = h"
  using assms by (auto simp: bin_head_def set_bin_head_def bin_node_def upd_arena_def)

lemma bin_head_set_other:
  assumes "(c, bi) \<noteq> (a, bin)"
  shows "bin_head c bi (set_bin_head a bin h g) = bin_head c bi g"
proof (cases "c = a")
  case True
  then have "unat bi \<noteq> unat bin" using assms by (auto simp: word_unat_eq_iff)
  then show ?thesis using True by (cases "a < length (g_arenas g)") (auto simp: bin_head_def set_bin_head_def upd_arena_def list_update_beyond not_less)
qed (simp add: bin_head_def set_bin_head_def upd_arena_def)

lemma bin_head_upd_page [simp]: "bin_head a bin (upd_page pp f g) = bin_head a bin g"
  by (simp add: bin_head_def)

lemma bin_fields_upd_page:
  assumes "\<And>pg. pm_state (f pg) = pm_state pg \<and> pm_bin_idx (f pg) = pm_bin_idx pg \<and> pm_arena (f pg) = pm_arena pg"
  shows "bin_node a bin (upd_page pp f g) = bin_node a bin g"
  using assms by (auto simp: bin_node_def active_def fun_eq_iff)

interpretation arena_list: dll_ops "bin_head a bin" bin_nxt bin_prv "bin_node a bin" "bin_insert_page a" "bin_remove_page a" for a bin
proof
  fix g x
  assume n: "bin_node a bin g x" and h: "\<And>y. bin_head a bin g = Some y \<Longrightarrow> bin_node a bin g y \<and> y \<noteq> x"
  obtain pg where x: "get_page g x = Some pg" "pm_bin_idx pg = bin" using n by (auto simp: bin_node_def active_def)
  define g1 where "g1 = upd_page x (\<lambda>p. p\<lparr>pm_prev := None, pm_next := bin_head a bin g\<rparr>) g"
  define g2 where "g2 = (case bin_head a bin g of None \<Rightarrow> g1 | Some y \<Rightarrow> upd_page y (\<lambda>p. p\<lparr>pm_prev := Some x\<rparr>) g1)"
  have hd: "bin_head a bin g = Some y \<Longrightarrow> y \<noteq> x \<and> (\<exists>pg. get_page g y = Some pg)" for y
    using h [of y] by (auto simp: bin_node_def active_def)
  have "bin_insert_page a x g = Inr (set_bin_head a bin (Some x) g2)"
    using x hd by (auto simp: bin_insert_page_def deref_page_ok write_page_def g1_def g2_def split: option.splits)
  moreover have "bin_node a bin g2 = bin_node a bin g"
    unfolding g2_def g1_def by (auto simp: bin_fields_upd_page split: option.splits)
  moreover have "bin_nxt g2 = (bin_nxt g)(x := bin_head a bin g)"
    using x hd unfolding g2_def g1_def by (auto simp: bin_nxt_def fun_eq_iff split: option.splits)
  moreover have "bin_prv g2 = link_prv x (bin_head a bin g) (bin_prv g)"
    using x hd unfolding g2_def g1_def by (auto simp: bin_prv_def link_prv_def fun_eq_iff split: option.splits)
  moreover have "bin_head a bin (set_bin_head a bin (Some x) g2) = Some x" by (rule bin_head_set) (use n calculation(2) in simp)
  ultimately show "\<exists>g'. bin_insert_page a x g = Inr g' \<and> bin_head a bin g' = Some x \<and> bin_nxt g' = (bin_nxt g)(x := bin_head a bin g) \<and>
      bin_prv g' = link_prv x (bin_head a bin g) (bin_prv g) \<and> bin_node a bin g' = bin_node a bin g"
    by (intro exI [of _ "set_bin_head a bin (Some x) g2"]) simp
next
  fix g x
  assume n: "bin_node a bin g x" and nx: "\<And>y. bin_nxt g x = Some y \<Longrightarrow> bin_node a bin g y \<and> y \<noteq> x"
    and pv: "\<And>y. bin_prv g x = Some y \<Longrightarrow> bin_node a bin g y \<and> y \<noteq> x"
  obtain pg where x: "get_page g x = Some pg" "pm_bin_idx pg = bin" using n by (auto simp: bin_node_def active_def)
  define g1 where "g1 = (case pm_prev pg of None \<Rightarrow> g | Some q \<Rightarrow> upd_page q (\<lambda>p. p\<lparr>pm_next := pm_next pg\<rparr>) g)"
  define g2 where "g2 = (case pm_next pg of None \<Rightarrow> g1 | Some q \<Rightarrow> upd_page q (\<lambda>p. p\<lparr>pm_prev := pm_prev pg\<rparr>) g1)"
  define g3 where "g3 = (if bin_head a bin g2 = Some x then set_bin_head a bin (pm_next pg) g2 else g2)"
  define g4 where "g4 = upd_page x (\<lambda>p. p\<lparr>pm_next := None, pm_prev := None\<rparr>) g3"
  have p: "pm_prev pg = Some q \<Longrightarrow> q \<noteq> x \<and> (\<exists>pg. get_page g q = Some pg)" for q
    using pv [of q] x(1) by (auto simp: bin_node_def active_def bin_prv_def)
  have q: "pm_next pg = Some q \<Longrightarrow> q \<noteq> x \<and> (\<exists>pg. get_page g q = Some pg)" for q
    using nx [of q] x(1) by (auto simp: bin_node_def active_def bin_nxt_def)
  have x1: "get_page g1 x = Some pg" using x p by (auto simp: g1_def split: option.splits)
  then have x2: "get_page g2 x = Some pg" using q by (auto simp: g2_def split: option.splits)
  have w1: "(case pm_prev pg of None \<Rightarrow> Inr g | Some q \<Rightarrow> write_page q (\<lambda>x. x\<lparr>pm_next := pm_next pg\<rparr>) g) = Inr g1"
    using p by (auto simp: g1_def write_page_def split: option.splits)
  have "get_page g1 q \<noteq> None" if "pm_next pg = Some q" for q using q [OF that] by (auto simp: g1_def split: option.splits)
  then have w2: "(case pm_next pg of None \<Rightarrow> Inr g1 | Some q \<Rightarrow> write_page q (\<lambda>x. x\<lparr>pm_prev := pm_prev pg\<rparr>) g1) = Inr g2"
    by (auto simp: g2_def write_page_def split: option.splits)
  have "bin_remove_page a x g = Inr g4"
    using x1 x2 w1 w2 x by (simp add: bin_remove_page_def deref_page_ok write_page_def g4_def g3_def)
  moreover have n2: "bin_node a bin g2 = bin_node a bin g"
    unfolding g2_def g1_def by (auto simp: bin_fields_upd_page split: option.splits)
  moreover have "bin_node a bin g4 = bin_node a bin g2" unfolding g4_def by (subst bin_fields_upd_page) (auto simp: g3_def)
  moreover have "bin_head a bin g2 = bin_head a bin g" by (simp add: g2_def g1_def split: option.splits)
  then have "bin_head a bin g4 = (if bin_head a bin g = Some x then bin_nxt g x else bin_head a bin g)"
    using x(1) n n2 bin_head_set [of a bin g2 x] by (simp add: g4_def g3_def bin_nxt_def)
  moreover have "bin_nxt g4 y = bin_nxt g2 y" "bin_prv g4 y = bin_prv g2 y" if "y \<noteq> x" for y
    using that by (simp_all add: g4_def g3_def bin_nxt_def bin_prv_def)
  moreover have "bin_nxt g2 y = bypass (bin_prv g x) (bin_nxt g x) (bin_nxt g) y" for y
    using x(1) p q unfolding g2_def g1_def by (auto simp: bin_nxt_def bin_prv_def bypass_def fun_eq_iff split: option.splits)
  moreover have "bin_prv g2 y = bypass (bin_nxt g x) (bin_prv g x) (bin_prv g) y" for y
    using x(1) p q unfolding g2_def g1_def by (auto simp: bin_nxt_def bin_prv_def bypass_def fun_eq_iff split: option.splits)
  ultimately show "\<exists>g'. bin_remove_page a x g = Inr g' \<and>
      bin_head a bin g' = (if bin_head a bin g = Some x then bin_nxt g x else bin_head a bin g) \<and>
      (\<forall>y. y \<noteq> x \<longrightarrow> bin_nxt g' y = bypass (bin_prv g x) (bin_nxt g x) (bin_nxt g) y) \<and>
      (\<forall>y. y \<noteq> x \<longrightarrow> bin_prv g' y = bypass (bin_nxt g x) (bin_prv g x) (bin_prv g) y) \<and> bin_node a bin g' = bin_node a bin g"
    by (intro exI [of _ g4]) simp
qed

section \<open>Links do not matter to pages\<close>

definition page_core :: "page_meta \<Rightarrow> page_meta" where
  "page_core pg = pg\<lparr>pm_next := None, pm_prev := None\<rparr>"

lemma links_irrelevant:
  fixes pg :: page_meta
  defines "pg' \<equiv> page_core pg"
  shows "page_inv e m pg' = page_inv e m pg" "page_live m pg' = page_live m pg" "page_wf e m pp pg' = page_wf e m pp pg"
    "pm_slot_size pg' = pm_slot_size pg" "pm_state pg' = pm_state pg" "pm_bin_idx pg' = pm_bin_idx pg" "pm_arena pg' = pm_arena pg"
    "pm_owner_tid pg' = pm_owner_tid pg" "pm_bump_offset pg' = pm_bump_offset pg" "pm_bump_end pg' = pm_bump_end pg"
proof -
  have s: "page_start pg' = page_start pg" "slot_addr pg' = slot_addr pg" "bump_count pg' = bump_count pg" "page_geom pg' = page_geom pg"
    "page_free m pg' = page_free m pg" "slot_bit pg' = slot_bit pg"
    by (simp_all add: pg'_def page_core_def page_start_def slot_addr_def fun_eq_iff bump_count_def page_geom_def page_free_def slot_bit_def)
  show l: "page_live m pg' = page_live m pg" by (simp add: page_live_def s)
  have f: "pm_slot_size pg' = pm_slot_size pg" "pm_bin_idx pg' = pm_bin_idx pg" "pm_bump_offset pg' = pm_bump_offset pg"
    "pm_capacity pg' = pm_capacity pg" "pm_debug_bitmap pg' = pm_debug_bitmap pg" "pm_state pg' = pm_state pg"
    "pm_segment pg' = pm_segment pg" "pm_page_index pg' = pm_page_index pg" by (simp_all add: pg'_def page_core_def)
  have "page_ok m pg' = page_ok m pg"
    unfolding page_ok_def page_lists_def s by (simp add: pg'_def page_core_def)
  moreover have "virgin m pg' = virgin m pg" "dbg_ok e m pg' = dbg_ok e m pg" by (simp_all add: virgin_def dbg_ok_def s l f)
  ultimately show i: "page_inv e m pg' = page_inv e m pg" by (simp add: page_inv_def f)
  then show "page_wf e m pp pg' = page_wf e m pp pg" by (simp add: page_wf_def f)
qed (simp_all add: pg'_def page_core_def)

lemma same_page_core:
  assumes "page_core pg' = page_core pg"
  shows "page_inv e m pg' = page_inv e m pg" "page_live m pg' = page_live m pg" "page_wf e m pp pg' = page_wf e m pp pg"
    "pm_slot_size pg' = pm_slot_size pg" "pm_state pg' = pm_state pg" "pm_bin_idx pg' = pm_bin_idx pg" "pm_arena pg' = pm_arena pg"
    "pm_owner_tid pg' = pm_owner_tid pg" "pm_bump_offset pg' = pm_bump_offset pg" "pm_bump_end pg' = pm_bump_end pg"
  using links_irrelevant [where pg = pg'] links_irrelevant [where pg = pg] assms by (simp_all only:)

definition seg_hdr :: "segment \<Rightarrow> nat \<times> segment" where
  "seg_hdr sg = (length (sg_pages sg), sg\<lparr>sg_pages := []\<rparr>)"

definition arena_hdr :: "arena \<Rightarrow> nat \<times> arena" where
  "arena_hdr ar = (length (ar_bins ar), ar\<lparr>ar_bins := []\<rparr>)"

definition relink :: "gstate \<Rightarrow> gstate \<Rightarrow> bool" where
  "relink g g' \<longleftrightarrow> g' = g\<lparr>h_segs := h_segs g', g_arenas := g_arenas g'\<rparr> \<and>
     (\<forall>pp. map_option page_core (get_page g' pp) = map_option page_core (get_page g pp)) \<and>
     (\<forall>b. map_option seg_hdr (h_segs g' b) = map_option seg_hdr (h_segs g b)) \<and>
     map arena_hdr (g_arenas g') = map arena_hdr (g_arenas g)"

lemma relink_refl [simp]: "relink g g"
  by (simp add: relink_def)

lemma relink_trans: "relink a b \<Longrightarrow> relink b c \<Longrightarrow> relink a c"
  by (cases a; cases b; cases c) (auto simp: relink_def)

lemma relink_page:
  assumes "\<And>pg. page_core (f pg) = page_core pg"
  shows "relink g (upd_page pp f g)"
proof -
  have "map_option page_core (map_option f x) = map_option page_core x" for x using assms by (cases x) auto
  moreover have "map_option seg_hdr (h_segs (upd_page pp f g) b) = map_option seg_hdr (h_segs g b)" for b
    by (cases "h_segs g b") (auto simp: h_segs_upd_page seg_hdr_def)
  moreover have "upd_page pp f g = g\<lparr>h_segs := h_segs (upd_page pp f g), g_arenas := g_arenas (upd_page pp f g)\<rparr>"
    by (simp add: upd_page_def upd_seg_def)
  ultimately show ?thesis by (auto simp: relink_def)
qed

lemma relink_head: "relink g (set_bin_head a bin h g)"
proof -
  have "map arena_hdr (g_arenas (set_bin_head a bin h g)) = map arena_hdr (g_arenas g)"
    by (cases "a < length (g_arenas g)")
      (simp_all add: set_bin_head_def upd_arena_def map_update list_update_same_conv arena_hdr_def list_update_beyond not_less)
  then show ?thesis by (simp add: relink_def) (simp add: set_bin_head_def upd_arena_def)
qed

lemma relinkD:
  assumes "relink g g'"
  shows "seg_frame g g'" "h_mem g' = h_mem g" "h_log g' = h_log g" "g_registry g' = g_registry g" "locks g' = locks g"
    "length (g_arenas g') = length (g_arenas g)"
    "\<And>a. a < length (g_arenas g) \<Longrightarrow> length (ar_bins (g_arenas g' ! a)) = length (ar_bins (g_arenas g ! a)) \<and>
       ar_segments (g_arenas g' ! a) = ar_segments (g_arenas g ! a)"
    "\<And>pp. map_option page_core (get_page g' pp) = map_option page_core (get_page g pp)"
    "\<And>b. map_option seg_hdr (h_segs g' b) = map_option seg_hdr (h_segs g b)"
proof -
  have e: "g' = g\<lparr>h_segs := h_segs g', g_arenas := g_arenas g'\<rparr>" and m: "map arena_hdr (g_arenas g') = map arena_hdr (g_arenas g)"
    using assms by (auto simp: relink_def)
  show "seg_frame g g'" using e by (cases g; cases g') (simp add: seg_frame_def)
  show "h_mem g' = h_mem g" "h_log g' = h_log g" "g_registry g' = g_registry g" by (subst e, simp)+
  show l: "length (g_arenas g') = length (g_arenas g)" using m by (rule map_eq_imp_length_eq)
  have nth: "arena_hdr (g_arenas g' ! a) = arena_hdr (g_arenas g ! a)" if "a < length (g_arenas g)" for a
    using m l that by (metis nth_map)
  have hdr: "length (ar_bins x) = length (ar_bins y) \<and> ar_segments x = ar_segments y \<and> ar_lock x = ar_lock y"
    if "arena_hdr x = arena_hdr y" for x y using that by (cases x; cases y) (simp add: arena_hdr_def)
  show "length (ar_bins (g_arenas g' ! a)) = length (ar_bins (g_arenas g ! a)) \<and>
       ar_segments (g_arenas g' ! a) = ar_segments (g_arenas g ! a)" if "a < length (g_arenas g)" for a
    using hdr [OF nth [OF that]] by blast
  have "map ar_lock (g_arenas g') = map ar_lock (g_arenas g)"
    using hdr [OF nth] l by (intro nth_equalityI) auto
  moreover have "g_large_lock g' = g_large_lock g" by (subst e) simp
  ultimately show "locks g' = locks g" by (simp add: locks_def)
qed (use assms in \<open>auto simp: relink_def\<close>)

lemma relink_active:
  assumes "relink g g'" "active (h_segs g) pp pg"
  shows "\<exists>pg'. active (h_segs g') pp pg' \<and> page_core pg' = page_core pg"
proof -
  have "map_option page_core (get_page g' pp) = Some (page_core pg)"
    using relinkD(8) [OF assms(1), of pp] assms(2) by (simp add: active_def)
  then obtain pg' where pg': "get_page g' pp = Some pg'" "page_core pg' = page_core pg" by auto
  then show ?thesis using assms(2) same_page_core(5) [OF pg'(2)] by (intro exI [of _ pg']) (simp add: active_def)
qed

lemma relink_sym: "relink g g' \<Longrightarrow> relink g' g"
  by (cases g; cases g') (auto simp: relink_def)

lemma relink_segs:
  assumes "relink g g'" "segs_ok e m (h_segs g)"
  shows "segs_ok e m (h_segs g')"
proof -
  have "seg_hdr_ok b sg'" if at: "h_segs g' b = Some sg'" for b sg'
  proof -
    obtain sg where "h_segs g b = Some sg" "seg_hdr sg = seg_hdr sg'" using relinkD(9) [OF assms(1), of b] at by (cases "h_segs g b") auto
    then show ?thesis using segs_ok_hdr [OF assms(2)] by (auto simp: seg_hdr_ok_def seg_hdr_def)
  qed
  moreover have "page_wf e m pp pg'" if at: "get_page g' pp = Some pg'" for pp pg'
  proof -
    obtain pg where "get_page g pp = Some pg" "page_core pg' = page_core pg" using relinkD(8) [OF assms(1), of pp] at by (cases "get_page g pp") auto
    then show ?thesis using segs_ok_wf [OF assms(2)] same_page_core(3) by blast
  qed
  ultimately show ?thesis unfolding segs_ok_def by blast
qed

lemma relink_None: "relink g g' \<Longrightarrow> h_segs g' b = None \<longleftrightarrow> h_segs g b = None"
  using relinkD(9) [of g g' b] by (cases "h_segs g b"; cases "h_segs g' b") simp_all

lemma relink_region:
  assumes "relink g g'"
  shows "region e g' = region e g"
proof
  fix x
  note F = seg_frameD [OF relinkD(1) [OF assms]]
  show "region e g' x = region e g x"
  proof (cases x)
    case (Seg b)
    then show ?thesis using relink_None [OF assms, of b] by (cases "h_segs g b"; cases "h_segs g' b") simp_all
  qed (simp_all add: F)
qed

lemma relink_path:
  assumes "relink g g'"
  shows "seg_path a (h_segs g) h bs \<Longrightarrow> seg_path a (h_segs g') h bs"
proof (induction bs arbitrary: h)
  case (Cons b bs)
  then obtain sg where sg: "h_segs g b = Some sg" "sg_arena sg = Some a" "seg_path a (h_segs g) (sg_next sg) bs" "h = b" "b \<noteq> 0" by auto
  obtain sg' where sg': "h_segs g' b = Some sg'" "seg_hdr sg' = seg_hdr sg" using relinkD(9) [OF assms, of b] sg(1) by (auto simp: map_option_eq_Some)
  have "sg_next sg' = sg_next sg \<and> sg_arena sg' = sg_arena sg" using sg'(2) by (cases sg; cases sg') (simp add: seg_hdr_def)
  then show ?case using Cons.IH [OF sg(3)] sg sg'(1) by simp
qed simp

lemma relink_slab_blocks:
  assumes "relink g g'"
  shows "slab_blocks m (h_segs g') = slab_blocks m (h_segs g)"
proof -
  have "slab_blocks m (h_segs a) \<subseteq> slab_blocks m (h_segs b)" if r: "relink a b" for a b
  proof
    fix x assume "x \<in> slab_blocks m (h_segs a)"
    then obtain p pp pg where x: "x = (p, unat (pm_slot_size pg))" "active (h_segs a) pp pg" "p \<in> page_live m pg" by (auto simp: slab_blocks_def)
    then obtain pg' where "active (h_segs b) pp pg'" "page_core pg' = page_core pg" using relink_active [OF r] by blast
    moreover from this have "p \<in> page_live m pg'" "x = (p, unat (pm_slot_size pg'))" using x same_page_core(2,4) [of pg' pg] by simp_all
    ultimately show "x \<in> slab_blocks m (h_segs b)" unfolding slab_blocks_def by blast
  qed
  then show ?thesis using assms relink_sym by blast
qed

lemma relink_inv:
  assumes H: "heap_inv e g" and r: "relink g g'"
    and bins: "\<And>a bin. a < 4 \<Longrightarrow> unat bin < 75 \<Longrightarrow> \<exists>xs. dll (bin_head a bin g') (bin_nxt g') (bin_prv g') (bin_node a bin g') xs"
  shows "heap_inv e g' \<and> quiet g g'"
proof -
  note h = heap_invD [OF H] and B = base_okD [OF heap_invD(1) [OF H]] and R = relinkD [OF r]
  have ar: "arena_ok g' a" if a: "a < 4" for a
  proof -
    obtain bs where "seg_path a (h_segs g) (ar_segments (g_arenas g ! a)) bs" using h(5) [OF a] unfolding arena_ok_def by blast
    then have "seg_path a (h_segs g') (ar_segments (g_arenas g' ! a)) bs" using relink_path [OF r] R(7) [of a] a B(4) by simp
    then show ?thesis using bins [OF a] unfolding arena_ok_def by blast
  qed
  have dom: "dom (h_segs g') = dom (h_segs g)" using relink_None [OF r] unfolding dom_def by simp
  have segs: "segs_ok e (h_mem g') (h_segs g')" using relink_segs [OF r] h(4) R(2) by simp
  have reg: "registry_ok (g_registry g') (h_segs g')" using h(2) by (simp add: registry_ok_def dom R(4))
  have lay: "layout_ok e (h_log g') (region e g')" using h(3) by (simp add: R(3) relink_region [OF r])
  have "\<exists>pg'. active (h_segs g') pp pg' \<and> pm_bin_idx pg' = pm_bin_idx pg \<and> pm_owner_tid pg' = pm_owner_tid pg"
    if "active (h_segs g) pp pg" for pp pg using relink_active [OF r that] same_page_core by metis
  moreover have "\<exists>pg. active (h_segs g) pp pg \<and> pm_owner_tid pg' = pm_owner_tid pg \<and> pm_arena pg' = pm_arena pg"
    if "active (h_segs g') pp pg'" for pp pg' using relink_active [OF relink_sym [OF r] that] same_page_core by metis
  ultimately have "heap_inv e g'"
    by (intro seg_step_inv [OF H R(1) _ _ reg lay segs ar] disjI1) (use B R(6,7) in auto)
  moreover have "quiet g g'"
    using seg_frameD [OF R(1)] relink_slab_blocks [OF r] by (simp add: quiet_def blocks_def large_recs_def keeps_def R(2,4))
  ultimately show ?thesis by blast
qed

section \<open>Putting a page on its list\<close>

lemma write_page_relink:
  "write_page pp f g = Inr g' \<Longrightarrow> (\<And>pg. page_core (f pg) = page_core pg) \<Longrightarrow> relink g g'"
  by (auto simp: write_page_def intro: relink_page split: if_splits)

lemma bin_insert_relink:
  assumes "bin_insert_page a pp g = Inr g'" "get_page g pp = Some pg"
  shows "relink g g'" "(c, bi) \<noteq> (a, pm_bin_idx pg) \<Longrightarrow> bin_head c bi g' = bin_head c bi g"
proof -
  define h where "h = bin_head a (pm_bin_idx pg) g"
  obtain g1 g2 where 1: "write_page pp (\<lambda>x. x\<lparr>pm_prev := None, pm_next := h\<rparr>) g = Inr g1"
    and 2: "(case bin_head a (pm_bin_idx pg) g1 of None \<Rightarrow> Inr g1 | Some h \<Rightarrow> write_page h (\<lambda>x. x\<lparr>pm_prev := Some pp\<rparr>) g1) = Inr g2"
    and 3: "g' = set_bin_head a (pm_bin_idx pg) (Some pp) g2"
    using assms unfolding bin_insert_page_def deref_page_ok [OF assms(2)] bindR_simps Let_def bindR_eq_Inr sum.inject h_def by blast
  have r1: "relink g g1" by (rule write_page_relink [OF 1]) (simp add: page_core_def)
  have r2: "relink g1 g2" using 2 write_page_relink by (auto simp: page_core_def split: option.splits)
  show "relink g g'" unfolding 3 using r1 r2 relink_head relink_trans by blast
  have "bin_head c bi g2 = bin_head c bi g" for c bi
    using 1 2 by (auto simp: write_page_def split: option.splits if_splits)
  then show "(c, bi) \<noteq> (a, pm_bin_idx pg) \<Longrightarrow> bin_head c bi g' = bin_head c bi g"
    unfolding 3 by (simp add: bin_head_set_other)
qed

lemma relink_node:
  assumes "relink g g'" "bin_node a bin g pp"
  shows "bin_node a bin g' pp"
proof -
  obtain pg where pg: "active (h_segs g) pp pg" "pm_bin_idx pg = bin" "pm_arena pg = Some a" "a < length (g_arenas g)"
    "unat bin < length (ar_bins (g_arenas g ! a))" using assms(2) by (auto simp: bin_node_def)
  obtain pg' where pg': "active (h_segs g') pp pg'" "page_core pg' = page_core pg" using relink_active [OF assms(1) pg(1)] by blast
  then show ?thesis using pg relinkD(6,7) [OF assms(1)] same_page_core(6,7) [OF pg'(2)] by (auto simp: bin_node_def)
qed

lemma bin_insert_ok:
  assumes H: "heap_inv e g" and a: "a < 4" and n: "new_page a bin pp g"
  shows "\<exists>g'. bin_insert_page a pp g = Inr g' \<and> heap_inv e g' \<and> quiet g g' \<and> relink g g'"
proof -
  note h = heap_invD [OF H] and B = base_okD [OF heap_invD(1) [OF H]]
  obtain pg where pg: "active (h_segs g) pp pg" "pm_bin_idx pg = bin" "pm_arena pg = Some a" using n unfolding new_page_def by blast
  have bin: "unat bin < 75" using page_invD(4) [OF activeD(3) [OF h(4) pg(1)]] pg(2) by (simp add: bin_small_def)
  obtain xs where xs: "dll (bin_head a bin g) (bin_nxt g) (bin_prv g) (bin_node a bin g) xs" "pp \<notin> set xs"
    using n a bin unfolding new_page_def by blast
  have node: "bin_node a bin g pp" using pg a bin B(4,5) by (auto simp: bin_node_def)
  have hd: "bin_node a bin g y \<and> y \<noteq> pp" if "bin_head a bin g = Some y" for y
    using xs that by (cases xs) (auto simp: dll_def)
  obtain g' where g': "bin_insert_page a pp g = Inr g'" "bin_nxt g' = (bin_nxt g)(pp := bin_head a bin g)"
      "bin_prv g' = link_prv pp (bin_head a bin g) (bin_prv g)"
    using arena_list.ins_step [OF node hd] by blast
  obtain g'' where "bin_insert_page a pp g = Inr g''" "dll (bin_head a bin g'') (bin_nxt g'') (bin_prv g'') (bin_node a bin g'') (pp # xs)"
    using arena_list.ins_dll [OF xs(1) node xs(2)] by blast
  then have new: "dll (bin_head a bin g') (bin_nxt g') (bin_prv g') (bin_node a bin g') (pp # xs)" using g'(1) by simp
  note r = bin_insert_relink [OF g'(1) activeD(1) [OF h(4) pg(1)], unfolded pg(2)]
  have "\<exists>ys. dll (bin_head c bi g') (bin_nxt g') (bin_prv g') (bin_node c bi g') ys" if c: "c < 4" "unat bi < 75" for c bi
  proof (cases "(c, bi) = (a, bin)")
    case True
    then show ?thesis using new by blast
  next
    case False
    obtain ys where ys: "dll (bin_head c bi g) (bin_nxt g) (bin_prv g) (bin_node c bi g) ys" using h(5) [OF c(1)] c(2) unfolding arena_ok_def by blast
    have out: "\<not> bin_node a bin g y" if "y \<in> set ys" for y
      using ys that False by (auto simp: dll_def bin_node_def active_def)
    have "dll (bin_head c bi g) (bin_nxt g') (bin_prv g') (bin_node c bi g') ys"
    proof (rule dll_cong [OF ys])
      fix y assume y: "y \<in> set ys"
      show "bin_nxt g' y = bin_nxt g y" using out [OF y] node by (auto simp: g'(2))
      show "bin_prv g' y = bin_prv g y" using out [OF y] node hd by (auto simp: g'(3) link_prv_def split: option.splits)
      show "bin_node c bi g' y" using ys y by (intro relink_node [OF r(1)]) (simp add: dll_def)
    qed
    then show ?thesis using r(2) [OF False] by auto
  qed
  then show ?thesis using relink_inv [OF H r(1)] g'(1) r(1) by blast
qed

section \<open>Searching\<close>

definition has_room :: "gstate \<Rightarrow> page_ptr \<Rightarrow> bool" where
  "has_room g pp \<longleftrightarrow> (\<exists>pg. get_page g pp = Some pg \<and> pm_owner_tid pg = UINT32_MAX \<and> pm_bump_offset pg < pm_bump_end pg)"

lemma bin_walk_dseg:
  assumes "dseg (bin_nxt g) prv q h xs" "\<forall>x\<in>set xs. get_page g x \<noteq> None"
  shows "bin_walk g h = Some (Inr (find (has_room g) xs))"
  using assms
proof (induction xs arbitrary: q h)
  case Nil
  then show ?case by (simp add: bin_walk.simps [of g None])
next
  case (Cons x xs)
  then obtain pg where pg: "h = Some x" "get_page g x = Some pg" by auto
  then have "dseg (bin_nxt g) prv (Some x) (pm_next pg) xs" using Cons.prems by (simp add: bin_nxt_def [of g x])
  then have "bin_walk g (pm_next pg) = Some (Inr (find (has_room g) xs))" using Cons.IH Cons.prems by simp
  then show ?case using pg by (simp add: bin_walk.simps [of g "Some x"] has_room_def [of g x])
qed

lemma bin_walk_ok:
  assumes H: "heap_inv e g" and a: "a < 4" "unat bin < 75"
  shows "bin_walk g (bin_head a bin g) = Some (Inr None) \<or>
    (\<exists>pp pg. bin_walk g (bin_head a bin g) = Some (Inr (Some pp)) \<and> active (h_segs g) pp pg \<and> pm_bin_idx pg = bin \<and>
       pm_arena pg = Some a \<and> pm_owner_tid pg = UINT32_MAX \<and> pm_bump_offset pg < pm_bump_end pg)"
proof -
  obtain xs where xs: "dll (bin_head a bin g) (bin_nxt g) (bin_prv g) (bin_node a bin g) xs"
    using heap_invD(5) [OF H a(1)] a(2) unfolding arena_ok_def by blast
  have "bin_walk g (bin_head a bin g) = Some (Inr (find (has_room g) xs))"
    using xs by (intro bin_walk_dseg [where prv = "bin_prv g" and q = None]) (auto simp: dll_def bin_node_def active_def)
  moreover have "\<exists>pg. active (h_segs g) pp pg \<and> pm_bin_idx pg = bin \<and> pm_arena pg = Some a \<and> pm_owner_tid pg = UINT32_MAX \<and>
      pm_bump_offset pg < pm_bump_end pg" if "find (has_room g) xs = Some pp" for pp
    using that xs by (auto simp: find_Some_iff has_room_def dll_def bin_node_def active_def) (metis nth_mem option.inject)+
  ultimately show ?thesis by (cases "find (has_room g) xs") auto
qed

section \<open>Locks and counters\<close>

lemma calm_arena_upd:
  assumes "\<And>ar. arena_view (f ar) = arena_view ar"
  shows "calm g (upd_arena a f g)"
proof -
  have "map arena_view (g_arenas (upd_arena a f g)) = map arena_view (g_arenas g)"
    using assms by (cases "a < length (g_arenas g)") (simp_all add: upd_arena_def map_update list_update_same_conv list_update_beyond not_less)
  then show ?thesis by (simp add: calm_def)
qed

lemma calm_step:
  assumes "heap_inv e g" "calm g g'"
  shows "heap_inv e g' \<and> quiet g g'"
  using heap_inv_calm [OF assms(2,1)] quiet_calm [OF assms(2)] by blast

lemma unlocked_locks: "heap_inv e g \<Longrightarrow> unlocked g \<longleftrightarrow> \<not> fst (locks g) \<and> (\<forall>i < 64. \<not> snd (locks g) ! i)"
  using base_okD(4) [OF heap_invD(1)] by (simp add: unlocked_def locks_def)

lemma lock_arena_ok:
  assumes "heap_inv e g" "a < 64" "unlocked g"
  shows "\<exists>g'. lock_arena a g = Inr g' \<and> calm g g' \<and> seg_frame g g' \<and> locks g' = (fst (locks g), (snd (locks g))[a := True])"
proof -
  let ?g = "upd_arena a (\<lambda>ar. ar\<lparr>ar_lock := True\<rparr>) g"
  have "lock_arena a g = Inr ?g" using assms by (simp add: lock_arena_def unlocked_def)
  moreover have "calm g ?g" by (rule calm_arena_upd) (simp add: arena_view_def)
  moreover have "locks ?g = (fst (locks g), (snd (locks g))[a := True])"
    using assms base_okD(4) [OF heap_invD(1) [OF assms(1)]] by (simp add: locks_def map_update) (simp add: upd_arena_def map_update)
  ultimately show ?thesis using seg_frame_upds(3) by blast
qed

lemma unlock_arena_ok:
  "calm g (unlock_arena a g)" "seg_frame g (unlock_arena a g)" "locks (unlock_arena a g) = (fst (locks g), (snd (locks g))[a := False])"
proof -
  show "calm g (unlock_arena a g)" unfolding unlock_arena_def by (rule calm_arena_upd) (simp add: arena_view_def)
  show "seg_frame g (unlock_arena a g)" by (simp add: unlock_arena_def)
  show "locks (unlock_arena a g) = (fst (locks g), (snd (locks g))[a := False])"
    by (cases "a < length (g_arenas g)") (simp_all add: unlock_arena_def locks_def upd_arena_def map_update list_update_beyond not_less)
qed

text \<open>Locking and unlocking around a step that leaves the locks alone.\<close>

lemma relock:
  assumes "heap_inv e g" "unlocked g" "heap_inv e g'" "locks g' = (fst (locks g), (snd (locks g))[a := True])"
  shows "unlocked (unlock_arena a g')"
proof -
  have H: "heap_inv e (unlock_arena a g')" using calm_step [OF assms(3) unlock_arena_ok(1)] by blast
  have l: "length (snd (locks g)) = 64" using base_okD(4) [OF heap_invD(1) [OF assms(1)]] by (simp add: locks_def)
  show ?thesis
    using assms(2) unfolding unlocked_locks [OF H] unlocked_locks [OF assms(1)] unlock_arena_ok(3) assms(4) by (cases "a < 64") (auto simp: nth_list_update l list_update_beyond split: if_splits)
qed

section \<open>Allocation from an arena\<close>

lemma debug_alloc_marked:
  assumes "get_page g pp = Some pg" "debug_marked e pg1 p = Inr pg2"
  shows "debug_alloc e pp p (upd_page pp (\<lambda>_. pg1) g) = Inr (upd_page pp (\<lambda>_. pg2) g)"
proof -
  have "get_page (upd_page pp (\<lambda>_. pg1) g) pp = Some pg1" using assms(1) by simp
  then show ?thesis using assms(2) by (auto simp: debug_alloc_def debug_marked_def deref_page_ok comp_def split: if_splits)
qed

text \<open>\<open>got e g p pp pg g'\<close>: slot \<open>p\<close> of page \<open>pp\<close>, \<open>pg\<close> before, has been allocated.\<close>

definition got :: "env \<Rightarrow> gstate \<Rightarrow> addr \<Rightarrow> page_ptr \<Rightarrow> page_meta \<Rightarrow> gstate \<Rightarrow> bool" where
  "got e g p pp pg g' \<longleftrightarrow> heap_inv e g' \<and> adds g p (unat (pm_slot_size pg)) g' \<and> unat p mod 16 = 0 \<and> p \<noteq> 0 \<and>
     (\<exists>pg'. active (h_segs g') pp pg' \<and> p \<in> page_live (h_mem g') pg' \<and> same_id pg pg')"

lemma got_intro:
  assumes H: "heap_inv e g" and pp: "active (h_segs g) pp pg" and I: "page_inv e (h_mem g) pg'" and id: "same_id pg pg'"
    and live: "page_live (h_mem g) pg' = insert p (page_live (h_mem g) pg)" "p \<in> all_slots pg - page_live (h_mem g) pg"
  shows "got e g p pp pg (upd_page pp (\<lambda>_. pg') g)"
proof -
  note A = activeD [OF heap_invD(4) [OF H] pp]
  have s: "heap_inv e (upd_page pp (\<lambda>_. pg') g) \<and> adds g p (unat (pm_slot_size pg)) (upd_page pp (\<lambda>_. pg') g)"
    using page_step_add [OF H pp id I live(1,2) writes_links_refl refl] by simp
  have "p \<in> all_slots pg" using live(2) by blast
  note f = all_slots_facts [OF page_invD(6) [OF A(3)] this]
  have "active (h_segs (upd_page pp (\<lambda>_. pg') g)) pp pg'"
    using same_idD(8) [OF id] A(2) by (simp add: active_upd_page [OF A(1)])
  then show ?thesis using s f(1,3) id live(1) unfolding got_def by auto
qed

lemma got_calm:
  assumes "got e g p pp pg g1" "calm g1 g2"
  shows "got e g p pp pg g2"
  using assms calm_step [of e g1 g2] adds_quiet [of g p _ g1 g2] calmD(6,7) [OF assms(2)] unfolding got_def by auto

lemma quiet_got: "quiet g g1 \<Longrightarrow> got e g1 p pp pg g2 \<Longrightarrow> got e g p pp pg g2"
  using quiet_adds [of g g1] unfolding got_def by blast

lemma arena_bump_ok:
  assumes H: "heap_inv e g" and pp: "active (h_segs g) pp pg" and room: "pm_bump_offset pg < pm_bump_end pg"
  shows "\<exists>p g'. arena_bump e a pp g = Inr (p, g') \<and> got e g p pp pg g' \<and> seg_frame g g' \<and> locks g' = locks g \<and>
    (\<forall>x. unat x \<in> span p (unat (pm_slot_size pg)) \<longrightarrow> h_mem g' x = 0)"
proof -
  note A = activeD [OF heap_invD(4) [OF H] pp]
  let ?p = "fst (page_bump pg)"
  obtain pg' where b: "debug_marked e (snd (page_bump pg)) ?p = Inr pg'" "page_inv e (h_mem g) pg'"
      "page_live (h_mem g) pg' = insert ?p (page_live (h_mem g) pg)" "same_id pg pg'" "?p \<in> all_slots pg - page_live (h_mem g) pg"
      "\<forall>x. unat x \<in> span ?p (unat (pm_slot_size pg)) \<longrightarrow> h_mem g x = 0"
    using bump_inv [OF A(3) room] by blast
  define g1 where "g1 = upd_page pp (\<lambda>_. pg') g"
  define g2 where "g2 = upd_arena a (\<lambda>ar. ar\<lparr>ar_allocated := ar_allocated ar + ucast (pm_slot_size (snd (page_bump pg))),
      ar_alloc_count := ar_alloc_count ar + 1\<rparr>) g1"
  have g: "got e g ?p pp pg g1" unfolding g1_def by (rule got_intro [OF H pp b(2,4,3,5)])
  have c: "calm g1 g2" unfolding g2_def by (rule calm_arena_upd) (simp add: arena_view_def)
  have "arena_bump e a pp g = Inr (?p, g2)"
    using deref_page_ok [OF A(1)] debug_alloc_marked [OF A(1) b(1)]
    by (cases "page_bump pg") (simp add: arena_bump_def g2_def g1_def)
  moreover have "locks g2 = locks g" unfolding g2_def by (subst locks_arena) (auto simp: g1_def)
  moreover have "seg_frame g g2" unfolding g2_def g1_def using seg_frame_trans seg_frame_upds by blast
  moreover have "h_mem g2 = h_mem g" by (simp add: g2_def g1_def)
  ultimately show ?thesis using got_calm [OF g c] b(6) by auto
qed

lemma arena_new_page_ok:
  assumes e: "env_ok e" and H: "heap_inv e g" and a: "a < 4" and bin: "bin_small bin"
  shows "\<exists>r g'. arena_new_page e a bin g = Inr (r, g') \<and> heap_inv e g' \<and> quiet g g' \<and> seg_frame g g' \<and> locks g' = locks g \<and>
    (\<forall>pp. r = Some pp \<longrightarrow> new_page a bin pp g')"
proof -
  have lk: "locks g' = locks g" if "seg_frame g g'" "g_arenas g' = g_arenas g" for g g'
    using that seg_frameD(6) [OF that(1)] by (simp add: locks_def)
  obtain bs where bs: "seg_path a (h_segs g) (ar_segments (g_arenas g ! a)) bs" using heap_invD(5) [OF H a] unfolding arena_ok_def by blast
  from seg_walk_ok [OF H a bin bs] show ?thesis
  proof (elim disjE exE conjE)
    fix pp g' assume "seg_walk e bin (ar_segments (g_arenas g ! a)) g = Some (Inr (Some pp, g'))" and f: "seg_frame g g'" "g_arenas g' = g_arenas g"
      and r: "heap_inv e g'" "quiet g g'" "new_page a bin pp g'"
    then have "arena_new_page e a bin g = Inr (Some pp, g')" by (simp add: arena_new_page_def ends_def of_option_def)
    then show ?thesis using f r lk [OF f] by blast
  next
    assume w: "seg_walk e bin (ar_segments (g_arenas g ! a)) g = Some (Inr (None, g))"
    obtain b g1 where c: "segment_create e (Some a) g = (b, g1)" by fastforce
    note C = segment_create_ok [OF e H c]
    have eq: "arena_new_page e a bin g = (if b = 0 then Inr (None, g1) else bindR (push_segment a b g1) (segment_alloc_page e b bin))"
      using w c by (simp add: arena_new_page_def ends_def of_option_def)
    show ?thesis
    proof (cases "b = 0")
      case True
      then show ?thesis using eq C lk [of g g1] by auto
    next
      case False
      then have c1: "h_segs g b = None" "h_segs g1 = (h_segs g)(b := Some (fresh_segment b (Some a)))" and c2: "heap_inv e g1" "quiet g g1"
        "seg_frame g g1" "g_arenas g1 = g_arenas g" using C by auto
      have sg: "h_segs g1 b = Some (fresh_segment b (Some a))" "sg_arena (fresh_segment b (Some a)) = Some a"
        using c1 by (simp_all add: fresh_segment_def)
      have "seg_path a (h_segs g1) (ar_segments (g_arenas g1 ! a)) bs" using seg_path_new [OF bs c1(1)] c1(2) c2(4) by simp
      moreover have "b \<notin> set bs" using seg_path_dom [OF bs] c1(1) by fastforce
      ultimately obtain g2 where p: "push_segment a b g1 = Inr g2" "heap_inv e g2" "quiet g1 g2" "seg_frame g1 g2" "locks g2 = locks g1"
          "h_segs g2 b = Some ((fresh_segment b (Some a))\<lparr>sg_next := ar_segments (g_arenas g1 ! a)\<rparr>)"
        using push_segment_ok [OF c2(1) a sg] by blast
      have eq2: "arena_new_page e a bin g = segment_alloc_page e b bin g2" using eq False p(1) by simp
      have fr: "seg_frame g g2" "locks g2 = locks g" "quiet g g2"
        using c2 p lk [OF c2(3,4)] seg_frame_trans quiet_trans by (blast, simp, blast)
      have "sg_arena ((fresh_segment b (Some a))\<lparr>sg_next := ar_segments (g_arenas g1 ! a)\<rparr>) = Some a" using sg(2) by simp
      from segment_alloc_page_ok [OF p(2,6) this a bin] show ?thesis
      proof (elim disjE conjE exE)
        assume "segment_alloc_page e b bin g2 = Inr (None, g2)"
        then show ?thesis using eq2 fr p(2) by auto
      next
        fix pp g3 assume s: "segment_alloc_page e b bin g2 = Inr (Some pp, g3)" "heap_inv e g3" "quiet g2 g3" "seg_frame g2 g3"
          "g_arenas g3 = g_arenas g2" "new_page a bin pp g3"
        then show ?thesis
          using eq2 fr lk [OF s(4,5)] quiet_trans [OF fr(3) s(3)] seg_frame_trans [OF fr(1) s(4)] by auto
      qed
    qed
  qed
qed

lemma arena_alloc_ok:
  assumes e: "env_ok e" and H: "heap_inv e g" and u: "unlocked g" and a: "a < 4" and bin: "bin_small bin"
  shows "\<exists>p z' g'. arena_alloc e a bin z g = Inr (p, z', g') \<and> seg_frame g g' \<and> unlocked g' \<and>
    (p = 0 \<and> z' = z \<and> heap_inv e g' \<and> quiet g g' \<or>
     z' \<and> (\<exists>pp pg. got e g p pp pg g' \<and> pm_bin_idx pg = bin \<and> pm_owner_tid pg = UINT32_MAX \<and> unat (pm_slot_size pg) = bin_slot bin) \<and>
     (\<forall>x. unat x \<in> span p (bin_slot bin) \<longrightarrow> h_mem g' x = 0))"
proof -
  have b75: "unat bin < 75" using bin by (simp add: bin_small_def)
  obtain g1 where l: "lock_arena a g = Inr g1" "calm g g1" "seg_frame g g1" "locks g1 = (fst (locks g), (snd (locks g))[a := True])"
    using lock_arena_ok [OF H _ u, of a] a by auto
  note I1 = calm_step [OF H l(2)]
  have fin: "heap_inv e (unlock_arena a h) \<and> quiet g (unlock_arena a h) \<and> seg_frame g (unlock_arena a h) \<and> unlocked (unlock_arena a h)"
    if h: "heap_inv e h" "quiet g1 h" "seg_frame g1 h" "locks h = locks g1" for h
    using calm_step [OF h(1) unlock_arena_ok(1)] I1 h(2) quiet_trans relock [OF H u h(1)] h(4) l(3,4) seg_frame_trans [OF l(3) h(3)]
      seg_frame_trans [OF _ unlock_arena_ok(2)] by metis
  have bump: ?thesis
    if h: "heap_inv e h" "quiet g1 h" "seg_frame g1 h" "locks h = locks g1" and pp: "active (h_segs h) pp pg" "pm_bump_offset pg < pm_bump_end pg"
      "pm_bin_idx pg = bin" "pm_owner_tid pg = UINT32_MAX"
      and r: "arena_alloc e a bin z g = bindR (arena_bump e a pp h) (\<lambda>(slot, g). Inr (slot, True, unlock_arena a g))" for h pp pg
  proof -
    obtain p g' where b: "arena_bump e a pp h = Inr (p, g')" "got e h p pp pg g'" "seg_frame h g'" "locks g' = locks h"
        "\<forall>x. unat x \<in> span p (unat (pm_slot_size pg)) \<longrightarrow> h_mem g' x = 0" using arena_bump_ok [OF h(1) pp(1,2)] by blast
    define g2 where "g2 = unlock_arena a g'"
    have s: "unat (pm_slot_size pg) = bin_slot bin"
      using page_invD(5) [OF activeD(3) [OF heap_invD(4) [OF h(1)] pp(1)]] pp(3) by simp
    have "got e g p pp pg g2"
      using got_calm [OF quiet_got [OF _ b(2)] unlock_arena_ok(1)] quiet_trans I1 h(2) unfolding g2_def by blast
    moreover have "unlocked g2" using relock [OF H u _ _, of g' a] b(2,4) h(4) l(4) by (simp add: got_def g2_def)
    moreover have "seg_frame g g2" using l(3) h(3) b(3) unlock_arena_ok(2) seg_frame_trans unfolding g2_def by metis
    moreover have "arena_alloc e a bin z g = Inr (p, True, g2)" using r b(1) by (simp add: g2_def)
    moreover have "\<forall>x. unat x \<in> span p (bin_slot bin) \<longrightarrow> h_mem g2 x = 0" using b(5) s by (simp add: g2_def unlock_arena_def)
    ultimately show ?thesis using pp(3,4) s by blast
  qed
  from bin_walk_ok [OF conjunct1 [OF I1] a b75] show ?thesis
  proof (elim disjE exE conjE)
    fix pp pg assume w: "bin_walk g1 (bin_head a bin g1) = Some (Inr (Some pp))" and pg: "active (h_segs g1) pp pg" "pm_bin_idx pg = bin"
      "pm_owner_tid pg = UINT32_MAX" "pm_bump_offset pg < pm_bump_end pg"
    have "arena_alloc e a bin z g = bindR (arena_bump e a pp g1) (\<lambda>(slot, g). Inr (slot, True, unlock_arena a g))"
      using l(1) w by (simp add: arena_alloc_def ends_def of_option_def)
    then show ?thesis by (intro bump [of g1, OF _ _ _ _ pg(1,4,2,3)]) (use I1 in simp_all)
  next
    assume w: "bin_walk g1 (bin_head a bin g1) = Some (Inr None)"
    obtain r g2 where n: "arena_new_page e a bin g1 = Inr (r, g2)" "heap_inv e g2" "quiet g1 g2" "seg_frame g1 g2" "locks g2 = locks g1"
        "\<forall>pp. r = Some pp \<longrightarrow> new_page a bin pp g2" using arena_new_page_ok [OF e conjunct1 [OF I1] a bin] by blast
    show ?thesis
    proof (cases r)
      case None
      then have "arena_alloc e a bin z g = Inr (0, z, unlock_arena a g2)" using l(1) w n(1) by (simp add: arena_alloc_def ends_def of_option_def)
      then show ?thesis using fin [OF n(2-5)] by auto
    next
      case (Some pp)
      obtain g3 where i: "bin_insert_page a pp g2 = Inr g3" "heap_inv e g3" "quiet g2 g3" "relink g2 g3"
        using bin_insert_ok [OF n(2) a] n(6) Some by blast
      obtain pg where pg: "active (h_segs g2) pp pg" "pm_bin_idx pg = bin" "pm_owner_tid pg = UINT32_MAX" "pm_bump_offset pg < pm_bump_end pg"
        using n(6) Some unfolding new_page_def by blast
      obtain pg' where pg': "active (h_segs g3) pp pg'" "page_core pg' = page_core pg" using relink_active [OF i(4) pg(1)] by blast
      note sp = same_page_core [OF pg'(2)]
      have "arena_alloc e a bin z g = bindR (arena_bump e a pp g3) (\<lambda>(slot, g). Inr (slot, True, unlock_arena a g))"
        using l(1) w n(1) Some i(1) by (simp add: arena_alloc_def ends_def of_option_def)
      moreover have "quiet g1 g3" "seg_frame g1 g3" "locks g3 = locks g1" "pm_bump_offset pg' < pm_bump_end pg'"
        using quiet_trans [OF n(3) i(3)] seg_frame_trans [OF n(4)] relinkD(1,5) [OF i(4)] n(5) sp pg(4) by simp_all
      ultimately show ?thesis by (intro bump [OF i(2) _ _ _ pg'(1)]) (use sp(6,8) pg(2,3) in simp_all)
    qed
  qed
qed

end
