(* ===== verification/Slab_Correct.thy ===== *)
theory Slab_Correct
  imports Arena_Correct
begin

unbundle bit_operations_syntax

text \<open>
  The slab allocator: from an address back to its page, the counters of a thread, the fast path through the
  cached page, the slow path through the arena with the claim of a page, and the two ways to free.
\<close>

section \<open>From an address to its page\<close>

lemma segment_base:
  assumes "unat b mod 4194304 = 0" "unat p \<in> span b 4194304"
  shows "p AND SEGMENT_MASK = b"
proof -
  define r where "r = unat p - unat b"
  have r: "unat p = unat b + r" "r < 4194304" using assms(2) by (auto simp: r_def)
  then have "unat p mod 4194304 = r" using assms(1) by (simp add: mod_add_eq [symmetric, of "unat b"])
  then have "unat (p AND SEGMENT_MASK) = unat b"
    using r(1) by (simp add: config_simps unat_and_not_mask)
  then show ?thesis by (simp add: word_unat_eq_iff)
qed

lemma ptr_to_segment_at:
  assumes "reg_ok (g_registry g)" "b \<noteq> 0" "unat b mod 4194304 = 0" "unat p \<in> span b 4194304"
  shows "ptr_to_segment g p = (if b \<in> reg_set (g_registry g) then b else 0)"
  using segment_base [OF assms(3,4)] isin_iff [OF assms(1,2)] by (simp add: ptr_to_segment_def)

lemma page_index_at:
  assumes "unat p \<in> page_span (b, i)" "i < 64"
  shows "unat (ucast ((p - b) div PAGE_SIZE_ALLOC) :: u16) = i"
proof -
  define r where "r = unat p - unat b - i * 65536"
  have r: "unat p = unat b + (i * 65536 + r)" "r < 65536" using assms(1) by (auto simp: r_def page_span_def)
  have le: "b \<le> p" using r(1) by (simp add: word_le_nat_alt)
  have "unat (p - b) = i * 65536 + r" using r(1) by (simp add: unat_sub [OF le])
  then have "unat ((p - b) div PAGE_SIZE_ALLOC) = i" using r(2) by (simp add: unat_div config_simps)
  then show ?thesis using assms(2) by (simp add: unsigned_ucast_eq take_bit_nat_eq_self)
qed

lemma ptr_to_page_at:
  assumes H: "heap_inv e g" and pp: "get_page g pp = Some pg" and p: "unat p \<in> page_span pp"
  shows "ptr_to_segment g p = (if fst pp \<in> reg_set (g_registry g) then fst pp else 0)"
    "ptr_to_page g p = (if fst pp \<in> reg_set (g_registry g) then Some pp else None)"
proof -
  note h = heap_invD [OF H] and s = page_start_at [OF heap_invD(4) [OF H] pp]
  have "reg_ok (g_registry g)" using h(2) by (simp add: registry_ok_def)
  from ptr_to_segment_at [OF this s(7,8)] show sg: "ptr_to_segment g p = (if fst pp \<in> reg_set (g_registry g) then fst pp else 0)"
    using s(4) p by blast
  show "ptr_to_page g p = (if fst pp \<in> reg_set (g_registry g) then Some pp else None)"
    using sg s(3,7) page_index_at [of p "fst pp" "snd pp"] p by (auto simp: ptr_to_page_def Let_def config_simps)
qed

text \<open>An address outside every registered segment has no page.\<close>

lemma ptr_to_segment_large:
  assumes H: "heap_inv e g" and p: "unat p \<in> region e g x" and x: "\<And>b. x \<noteq> Seg b"
  shows "ptr_to_segment g p = 0"
proof (rule ccontr)
  note h = heap_invD [OF H]
  define b where "b = p AND SEGMENT_MASK"
  assume "ptr_to_segment g p \<noteq> 0"
  then have b: "b \<noteq> 0" "segment_is_registered (g_registry g) b" by (auto simp: ptr_to_segment_def Let_def b_def split: if_splits)
  have r: "reg_ok (g_registry g)" "reg_set (g_registry g) \<subseteq> dom (h_segs g)" using h(2) by (auto simp: registry_ok_def)
  then have "b \<in> dom (h_segs g)" using isin_iff [OF r(1) b(1)] b(2) by blast
  then have "region e g (Seg b) = span b 4194304" by auto
  moreover have "unat b = unat p - unat p mod 4194304" by (simp add: b_def config_simps unat_and_not_mask)
  then have "unat p \<in> span b 4194304" using mod_less_divisor [of 4194304 "unat p"] by simp
  ultimately show False using layout_disjoint [OF h(3), of x "Seg b"] x p by blast
qed

section \<open>Counters of a thread\<close>

lemma calm_tld_upd:
  assumes "\<And>d. t_tld g t = Some d \<Longrightarrow> tld_le d (f d)"
  shows "calm g (upd_tld t f g)"
proof -
  have "rel_option tld_le (t_tld g t') (t_tld (upd_tld t f g) t')" for t'
    using assms by (cases "t_tld g t") (auto simp: option.rel_map)
  then show ?thesis by (simp add: calm_def)
qed

text \<open>Steps inside a call: no lock, no counter of arenas or threads changes hands.\<close>

definition inside :: "thread \<Rightarrow> gstate \<Rightarrow> gstate \<Rightarrow> bool" where
  "inside t g g' \<longleftrightarrow> locks g' = locks g \<and> g_arena_next g' = g_arena_next g \<and> g_registry g' = g_registry g \<and>
     t_thread_id_counter g' = t_thread_id_counter g \<and> rel_option tld_le (t_tld g t) (t_tld g' t) \<and> t_errno g' = t_errno g"

lemma inside_refl [simp]: "inside t g g"
  by (simp add: inside_def)

lemma rel_tld_le_trans: "rel_option tld_le x y \<Longrightarrow> rel_option tld_le y z \<Longrightarrow> rel_option tld_le x z"
  by (cases x; cases y; cases z) (auto intro: tld_le_trans)

lemma inside_trans: "inside t a b \<Longrightarrow> inside t b c \<Longrightarrow> inside t a c"
  unfolding inside_def by (auto intro: rel_tld_le_trans)

lemma inside_upds [simp]: "inside t g (upd_page pp f g)" "inside t g (g\<lparr>h_mem := m\<rparr>)"
  by (auto simp: inside_def locks_def)

lemma inside_tld:
  assumes "\<And>d. t_tld g t' = Some d \<Longrightarrow> tld_le d (f d)"
  shows "inside t g (upd_tld t' f g)"
  using assms by (cases "t_tld g t'") (auto simp: inside_def option.rel_map)

lemma inside_arena: "(\<And>ar. ar_lock (f ar) = ar_lock ar) \<Longrightarrow> inside t g (upd_arena a f g)"
  using locks_arena [of f a g] by (simp add: inside_def)

lemma tld_stat_flush_ok:
  assumes "t_tld g t = Some d" "tl_arena d \<noteq> None"
  shows "\<exists>g'. tld_stat_flush t g = Inr g' \<and> calm g g' \<and> inside t g g'"
proof -
  obtain a where a: "tl_arena d = Some a" using assms(2) by blast
  let ?F = "\<lambda>ar. ar\<lparr>ar_allocated := ar_allocated ar + tl_stat_allocated d, ar_freed := ar_freed ar + tl_stat_freed d,
                ar_alloc_count := ar_alloc_count ar + tl_stat_alloc_count d, ar_free_count := ar_free_count ar + tl_stat_free_count d\<rparr>"
  let ?D = "\<lambda>d. d\<lparr>tl_stat_allocated := 0, tl_stat_freed := 0, tl_stat_alloc_count := 0, tl_stat_free_count := 0, tl_stat_ops := 0\<rparr>"
  have "tld_stat_flush t g = Inr (upd_tld t ?D (upd_arena a ?F g))" using assms a by (simp add: tld_stat_flush_def)
  moreover have "calm g (upd_arena a ?F g)" by (rule calm_arena_upd) (simp add: arena_view_def)
  moreover have "calm (upd_arena a ?F g) (upd_tld t ?D (upd_arena a ?F g))" by (rule calm_tld_upd) (simp add: tld_le_def)
  moreover have "inside t g (upd_arena a ?F g)" by (rule inside_arena) simp
  moreover have "inside t (upd_arena a ?F g) (upd_tld t ?D (upd_arena a ?F g))" by (rule inside_tld) (simp add: tld_le_def)
  ultimately show ?thesis using calm_trans inside_trans by blast
qed

lemma tld_stat_tick_ok:
  assumes "t_tld g t = Some d" "tl_arena d \<noteq> None"
  shows "\<exists>g'. tld_stat_tick t g = Inr g' \<and> calm g g' \<and> inside t g g'"
proof -
  let ?g = "upd_tld t (\<lambda>d. d\<lparr>tl_stat_ops := tl_stat_ops d + 1\<rparr>) g"
  have c: "calm g ?g" "inside t g ?g" by (rule calm_tld_upd inside_tld; simp add: tld_le_def)+
  obtain d' where d': "t_tld ?g t = Some d'" "tl_arena d' \<noteq> None" using assms by simp
  obtain g' where f: "tld_stat_flush t ?g = Inr g'" "calm ?g g'" "inside t ?g g'" using tld_stat_flush_ok [OF d'] by blast
  have "tld_stat_tick t g = (if tl_stat_ops d' \<ge> STAT_FLUSH_INTERVAL then Inr g' else Inr ?g)"
    unfolding tld_stat_tick_def Let_def d'(1) f(1) by simp
  moreover have "calm g g'" "inside t g g'" by (rule calm_trans [OF c(1) f(2)], rule inside_trans [OF c(2) f(3)])
  ultimately show ?thesis using c by (cases "tl_stat_ops d' \<ge> STAT_FLUSH_INTERVAL") auto
qed

lemma tld_stat_ok:
  assumes "t_tld g t = Some d" "tl_arena d \<noteq> None"
  shows "\<exists>g'. tld_stat_alloc t n g = Inr g' \<and> calm g g' \<and> inside t g g'"
    "\<exists>g'. tld_stat_free t n g = Inr g' \<and> calm g g' \<and> inside t g g'"
proof -
  have "\<exists>g'. tld_stat_tick t (upd_tld t f g) = Inr g' \<and> calm g g' \<and> inside t g g'"
    if le: "\<And>d. tld_le d (f d)" and ar: "tl_arena (f d) = tl_arena d" for f
  proof -
    obtain g' where "tld_stat_tick t (upd_tld t f g) = Inr g'" "calm (upd_tld t f g) g'" "inside t (upd_tld t f g) g'"
      using tld_stat_tick_ok [of "upd_tld t f g" t "f d"] assms ar by auto
    moreover have "calm g (upd_tld t f g)" "inside t g (upd_tld t f g)" by (rule calm_tld_upd inside_tld; rule le)+
    ultimately show ?thesis using calm_trans inside_trans by blast
  qed
  then show "\<exists>g'. tld_stat_alloc t n g = Inr g' \<and> calm g g' \<and> inside t g g'"
    "\<exists>g'. tld_stat_free t n g = Inr g' \<and> calm g g' \<and> inside t g g'"
    unfolding tld_stat_alloc_def tld_stat_free_def by (simp_all add: tld_le_def)
qed

section \<open>The cached page\<close>

lemma slab_take_ok:
  assumes H: "heap_inv e g" and pp: "active (h_segs g) pp pg" and m: "debug_marked e (snd sp) (fst sp) = Inr pg'"
    and I: "page_inv e (h_mem g) pg'" and live: "page_live (h_mem g) pg' = insert (fst sp) (page_live (h_mem g) pg)"
    and id: "same_id pg pg'" and p: "fst sp \<in> all_slots pg - page_live (h_mem g) pg"
    and d: "t_tld g t = Some d" "tl_arena d \<noteq> None"
  shows "\<exists>g'. slab_take e t pp sp g = Inr (fst sp, g') \<and> got e g (fst sp) pp pg g' \<and> inside t g g' \<and> h_mem g' = h_mem g"
proof -
  note A = activeD [OF heap_invD(4) [OF H] pp]
  define g1 where "g1 = upd_page pp (\<lambda>_. pg') g"
  have d1: "t_tld g1 t = Some d" using d(1) by (simp add: g1_def)
  have g: "got e g (fst sp) pp pg g1" unfolding g1_def by (rule got_intro [OF H pp I id live p])
  obtain g2 where s: "tld_stat_alloc t (ucast (pm_slot_size (snd sp))) g1 = Inr g2" "calm g1 g2" "inside t g1 g2"
    using tld_stat_ok(1) [OF d1 d(2)] by blast
  have "slab_take e t pp sp g = Inr (fst sp, g2)"
    using debug_alloc_marked [OF A(1) m] s(1) by (simp add: slab_take_def g1_def)
  moreover have "inside t g g2" using inside_trans [OF inside_upds(1) s(3) [unfolded g1_def]] .
  ultimately show ?thesis using got_calm [OF g s(2)] calmD(7) [OF s(2)] by (auto simp: g1_def)
qed

text \<open>The outcome of the fast path.\<close>

definition fast_result :: "env \<Rightarrow> gstate \<Rightarrow> u8 \<Rightarrow> (addr \<times> bool) option \<Rightarrow> gstate \<Rightarrow> bool" where
  "fast_result e g bin r g' \<longleftrightarrow>
     (case r of None \<Rightarrow> heap_inv e g' \<and> quiet g g'
      | Some (p, z) \<Rightarrow> \<exists>pp pg. got e g p pp pg g' \<and> unat (pm_slot_size pg) = bin_slot bin \<and>
          (z \<longrightarrow> (\<forall>x. unat x \<in> span p (bin_slot bin) \<longrightarrow> h_mem g' x = 0)))"

lemma fast_resultI:
  assumes "got e g p pp pg g'" "unat (pm_slot_size pg) = bin_slot bin" "z \<Longrightarrow> \<forall>x. unat x \<in> span p (bin_slot bin) \<longrightarrow> h_mem g' x = 0"
  shows "fast_result e g bin (Some (p, z)) g'"
  unfolding fast_result_def option.case prod.case using assms by (intro exI [of _ pp] exI [of _ pg]) blast

lemma collect_step:
  assumes H: "heap_inv e g" and pp: "active (h_segs g) pp pg"
  shows "\<exists>m pg1 g1. page_collect_remote (h_mem g) pg = Some (m, pg1) \<and> g1 = upd_page pp (\<lambda>_. pg1) (g\<lparr>h_mem := m\<rparr>) \<and>
    heap_inv e g1 \<and> quiet g g1 \<and> active (h_segs g1) pp pg1 \<and> same_id pg pg1 \<and> inside t g g1 \<and> t_tld g1 = t_tld g"
proof -
  note A = activeD [OF heap_invD(4) [OF H] pp]
  obtain m pg1 where c: "page_collect_remote (h_mem g) pg = Some (m, pg1)" "page_inv e m pg1" "page_live m pg1 = page_live (h_mem g) pg"
      "same_id pg pg1" "writes_links (h_mem g) m (page_free (h_mem g) pg)" using collect_inv [OF A(3)] by blast
  define g1 where "g1 = upd_page pp (\<lambda>_. pg1) (g\<lparr>h_mem := m\<rparr>)"
  have "heap_inv e g1 \<and> quiet g g1" by (rule page_step_quiet [OF H pp c(4,2,3,5) g1_def])
  moreover have "active (h_segs g1) pp pg1"
    using same_idD(8) [OF c(4)] A(2) by (simp add: g1_def active_upd_page [OF A(1)])
  moreover have "inside t g g1" unfolding g1_def by (rule inside_trans [OF inside_upds(2) inside_upds(1)])
  moreover have "t_tld g1 = t_tld g" by (simp add: g1_def)
  ultimately show ?thesis using c(1,4) g1_def by blast
qed

lemma update_None_nth: "i < length xs \<Longrightarrow> xs[k := None] ! i = xs ! i \<or> xs[k := None] ! i = None"
  by (cases "k = i") simp_all

lemma slab_fast_ok:
  assumes H: "heap_inv e g" and d: "t_tld g t = Some d" and bin: "unat bin < 75"
  shows "\<exists>r g'. slab_fast e t bin g = Inr (r, g') \<and> inside t g g' \<and> fast_result e g bin r g'"
proof (cases "tl_bin_page d ! unat bin")
  case None
  then show ?thesis using d H by (simp add: slab_fast_def fast_result_def)
next
  case (Some pp)
  note h = heap_invD [OF H]
  obtain pg where pg: "active (h_segs g) pp pg" "unat (pm_bin_idx pg) = unat bin" "pm_owner_tid pg = tl_thread_id d"
    using tld_okD(6) [OF h(7) [OF d] bin Some] by blast
  note A = activeD [OF h(4) pg(1)]
  have ar: "tl_arena d \<noteq> None" by (rule owners_okD(3) [OF h(8) pg(1) d pg(3)])
  have sl: "unat (pm_slot_size pg) = bin_slot bin" using page_invD(5) [OF A(3)] pg(2) by (simp add: bin_slot_def)
  have eq: "slab_fast e t bin g =
      (if pm_local_free pg \<noteq> 0 then bindR (slab_take e t pp (page_pop_local (h_mem g) pg) g) (\<lambda>(slot, g). Inr (Some (slot, False), g))
       else if pm_bump_offset pg < pm_bump_end pg then bindR (slab_take e t pp (page_bump pg) g) (\<lambda>(slot, g). Inr (Some (slot, True), g))
       else bindR (of_option Diverges (page_collect_remote (h_mem g) pg)) (\<lambda>(m, pg).
            let g = upd_page pp (\<lambda>_. pg) (g\<lparr>h_mem := m\<rparr>)
            in if pm_local_free pg \<noteq> 0 then
                 bindR (slab_take e t pp (page_pop_local (h_mem g) pg) g) (\<lambda>(slot, g). Inr (Some (slot, False), g))
               else Inr (None, upd_tld t (\<lambda>d. d\<lparr>tl_bin_page := (tl_bin_page d)[unat bin := None]\<rparr>) g)))"
    using d Some A(1,2) by (simp add: slab_fast_def deref_page_ok)
  consider (pop) "pm_local_free pg \<noteq> 0" | (bump) "pm_local_free pg = 0" "pm_bump_offset pg < pm_bump_end pg"
    | (collect) "pm_local_free pg = 0" "\<not> pm_bump_offset pg < pm_bump_end pg" by blast
  then show ?thesis
  proof cases
    case pop
    let ?s = "page_pop_local (h_mem g) pg"
    obtain pg' where "debug_marked e (snd ?s) (fst ?s) = Inr pg'" "page_inv e (h_mem g) pg'"
        "page_live (h_mem g) pg' = insert (fst ?s) (page_live (h_mem g) pg)" "same_id pg pg'" "fst ?s \<in> all_slots pg - page_live (h_mem g) pg"
      using pop_inv [OF A(3) pop] by blast
    from slab_take_ok [OF H pg(1) this d ar]
    obtain g' where "slab_take e t pp ?s g = Inr (fst ?s, g')" "got e g (fst ?s) pp pg g'" "inside t g g'" by blast
    then show ?thesis
      using eq pop sl by (intro exI [of _ "Some (fst ?s, False)"] exI [of _ g'] conjI fast_resultI [of e g _ pp pg]) simp_all
  next
    case bump
    let ?s = "page_bump pg"
    obtain pg' where b: "debug_marked e (snd ?s) (fst ?s) = Inr pg'" "page_inv e (h_mem g) pg'"
        "page_live (h_mem g) pg' = insert (fst ?s) (page_live (h_mem g) pg)" "same_id pg pg'" "fst ?s \<in> all_slots pg - page_live (h_mem g) pg"
        "\<forall>x. unat x \<in> span (fst ?s) (unat (pm_slot_size pg)) \<longrightarrow> h_mem g x = 0"
      using bump_inv [OF A(3) bump(2)] by blast
    from slab_take_ok [OF H pg(1) b(1-5) d ar]
    obtain g' where "slab_take e t pp ?s g = Inr (fst ?s, g')" "got e g (fst ?s) pp pg g'" "inside t g g'" "h_mem g' = h_mem g" by blast
    then show ?thesis
      using eq bump sl b(6) by (intro exI [of _ "Some (fst ?s, True)"] exI [of _ g'] conjI fast_resultI [of e g _ pp pg]) simp_all
  next
    case collect
    obtain m pg1 g1 where c: "page_collect_remote (h_mem g) pg = Some (m, pg1)" "g1 = upd_page pp (\<lambda>_. pg1) (g\<lparr>h_mem := m\<rparr>)"
        "heap_inv e g1" "quiet g g1" "active (h_segs g1) pp pg1" "same_id pg pg1" "inside t g g1" "t_tld g1 = t_tld g"
      using collect_step [OF H pg(1), of t] by blast
    have sl1: "unat (pm_slot_size pg1) = bin_slot bin" using sl same_idD(3) [OF c(6)] by simp
    show ?thesis
    proof (cases "pm_local_free pg1 = 0")
      case True
      let ?g = "upd_tld t (\<lambda>d. d\<lparr>tl_bin_page := (tl_bin_page d)[unat bin := None]\<rparr>) g1"
      have "calm g1 ?g" and i: "inside t g1 ?g" by (rule calm_tld_upd inside_tld; simp add: tld_le_def update_None_nth)+
      then have "heap_inv e ?g" "quiet g ?g" using calm_step [OF c(3)] quiet_trans [OF c(4)] by blast+
      then show ?thesis
        using eq collect c(1,2) True inside_trans [OF c(7) i] by (auto simp: fast_result_def of_option_def)
    next
      case False
      let ?s = "page_pop_local (h_mem g1) pg1"
      obtain pg' where "debug_marked e (snd ?s) (fst ?s) = Inr pg'" "page_inv e (h_mem g1) pg'"
          "page_live (h_mem g1) pg' = insert (fst ?s) (page_live (h_mem g1) pg1)" "same_id pg1 pg'" "fst ?s \<in> all_slots pg1 - page_live (h_mem g1) pg1"
        using pop_inv [OF activeD(3) [OF heap_invD(4) [OF c(3)] c(5)] False] by blast
      from slab_take_ok [OF c(3,5) this _ ar, of t]
      obtain g' where s: "slab_take e t pp ?s g1 = Inr (fst ?s, g')" "got e g1 (fst ?s) pp pg1 g'" "inside t g1 g'" using c(8) d by auto
      have "slab_fast e t bin g = Inr (Some (fst ?s, False), g')" using eq collect c(1,2) False s(1) by (simp add: of_option_def)
      then show ?thesis
        using inside_trans [OF c(7) s(3)] sl1 fast_resultI [OF quiet_got [OF c(4) s(2)], of bin False] by auto
    qed
  qed
qed

section \<open>Claiming a page\<close>

lemma owner_irrelevant:
  "page_inv e m (pg\<lparr>pm_owner_tid := i\<rparr>) = page_inv e m pg" "page_live m (pg\<lparr>pm_owner_tid := i\<rparr>) = page_live m pg"
proof -
  let ?pg = "pg\<lparr>pm_owner_tid := i\<rparr>"
  have s: "page_start ?pg = page_start pg" "slot_addr ?pg = slot_addr pg" "bump_count ?pg = bump_count pg" "page_geom ?pg = page_geom pg"
    "page_free m ?pg = page_free m pg" "slot_bit ?pg = slot_bit pg"
    by (simp_all add: page_start_def slot_addr_def fun_eq_iff bump_count_def page_geom_def page_free_def slot_bit_def)
  show l: "page_live m ?pg = page_live m pg" by (simp add: page_live_def s)
  have "page_ok m ?pg = page_ok m pg" unfolding page_ok_def page_lists_def s by simp
  then show "page_inv e m ?pg = page_inv e m pg" by (simp add: page_inv_def virgin_def dbg_ok_def s l)
qed

lemma claim_owners:
  assumes H: "heap_inv e g" and d: "t_tld g t = Some d" "tl_arena d \<noteq> None" and pp: "active (h_segs g) pp pg"
    and own: "pm_owner_tid pg = UINT32_MAX" and g': "g' = upd_page pp (\<lambda>_. pg\<lparr>pm_owner_tid := tl_thread_id d\<rparr>) g"
  shows "owners_ok g'" "t_tld g t' = Some d' \<Longrightarrow> tld_ok g' d'"
proof -
  note h = heap_invD [OF H] and A = activeD [OF heap_invD(4) [OF H] pp] and O = owners_okD [OF heap_invD(8) [OF H]]
  let ?pg = "pg\<lparr>pm_owner_tid := tl_thread_id d\<rparr>"
  have act: "active (h_segs g') qq qg \<longleftrightarrow> (if qq = pp then qg = ?pg else active (h_segs g) qq qg)" for qq qg
    unfolding g' active_upd_page [OF A(1)] using A(2) by auto
  show "owners_ok g'"
    unfolding owners_ok_def g' upd_page_frame unfolding g' [symmetric]
  proof (intro conjI allI impI)
    fix qq qg assume a: "active (h_segs g') qq qg"
    show "pm_owner_tid qg = UINT32_MAX \<or> pm_owner_tid qg < t_thread_id_counter g"
      using a O(1) tld_okD(4) [OF h(7) [OF d(1)]] unfolding act by (cases "qq = pp") auto
    show "c < 4" if "pm_arena qg = Some c" for c using a O(2) [OF pp] O(2) that unfolding act by (cases "qq = pp") auto
    show "tl_arena d' \<noteq> None" if "t_tld g t' = Some d'" "pm_owner_tid qg = tl_thread_id d'" for t' d'
      using a O(3) [OF _ that] O(4) [OF d(1) that(1)] d that unfolding act by (cases "qq = pp"; cases "t = t'") auto
  qed (rule O(4))
  assume t': "t_tld g t' = Some d'"
  note T = tld_okD [OF h(7) [OF t']]
  have "\<exists>qg. active (h_segs g') qq qg \<and> unat (pm_bin_idx qg) = i \<and> pm_owner_tid qg = tl_thread_id d'"
    if i: "i < 75" "tl_bin_page d' ! i = Some qq" for i qq
  proof -
    obtain qg where q: "active (h_segs g) qq qg" "unat (pm_bin_idx qg) = i" "pm_owner_tid qg = tl_thread_id d'" using T(6) [OF i] by blast
    have "qq \<noteq> pp" using q(1,3) pp own no_owner_id [OF H t'] by (auto simp: active_def)
    then show ?thesis using q unfolding act by auto
  qed
  then show "tld_ok g' d'" using T(1-5) by (simp add: tld_ok_def g')
qed

lemma claim_inv:
  assumes H: "heap_inv e g" and d: "t_tld g t = Some d" "tl_arena d \<noteq> None" and pp: "active (h_segs g) pp pg"
    and own: "pm_owner_tid pg = UINT32_MAX" and g': "g' = upd_page pp (\<lambda>_. pg\<lparr>pm_owner_tid := tl_thread_id d\<rparr>) g"
  shows "heap_inv e g'" "slab_blocks (h_mem g) (h_segs g') = slab_blocks (h_mem g) (h_segs g)"
proof -
  note h = heap_invD [OF H] and A = activeD [OF heap_invD(4) [OF H] pp]
  let ?pg = "pg\<lparr>pm_owner_tid := tl_thread_id d\<rparr>"
  have lnk: "same_links pg ?pg" by (simp add: same_links_def)
  have wf: "page_wf e (h_mem g) pp ?pg" using segs_ok_wf [OF h(4) A(1)] by (simp add: page_wf_def owner_irrelevant)
  have "segs_ok e (h_mem g) (h_segs g')" unfolding g' by (rule segs_ok_page [OF h(3,4) A(1) wf]) simp
  moreover have "arena_ok g' a" if "a < 4" for a unfolding g' by (rule arena_ok_upd_page [OF A(1) lnk h(5) [OF that]])
  moreover have "registry_ok (g_registry g') (h_segs g')" using h(2) by (simp add: registry_ok_def g')
  moreover have "base_ok g'" using h(1) by (simp add: base_ok_def tables_ok_def g')
  ultimately show "heap_inv e g'"
    using h(3,6) claim_owners [OF H d pp own g'] by (simp add: heap_inv_def g')
  have a': "active (h_segs g') pp ?pg" using A(1,2) by (simp add: g' active_upd_page)
  have "other_blocks (h_mem g) (h_segs g') pp = other_blocks (h_mem g) (h_segs g) pp"
    unfolding g' by (rule page_step_others [OF H pp]) simp
  then show "slab_blocks (h_mem g) (h_segs g') = slab_blocks (h_mem g) (h_segs g)"
    unfolding slab_blocks_split [OF pp] slab_blocks_split [OF a'] by (simp add: owner_irrelevant)
qed

lemma cache_inv:
  assumes H: "heap_inv e g" and d: "t_tld g t = Some d" and pp: "active (h_segs g) pp pg" "pm_bin_idx pg = bin" "pm_owner_tid pg = tl_thread_id d"
    and g': "g' = upd_tld t (\<lambda>d. d\<lparr>tl_bin_page := (tl_bin_page d)[unat bin := Some pp]\<rparr>) g"
  shows "heap_inv e g'"
proof -
  note h = heap_invD [OF H] and O = owners_okD [OF heap_invD(8) [OF H]]
  have reg: "region e g' = region e g"
  proof
    fix x show "region e g' x = region e g x" by (cases x) (auto simp: g' split: option.splits)
  qed
  have frm: "bin_head a bi g' = bin_head a bi g" "bin_nxt g' = bin_nxt g" "bin_prv g' = bin_prv g" "bin_node a bi g' = bin_node a bi g" for a bi
    by (simp_all add: g' bin_head_def bin_nxt_def bin_prv_def bin_node_def fun_eq_iff)
  have ar: "arena_ok g' a = arena_ok g a" for a unfolding arena_ok_def frm by (simp add: g')
  have "tld_ok g' d'" if t': "t_tld g' t' = Some d'" for t' d'
  proof (cases "t' = t")
    case False
    then have "tld_ok g d'" using t' h(7) by (simp add: g')
    then show ?thesis by (simp add: tld_ok_def g')
  next
    case True
    then have d': "d' = d\<lparr>tl_bin_page := (tl_bin_page d)[unat bin := Some pp]\<rparr>" using t' d by (simp add: g')
    note T = tld_okD [OF h(7) [OF d]]
    have "\<exists>qg. active (h_segs g) qq qg \<and> unat (pm_bin_idx qg) = i \<and> pm_owner_tid qg = tl_thread_id d"
      if "i < 75" "tl_bin_page d' ! i = Some qq" for i qq
      using that T(3) T(6) [of i qq] pp unfolding d' by (cases "i = unat bin") auto
    then show ?thesis using T(1-5) by (simp add: tld_ok_def d' g')
  qed
  moreover have "owners_ok g'"
  proof -
    have "\<exists>d0. t_tld g t' = Some d0 \<and> tl_thread_id d0 = tl_thread_id d' \<and> tl_arena d0 = tl_arena d'" if "t_tld g' t' = Some d'" for t' d'
      using that by (auto simp: g' split: if_splits)
    note old = this
    have e: "h_segs g' = h_segs g" "t_thread_id_counter g' = t_thread_id_counter g" by (simp_all add: g')
    show ?thesis
      unfolding owners_ok_def e
    proof (intro conjI allI impI)
      fix qq qg assume a: "active (h_segs g) qq qg"
      show "pm_owner_tid qg = UINT32_MAX \<or> pm_owner_tid qg < t_thread_id_counter g" by (rule O(1) [OF a])
      show "c < 4" if "pm_arena qg = Some c" for c by (rule O(2) [OF a that])
      show "tl_arena d' \<noteq> None" if "t_tld g' t' = Some d'" "pm_owner_tid qg = tl_thread_id d'" for t' d'
        using old [OF that(1)] O(3) [OF a] that(2) by metis
    next
      fix t1 t2 d1 d2 assume "t_tld g' t1 = Some d1" "t_tld g' t2 = Some d2" "t1 \<noteq> t2"
      then show "tl_thread_id d1 \<noteq> tl_thread_id d2" using old [of t1 d1] old [of t2 d2] O(4) by metis
    qed
  qed
  ultimately show ?thesis using h(1-6) ar large_ok_cong [of g' g] by (simp add: heap_inv_def reg base_ok_def tables_ok_def) (simp add: g')
qed

lemma slab_claim_ok:
  assumes H: "heap_inv e g" and d: "t_tld g t = Some d" "tl_arena d \<noteq> None" and pp: "active (h_segs g) pp pg" "pm_bin_idx pg = bin"
    and own: "pm_owner_tid pg = UINT32_MAX" and p: "p \<in> page_live (h_mem g) pg"
  shows "\<exists>g'. slab_claim t bin p g = Inr g' \<and> heap_inv e g' \<and> quiet g g' \<and> locks g' = locks g \<and> h_mem g' = h_mem g \<and>
    t_tld g' t \<noteq> None \<and> slab_blocks (h_mem g') (h_segs g') = slab_blocks (h_mem g) (h_segs g)"
proof -
  note h = heap_invD [OF H] and A = activeD [OF heap_invD(4) [OF H] pp(1)]
  have "16 \<le> unat (pm_slot_size pg)" by (rule page_geomD(1) [OF page_invD(6) [OF A(3)]])
  then have "unat p \<in> page_span pp" using slab_block_at(1) [OF h(4) pp(1) p] by auto
  note at = ptr_to_page_at(2) [OF H A(1) this]
  show ?thesis
  proof (cases "fst pp \<in> reg_set (g_registry g)")
    case False
    then show ?thesis using at d(1) H by (simp add: slab_claim_def)
  next
    case True
    define g1 where "g1 = upd_page pp (\<lambda>_. pg\<lparr>pm_owner_tid := tl_thread_id d\<rparr>) g"
    define g2 where "g2 = upd_tld t (\<lambda>d. d\<lparr>tl_bin_page := (tl_bin_page d)[unat bin := Some pp]\<rparr>) g1"
    note c = claim_inv [OF H d pp(1) own g1_def]
    have a1: "active (h_segs g1) pp (pg\<lparr>pm_owner_tid := tl_thread_id d\<rparr>)" using A(1,2) by (simp add: g1_def active_upd_page)
    have i2: "heap_inv e g2" by (rule cache_inv [OF c(1) _ a1 _ _ g2_def, of d]) (use d pp(2) in \<open>simp_all add: g1_def\<close>)
    have "upd_page pp (\<lambda>pg. pg\<lparr>pm_owner_tid := tl_thread_id d\<rparr>) g = g1" unfolding g1_def by (rule upd_page_const [OF A(1)])
    then have "slab_claim t bin p g = Inr g2"
      using at True d(1) own by (simp add: slab_claim_def deref_page_ok [OF A(1)] g2_def)
    moreover have "quiet g g2" using c(2) by (simp add: quiet_def keeps_def g2_def) (simp add: large_recs_def g1_def upd_tld_def)
    moreover have "locks g2 = locks g" "h_mem g2 = h_mem g" "t_tld g2 t \<noteq> None" "slab_blocks (h_mem g2) (h_segs g2) = slab_blocks (h_mem g) (h_segs g)"
      using d(1) c(2) by (simp_all add: g2_def) (simp_all add: g1_def)
    ultimately show ?thesis using i2 by blast
  qed
qed

section \<open>The slow path\<close>

definition next_ok :: "thread \<Rightarrow> gstate \<Rightarrow> bool" where
  "next_ok t g \<longleftrightarrow> Option.bind (t_tld g t) tl_arena \<noteq> None \<or> unat (g_arena_next g) < 2147483648"

lemma tld_get_next:
  assumes e: "env_ok e" and H: "heap_inv e g" and i: "ids_ok t g" and n: "next_ok t g" and r: "tld_get e t g = (p, g')"
  shows "heap_inv e g'" "quiet g g'" "locks g' = locks g" "ids_ok t g'" "next_ok t g'" "p \<noteq> 0 \<longleftrightarrow> t_tld g' t \<noteq> None"
    "t_tld g t \<noteq> None \<Longrightarrow> t_tld g' t \<noteq> None" "tld_frame g g'"
proof -
  note T = tld_get_ok [OF e H i r]
  show "heap_inv e g'" "quiet g g'" "p \<noteq> 0 \<longleftrightarrow> t_tld g' t \<noteq> None" "tld_frame g g'" using T by blast+
  then have F: "g_arenas g' = g_arenas g" "g_large_lock g' = g_large_lock g" "g_arena_next g' = g_arena_next g" using tld_frameD by blast+
  then show "locks g' = locks g" by (simp add: locks_def)
  show "t_tld g' t \<noteq> None" if "t_tld g t \<noteq> None" using that T by auto
  show "ids_ok t g'" using i T unfolding ids_ok_def by auto
  show "next_ok t g'" using n T F(3) unfolding next_ok_def by (cases "t_tld g t") auto
qed

lemma arena_index:
  assumes "unat (w :: u32) < 2147483648"
  shows "0 \<le> sint w smod 4" "sint w smod 4 < 4"
proof -
  define n where "n = unat w"
  have u: "uint w = int n" and n: "n < 2147483648" using assms by (simp_all add: n_def)
  have "sint w = int n" unfolding sint_uint u by (rule signed_take_bit_int_eq_self) (use n in simp_all)
  then show "0 \<le> sint w smod 4" "sint w smod 4 < 4" by (simp_all add: smod_int_alt_def sgn_if)
qed

lemma arena_get_ok:
  assumes e: "env_ok e" and H: "heap_inv e g" and i: "ids_ok t g" and n: "next_ok t g"
  shows "\<exists>a g'. arena_get e t g = Inr (Some a, g') \<and> a < 4 \<and> heap_inv e g' \<and> quiet g g' \<and> locks g' = locks g \<and> ids_ok t g' \<and>
    (\<forall>d. t_tld g' t = Some d \<longrightarrow> tl_arena d \<noteq> None) \<and> (t_tld g t \<noteq> None \<longrightarrow> t_tld g' t \<noteq> None)"
proof -
  obtain p g1 where r: "tld_get e t g = (p, g1)" by fastforce
  note T = tld_get_next [OF e H i n r]
  note B = base_okD [OF heap_invD(1) [OF T(1)]]
  have bind: "(if p \<noteq> 0 then Option.bind (t_tld g1 t) tl_arena else None) = Option.bind (t_tld g1 t) tl_arena"
    using T(6) by (cases "t_tld g1 t") auto
  show ?thesis
  proof (cases "Option.bind (t_tld g1 t) tl_arena")
    case (Some a)
    then have "arena_get e t g = Inr (Some a, g1)" unfolding arena_get_def r prod.case bind by simp
    moreover have "a < 4" using Some tld_okD(5) [OF heap_invD(7) [OF T(1)]] by (cases "t_tld g1 t") auto
    ultimately show ?thesis using T Some by auto
  next
    case None
    then have w: "unat (g_arena_next g1) < 2147483648" using T(5) by (simp add: next_ok_def)
    define ix where "ix = sint (g_arena_next g1) smod 4"
    define a where "a = nat ix"
    have ix: "0 \<le> ix" "ix < 4" using arena_index [OF w] by (simp_all add: ix_def)
    then have a: "a < 4" by (simp add: a_def)
    define g2 where "g2 = g1\<lparr>g_arena_next := g_arena_next g1 + 1\<rparr>"
    define g3 where "g3 = upd_arena a (\<lambda>ar. ar\<lparr>ar_thread_count := ar_thread_count ar + 1\<rparr>) g2"
    define g4 where "g4 = (if p \<noteq> 0 then upd_tld t (\<lambda>d. d\<lparr>tl_arena := Some a\<rparr>) g3 else g3)"
    have "sint (g_arena_count g1) = 4" using B(3) by simp
    then have "arena_get e t g = Inr (Some a, g4)"
      unfolding arena_get_def r prod.case bind None option.case Let_def using ix
      by (simp add: g4_def g3_def g2_def a_def ix_def [symmetric] config_simps)
    moreover have "calm g1 g2" by (simp add: calm_def g2_def)
    moreover have "calm g2 g3" unfolding g3_def by (rule calm_arena_upd) (simp add: arena_view_def)
    moreover have "calm g3 (upd_tld t (\<lambda>d. d\<lparr>tl_arena := Some a\<rparr>) g3)"
      by (rule calm_tld_upd) (use None a in \<open>auto simp: tld_le_def g3_def g2_def\<close>)
    then have "calm g3 g4" by (simp add: g4_def)
    ultimately have "heap_inv e g4" "quiet g g4" "arena_get e t g = Inr (Some a, g4)"
      using calm_step [OF T(1)] calm_trans quiet_trans [OF T(2)] by blast+
    moreover have "locks g4 = locks g"
      unfolding g4_def g3_def by (simp add: locks_arena) (simp add: g2_def locks_def T(3) [unfolded locks_def])
    moreover have "ids_ok t g4" using T(4) by (simp add: ids_ok_def g4_def g3_def g2_def)
    moreover have "\<forall>d. t_tld g4 t = Some d \<longrightarrow> tl_arena d \<noteq> None" "t_tld g t \<noteq> None \<longrightarrow> t_tld g4 t \<noteq> None"
      using T(6,7) by (auto simp: g4_def g3_def g2_def)
    ultimately show ?thesis using a by blast
  qed
qed

text \<open>\<open>gave e g p n g'\<close>: a slab slot of \<open>n\<close> bytes at \<open>p\<close> is a new block.\<close>

definition gave :: "env \<Rightarrow> gstate \<Rightarrow> addr \<Rightarrow> nat \<Rightarrow> gstate \<Rightarrow> bool" where
  "gave e g p n g' \<longleftrightarrow> heap_inv e g' \<and> adds g p n g' \<and> unat p mod 16 = 0 \<and> p \<noteq> 0 \<and>
     (p, n) \<in> slab_blocks (h_mem g') (h_segs g')"

lemma gave_got:
  assumes "got e g p pp pg g'"
  shows "gave e g p (unat (pm_slot_size pg)) g'"
proof -
  obtain pg' where "active (h_segs g') pp pg'" "p \<in> page_live (h_mem g') pg'" "pm_slot_size pg' = pm_slot_size pg"
    using assms same_idD(3) unfolding got_def by blast
  then have "(p, unat (pm_slot_size pg)) \<in> slab_blocks (h_mem g') (h_segs g')"
    unfolding slab_blocks_def by (intro CollectI exI [of _ p] exI [of _ pp] exI [of _ pg']) simp
  then show ?thesis using assms unfolding got_def gave_def by blast
qed

lemma quiet_gave: "quiet g g1 \<Longrightarrow> gave e g1 p n g2 \<Longrightarrow> gave e g p n g2"
  using quiet_adds [of g g1] unfolding gave_def by blast

lemma slab_slow_ok:
  assumes e: "env_ok e" and H: "heap_inv e g" and u: "unlocked g" and i: "ids_ok t g" and n: "next_ok t g" and bin: "bin_small bin"
    and tld: "tld \<noteq> 0 \<longrightarrow> t_tld g t \<noteq> None"
  shows "\<exists>p z' g'. slab_slow e t bin tld z g = Inr (p, z', g') \<and> unlocked g' \<and> ids_ok t g' \<and>
    (p = 0 \<and> z' = z \<and> heap_inv e g' \<and> quiet g g' \<or>
     z' \<and> gave e g p (bin_slot bin) g' \<and> (\<forall>x. unat x \<in> span p (bin_slot bin) \<longrightarrow> h_mem g' x = 0))"
proof -
  obtain a g1 where ag: "arena_get e t g = Inr (Some a, g1)" "a < 4" "heap_inv e g1" "quiet g g1" "locks g1 = locks g" "ids_ok t g1"
      "\<forall>d. t_tld g1 t = Some d \<longrightarrow> tl_arena d \<noteq> None" "t_tld g t \<noteq> None \<longrightarrow> t_tld g1 t \<noteq> None"
    using arena_get_ok [OF e H i n] by blast
  have u1: "unlocked g1" using u unlocked_locks [OF H] unlocked_locks [OF ag(3)] ag(5) by simp
  obtain p z' g2 where al: "arena_alloc e a bin z g1 = Inr (p, z', g2)" "seg_frame g1 g2" "unlocked g2"
      "p = 0 \<and> z' = z \<and> heap_inv e g2 \<and> quiet g1 g2 \<or>
       z' \<and> (\<exists>pp pg. got e g1 p pp pg g2 \<and> pm_bin_idx pg = bin \<and> pm_owner_tid pg = UINT32_MAX \<and> unat (pm_slot_size pg) = bin_slot bin) \<and>
       (\<forall>x. unat x \<in> span p (bin_slot bin) \<longrightarrow> h_mem g2 x = 0)"
    using arena_alloc_ok [OF e ag(3) u1 ag(2) bin, of z] by (elim exE conjE) (rule that)
  note F = seg_frameD [OF al(2)]
  have i2: "ids_ok t g2" using ag(6) by (simp add: ids_ok_def F)
  have eq: "slab_slow e t bin tld z g = (if p \<noteq> 0 \<and> tld \<noteq> 0 then bindR (slab_claim t bin p g2) (\<lambda>g. Inr (p, z', g)) else Inr (p, z', g2))"
    using ag(1) al(1) by (simp add: slab_slow_def)
  from al(4) show ?thesis
  proof (elim disjE conjE exE)
    assume "p = 0" "z' = z" "heap_inv e g2" "quiet g1 g2"
    then show ?thesis using eq al(3) i2 quiet_trans [OF ag(4)] by auto
  next
    fix pp pg assume z: z' "\<forall>x. unat x \<in> span p (bin_slot bin) \<longrightarrow> h_mem g2 x = 0" and got: "got e g1 p pp pg g2" and pg: "pm_bin_idx pg = bin"
      "pm_owner_tid pg = UINT32_MAX" "unat (pm_slot_size pg) = bin_slot bin"
    have gv: "gave e g p (bin_slot bin) g2" using quiet_gave [OF ag(4) gave_got [OF got]] pg(3) by simp
    have gi: "heap_inv e g2" using gv by (simp add: gave_def)
    show ?thesis
    proof (cases "p \<noteq> 0 \<and> tld \<noteq> 0")
      case False
      then show ?thesis using eq gv z al(3) i2 by auto
    next
      case True
      obtain pg2 where p2: "active (h_segs g2) pp pg2" "p \<in> page_live (h_mem g2) pg2" "same_id pg pg2" using got by (auto simp: got_def)
      obtain d where d: "t_tld g2 t = Some d" "tl_arena d \<noteq> None" using True tld ag(7,8) by (auto simp: F)
      have "pm_bin_idx pg2 = bin" "pm_owner_tid pg2 = UINT32_MAX" using same_idD [OF p2(3)] pg by simp_all
      from slab_claim_ok [OF gi d p2(1) this p2(2)]
      obtain g3 where c: "slab_claim t bin p g2 = Inr g3" "heap_inv e g3" "quiet g2 g3" "locks g3 = locks g2" "h_mem g3 = h_mem g2" "t_tld g3 t \<noteq> None"
          "slab_blocks (h_mem g3) (h_segs g3) = slab_blocks (h_mem g2) (h_segs g2)" by blast
      have "unlocked g3" using al(3) unlocked_locks [OF c(2)] unlocked_locks [of e g2] gv c(4) by (simp add: gave_def)
      moreover have "gave e g p (bin_slot bin) g3" using gv c(2,3,7) adds_quiet unfolding gave_def by metis
      moreover have "ids_ok t g3" using c(6) by (simp add: ids_ok_def)
      moreover have "slab_slow e t bin tld z g = Inr (p, z', g3)" using eq True c(1) by simp
      ultimately show ?thesis using z c(5) by auto
    qed
  qed
qed

section \<open>Allocation\<close>

text \<open>
  A pointer that the allocator has given out, with the block it belongs to: a slot, or an address inside a large
  mapping.
\<close>

definition owns :: "gstate \<Rightarrow> addr \<Rightarrow> addr \<Rightarrow> nat \<Rightarrow> bool" where
  "owns g p s n \<longleftrightarrow> p = s \<and> (s, n) \<in> slab_blocks (h_mem g) (h_segs g) \<or> (s, n) \<in> large_blocks g \<and> unat p \<in> span s n"

text \<open>The client's view of a block: it holds the pointer \<open>p\<close> and may use \<open>u\<close> bytes from there.\<close>

definition usable :: "gstate \<Rightarrow> addr \<Rightarrow> addr \<Rightarrow> nat \<Rightarrow> nat \<Rightarrow> bool" where
  "usable g p s n u \<longleftrightarrow> p = s \<and> (s, n) \<in> slab_blocks (h_mem g) (h_segs g) \<and> u = n \<or>
     (\<exists>w. (s, n, w) \<in> large_recs g \<and> u = unat w \<and> unat p \<in> span s n \<and> unat p + u \<le> unat s + n)"

lemma usableD:
  assumes "usable g p s n u"
  shows "owns g p s n" "(s, n) \<in> blocks g" "unat s \<le> unat p" "unat p + u \<le> unat s + n"
  using assms unfolding usable_def owns_def blocks_def large_blocks_recs by auto

definition alloc_ok :: "env \<Rightarrow> thread \<Rightarrow> gstate \<Rightarrow> nat \<Rightarrow> addr \<Rightarrow> gstate \<Rightarrow> bool" where
  "alloc_ok e t g sz p g' \<longleftrightarrow> heap_inv e g' \<and> unlocked g' \<and> ids_ok t g' \<and>
     (p = 0 \<and> quiet g g' \<or>
      p \<noteq> 0 \<and> unat p mod 16 = 0 \<and>
        (\<exists>s n u. adds g s n g' \<and> usable g' p s n u \<and> sz \<le> u))"

definition zeroed_at :: "gstate \<Rightarrow> addr \<Rightarrow> nat \<Rightarrow> bool" where
  "zeroed_at g p sz \<longleftrightarrow> (\<forall>x. unat x \<in> span p sz \<longrightarrow> h_mem g x = 0)"

lemma quiet_alloc_ok: "quiet g g1 \<Longrightarrow> alloc_ok e t g1 sz p g2 \<Longrightarrow> alloc_ok e t g sz p g2"
  unfolding alloc_ok_def using quiet_adds quiet_trans by blast

lemma gave_alloc_ok:
  assumes "gave e g p n g'" "sz \<le> n" "unlocked g'" "ids_ok t g'"
  shows "alloc_ok e t g sz p g'"
proof -
  have "usable g' p p n n" "adds g p n g'" using assms(1,2) by (auto simp: gave_def usable_def)
  then show ?thesis using assms unfolding alloc_ok_def gave_def by blast
qed

lemma large_alloc_aligned_alloc_ok:
  assumes e: "env_ok e" and H: "heap_inv e g" and u: "unlocked g" and i: "ids_ok t g" and al: "is_pow2 al" and sz: "0 < unat sz"
    "unat sz + 2 * unat al + 262144 \<le> 2 ^ 64"
  shows "\<exists>p g'. large_alloc_aligned e sz al g = Inr (p, g') \<and> alloc_ok e t g (unat sz) p g' \<and> unat p mod unat al = 0 \<and>
    (p \<noteq> 0 \<longrightarrow> zeroed_at g' p (unat sz))"
proof -
  note h = heap_invD [OF H]
  have lk: "\<not> g_large_lock g" using u by (simp add: unlocked_def)
  obtain p g' where r: "large_alloc_aligned e sz al g = Inr (p, g')" and c: "p = 0 \<and> g' = g \<or>
      (\<exists>b. large_added e g b p sz g' \<and> p \<noteq> 0 \<and> unat p mod unat al = 0 \<and> unat p mod 16 = 0 \<and> large_ok g' \<and> layout_ok e (h_log g') (region e g'))"
    using large_alloc_aligned_ok [OF e h(6,3) lk al sz(2)] by (elim exE conjE) (rule that)
  from c show ?thesis
  proof (elim disjE conjE exE)
    assume "p = 0" "g' = g"
    then show ?thesis using r H u i by (simp add: alloc_ok_def)
  next
    fix b assume A: "large_added e g b p sz g'" and p: "p \<noteq> 0" "unat p mod unat al = 0" "unat p mod 16 = 0"
      and ok: "large_ok g'" "layout_ok e (h_log g') (region e g')"
    obtain l where l: "h_larges g' b = Some l" "unat b + 48 \<le> unat p" "unat p + unat sz \<le> unat b + unat (la_size l)"
        "fresh_range e g b (unat (la_size l)) g'" "large_frame g g'" "la_user_size l = sz" using A unfolding large_added_def by auto
    note I = large_add_inv [OF H A ok l(1)] and F = large_frameD [OF l(5)]
    have "(b, unat (la_size l), sz) \<in> large_recs g'" using l(1,6) by (auto simp: large_recs_def)
    then have "usable g' p b (unat (la_size l)) (unat sz)" using l(2,3) sz(1) by (auto simp: usable_def)
    moreover have "unlocked g'" "ids_ok t g'" using u i by (simp_all add: unlocked_def ids_ok_def F)
    ultimately have "alloc_ok e t g (unat sz) p g'" using I p unfolding alloc_ok_def by blast
    moreover have "zeroed_at g' p (unat sz)" using fresh_rangeD(6) [OF l(4)] l(2,3) by (auto simp: zeroed_at_def)
    ultimately show ?thesis using r p(2) by (intro exI [of _ p] exI [of _ g']) simp
  qed
qed

end
