(* ===== verification/Slab_Calls.thy ===== *)
theory Slab_Calls
  imports Slab_Correct
begin

unbundle bit_operations_syntax

text \<open>
  The calls of the slab allocator as a whole: an allocation always returns, with NULL and nothing changed or with
  one new block; a free of a live slot removes exactly that block.
\<close>

section \<open>Allocation\<close>

lemma bin_slot_ge: "unat (bin_sizes ! unat bin) \<le> bin_slot bin"
  unfolding bin_slot_def by linarith

text \<open>The size class of a request, when its slots fit twice in a page.\<close>

lemma slab_bin:
  assumes "tables_ok g" "sz \<le> MEDIUM_MAX" "\<not> bin_to_size g (size_to_bin g sz) > PAGE_SIZE_ALLOC div 2"
  shows "bin_small (size_to_bin g sz)" "max 1 (unat sz) \<le> bin_slot (size_to_bin g sz)"
proof -
  note S = size_to_bin_spec [OF assms(1,2) refl]
  have b: "unat (bin_to_size g (size_to_bin g sz)) = unat (bin_sizes ! unat (size_to_bin g sz))"
    by (rule bin_to_size_nat [OF assms(1)]) (use S in blast)
  have "bin_to_size g (size_to_bin g sz) \<le> 32768" using assms(3) by (simp add: config_simps)
  then show "bin_small (size_to_bin g sz)" using S b by (simp add: bin_small_def word_le_nat_alt)
  show "max 1 (unat sz) \<le> bin_slot (size_to_bin g sz)" using S bin_slot_ge [of "size_to_bin g sz"] by linarith
qed

text \<open>Both allocators serve a request the same way: the size is at least one.\<close>

definition room_for :: "u64 \<Rightarrow> nat" where
  "room_for sz = max 1 (unat sz)"

lemma room_for_pos: "unat (if sz = 0 then 1 else sz :: u64) = room_for sz"
  by (simp add: room_for_def unat_gt_0 max_def Suc_le_eq)

lemma large_alloc_alloc_ok:
  assumes "env_ok e" "heap_inv e g" "unlocked g" "ids_ok t g" "0 < unat sz" "unat sz + 262176 \<le> 2 ^ 64"
  shows "\<exists>p g'. large_alloc e sz g = Inr (p, g') \<and> alloc_ok e t g (unat sz) p g' \<and> (p \<noteq> 0 \<longrightarrow> zeroed_at g' p (unat sz))"
proof -
  have "is_pow2 16" using is_pow2_power [of 4] by simp
  from large_alloc_aligned_alloc_ok [OF assms(1-4) this assms(5)] assms(6)
  show ?thesis by (auto simp: large_alloc_def config_simps)
qed

lemma slab_alloc_inner_ok:
  assumes e: "env_ok e" and H: "heap_inv e g" and u: "unlocked g" and i: "ids_ok t g" and n: "next_ok t g"
    and sz: "unat sz + 262176 \<le> 2 ^ 64"
  shows "\<exists>p z' g'. slab_alloc_inner e t sz z g = Inr (p, z', g') \<and> alloc_ok e t g (room_for sz) p g' \<and>
    (p \<noteq> 0 \<longrightarrow> z' \<longrightarrow> zeroed_at g' p (room_for sz))"
proof -
  note B = base_okD [OF heap_invD(1) [OF H]]
  define s where "s = (if sz = 0 then 1 else sz)"
  have us: "unat s = room_for sz" "0 < unat s" using room_for_pos [of sz] by (auto simp: s_def room_for_def)
  show ?thesis
  proof (cases "s > MEDIUM_MAX \<or> bin_to_size g (size_to_bin g s) > PAGE_SIZE_ALLOC div 2")
    case True
    have "unat s + 262176 \<le> 2 ^ 64" using sz by (auto simp: s_def)
    from large_alloc_alloc_ok [OF e H u i us(2) this]
    obtain p g' where "large_alloc e s g = Inr (p, g')" "alloc_ok e t g (unat s) p g'" by blast
    moreover have "slab_alloc_inner e t sz z g = bindR (large_alloc e s g) (\<lambda>(p, g). Inr (p, False, g))"
      using True unfolding slab_alloc_inner_def Let_def s_def [symmetric] by auto
    ultimately show ?thesis using us(1) by auto
  next
    case False
    define bin where "bin = size_to_bin g s"
    note S = slab_bin [OF B(2), of s, folded bin_def]
    have nm: "\<not> s > MEDIUM_MAX" "\<not> bin_to_size g bin > PAGE_SIZE_ALLOC div 2" using False by (auto simp: bin_def)
    have bin: "bin_small bin" "room_for sz \<le> bin_slot bin" using S False us(1) by (auto simp: bin_def)
    have b75: "unat bin < 75" using bin(1) by (simp add: bin_small_def)
    obtain tld g1 where tg: "tld_get e t g = (tld, g1)" by fastforce
    note T = tld_get_next [OF e H i n tg]
    have u1: "unlocked g1" using u unlocked_locks [OF H] unlocked_locks [OF T(1)] T(3) by simp
    define fast where "fast = (if tld \<noteq> 0 then slab_fast e t bin g1 else Inr (None, g1))"
    have eq: "slab_alloc_inner e t sz z g = bindR fast (\<lambda>(r, g). case r of Some (slot, z) \<Rightarrow> Inr (slot, z, g) | None \<Rightarrow> slab_slow e t bin tld z g)"
      unfolding slab_alloc_inner_def Let_def s_def [symmetric] bin_def [symmetric] fast_def if_not_P [OF nm(1)] if_not_P [OF nm(2)] tg
      by simp
    have "\<exists>r g2. fast = Inr (r, g2) \<and> inside t g1 g2 \<and> fast_result e g1 bin r g2"
    proof (cases "tld = 0")
      case False
      then obtain d where "t_tld g1 t = Some d" using T(6) by blast
      then show ?thesis using slab_fast_ok [OF T(1) _ b75] False by (simp add: fast_def)
    qed (use T(1) in \<open>simp add: fast_def fast_result_def\<close>)
    then obtain r g2 where f: "fast = Inr (r, g2)" "inside t g1 g2" "fast_result e g1 bin r g2" by blast
    have lk: "locks g2 = locks g1" and tl: "rel_option tld_le (t_tld g1 t) (t_tld g2 t)" and cn: "g_arena_next g2 = g_arena_next g1"
      "t_thread_id_counter g2 = t_thread_id_counter g1" using f(2) by (simp_all add: inside_def)
    have i2: "ids_ok t g2" using T(4) tl cn by (cases "t_tld g1 t"; cases "t_tld g2 t") (auto simp: ids_ok_def)
    have n2: "next_ok t g2"
      using T(5) tl cn tld_leD(6) by (cases "t_tld g1 t"; cases "t_tld g2 t") (auto simp: next_ok_def)
    show ?thesis
    proof (cases r)
      case None
      then have q: "heap_inv e g2" "quiet g1 g2" using f(3) by (simp_all add: fast_result_def)
      have u2: "unlocked g2" using u1 unlocked_locks [OF T(1)] unlocked_locks [OF q(1)] lk by simp
      have td: "tld \<noteq> 0 \<longrightarrow> t_tld g2 t \<noteq> None" using T(6) tl by (cases "t_tld g2 t") auto
      obtain p z' g3 where s: "slab_slow e t bin tld z g2 = Inr (p, z', g3)" "unlocked g3" "ids_ok t g3" and r: "p = 0 \<and> z' = z \<and> heap_inv e g3 \<and> quiet g2 g3 \<or>
          z' \<and> gave e g2 p (bin_slot bin) g3 \<and> (\<forall>x. unat x \<in> span p (bin_slot bin) \<longrightarrow> h_mem g3 x = 0)"
        using slab_slow_ok [OF e q(1) u2 i2 n2 bin(1) td, of z] by (elim exE conjE) (rule that)
      have "alloc_ok e t g2 (room_for sz) p g3"
        using r s(2,3) gave_alloc_ok [OF _ bin(2), of e g2 p g3 t] by (auto simp: alloc_ok_def)
      then have "alloc_ok e t g (room_for sz) p g3" by (rule quiet_alloc_ok [OF quiet_trans [OF T(2) q(2)]])
      moreover have "zeroed_at g3 p (room_for sz)" if "p \<noteq> 0" using r that bin(2) by (auto simp: zeroed_at_def)
      moreover have "slab_alloc_inner e t sz z g = Inr (p, z', g3)" using eq f(1) None s(1) by simp
      ultimately show ?thesis by blast
    next
      case (Some rz)
      obtain p z' where rz: "rz = (p, z')" by (cases rz)
      then obtain pp pg where g: "got e g1 p pp pg g2" "unat (pm_slot_size pg) = bin_slot bin"
          "z' \<longrightarrow> (\<forall>x. unat x \<in> span p (bin_slot bin) \<longrightarrow> h_mem g2 x = 0)" using f(3) Some unfolding fast_result_def by auto
      have gv: "gave e g1 p (bin_slot bin) g2" using gave_got [OF g(1)] g(2) by simp
      then have "unlocked g2" using u1 unlocked_locks [OF T(1)] unlocked_locks [of e g2] lk by (simp add: gave_def)
      then have "alloc_ok e t g (room_for sz) p g2" by (intro quiet_alloc_ok [OF T(2)] gave_alloc_ok [OF gv bin(2)] i2)
      moreover have "z' \<longrightarrow> zeroed_at g2 p (room_for sz)" using g(3) bin(2) by (auto simp: zeroed_at_def)
      moreover have "slab_alloc_inner e t sz z g = Inr (p, z', g2)" using eq f(1) Some rz by simp
      ultimately show ?thesis by blast
    qed
  qed
qed

section \<open>Free\<close>

text \<open>Getting the record of a thread does not look at segments.\<close>

lemma tld_get_segs:
  "tld_get e t (g\<lparr>h_segs := S\<rparr>) = (fst (tld_get e t g), (snd (tld_get e t g))\<lparr>h_segs := S\<rparr>)"
  by (simp add: tld_get_def malloc_is_initialized_def bootstrap_alloc_def os_mmap_aligned_def sys_mmap_def sys_munmap_def Let_def
      split: option.splits prod.splits)

lemma upd_page_as_segs: "upd_page pp f g = g\<lparr>h_segs := h_segs (upd_page pp f g)\<rparr>"
  by (simp add: upd_page_def upd_seg_def)

lemma h_segs_upd_page_cong: "h_segs g' = h_segs g \<Longrightarrow> h_segs (upd_page pp f g') = h_segs (upd_page pp f g)"
  by (simp add: upd_page_def)

lemma tld_get_upd_page:
  assumes "tld_get e t g = (p, g')" "h_segs g' = h_segs g"
  shows "tld_get e t (upd_page pp f g) = (p, upd_page pp f g')"
proof -
  let ?S = "h_segs (upd_page pp f g)"
  have "tld_get e t (g\<lparr>h_segs := ?S\<rparr>) = (p, g'\<lparr>h_segs := ?S\<rparr>)" unfolding tld_get_segs assms(1) by simp
  moreover have "g'\<lparr>h_segs := ?S\<rparr> = upd_page pp f g'"
    using upd_page_as_segs [of pp f g'] h_segs_upd_page_cong [OF assms(2), of pp f] by simp
  ultimately show ?thesis using upd_page_as_segs [of pp f g] by simp
qed

lemma upd_page_mem: "(upd_page pp f g)\<lparr>h_mem := m\<rparr> = upd_page pp f (g\<lparr>h_mem := m\<rparr>)"
  by (simp add: upd_page_def upd_seg_def)

lemma debug_free_cleared:
  assumes "get_page g pp = Some pg" "debug_cleared e pg p = Inr pg1"
  shows "debug_free e pp p g = Inr (upd_page pp (\<lambda>_. pg1) g)"
proof (cases "malloc_debug e")
  case True
  then show ?thesis using assms by (simp add: debug_free_def debug_cleared_def deref_page_ok)
next
  case False
  then have pg1: "pg1 = pg" using assms(2) by (simp add: debug_cleared_def)
  obtain sg where sg: "h_segs g (fst pp) = Some sg" "snd pp < length (sg_pages sg)" "sg_pages sg ! snd pp = pg"
    using assms(1) by (auto simp: pg_at_def split: option.splits if_splits)
  have "sg\<lparr>sg_pages := (sg_pages sg)[snd pp := pg]\<rparr> = sg" using sg(2,3) by (cases sg) (simp add: list_update_same_conv)
  then have "upd_page pp (\<lambda>_. pg) g = g" using sg(1) by (simp add: upd_page_def upd_seg_def fun_upd_idem)
  then show ?thesis using False pg1 by (simp add: debug_free_def)
qed

text \<open>The state in which a free does its work: the record of the thread is there, the debug bit is clear.\<close>

lemma free_step:
  assumes H: "heap_inv e g" and pp: "active (h_segs g) pp pg" and p: "p \<in> page_live (h_mem g) pg" and c: "debug_cleared e pg p = Inr pg1"
    and f: "page_free_slot_local p (h_mem g) pg1 = (m', pg') \<or> page_free_slot_remote p (h_mem g) pg1 = (m', pg')"
    and g': "g' = upd_page pp (\<lambda>_. pg') ((upd_page pp (\<lambda>_. pg1) g)\<lparr>h_mem := m'\<rparr>)"
  shows "heap_inv e g'" "drops g p (unat (pm_slot_size pg)) g'" "same_id pg pg'" "inside t g g'" "t_tld g' = t_tld g"
proof -
  note F = free_inv [OF activeD(3) [OF heap_invD(4) [OF H] pp] p c f]
  have eq: "g' = upd_page pp (\<lambda>_. pg') (g\<lparr>h_mem := m'\<rparr>)" unfolding g' upd_page_mem by (simp add: comp_def)
  show "heap_inv e g'" "drops g p (unat (pm_slot_size pg)) g'" using page_step_drop [OF H pp F(3,1,2) p F(4) eq] by blast+
  show "same_id pg pg'" by (rule F(3))
  show "inside t g g'" unfolding eq by (rule inside_trans [OF inside_upds(2) inside_upds(1)])
  show "t_tld g' = t_tld g" by (simp add: eq)
qed

lemma slab_free_remote_ok:
  assumes H: "heap_inv e g" and pp: "active (h_segs g) pp pg" and p: "p \<in> page_live (h_mem g) pg" and c: "debug_cleared e pg p = Inr pg1"
    and g': "g' = slab_free_remote pp p pg1 (upd_page pp (\<lambda>_. pg1) g)"
  shows "heap_inv e g'" "drops g p (unat (pm_slot_size pg)) g'" "inside t g g'"
proof -
  obtain m' pg' where f: "page_free_slot_remote p (h_mem g) pg1 = (m', pg')" by fastforce
  define g1 where "g1 = upd_page pp (\<lambda>_. pg') ((upd_page pp (\<lambda>_. pg1) g)\<lparr>h_mem := m'\<rparr>)"
  note S = free_step [OF H pp p c disjI2 [OF f] g1_def]
  have g2: "g' = (case pm_arena pg' of None \<Rightarrow> g1 | Some a \<Rightarrow> upd_arena a (\<lambda>ar. ar\<lparr>ar_freed := ar_freed ar + ucast (pm_slot_size pg'),
      ar_free_count := ar_free_count ar + 1\<rparr>) g1)"
    unfolding g' slab_free_remote_def g1_def by (simp add: f Let_def)
  have "calm g1 g' \<and> inside t g1 g'"
    unfolding g2 by (auto simp: arena_view_def intro!: calm_arena_upd inside_arena split: option.splits)
  then show "heap_inv e g'" "drops g p (unat (pm_slot_size pg)) g'" "inside t g g'"
    using calm_step [OF S(1)] drops_quiet [OF S(2)] inside_trans [OF S(4)] by blast+
qed

lemma slab_free_ok:
  assumes e: "env_ok e" and H: "heap_inv e g" and u: "unlocked g" and i: "ids_ok t g" and pp: "active (h_segs g) pp pg"
    and p: "p \<in> page_live (h_mem g) pg" and reg: "fst pp \<in> reg_set (g_registry g)"
  shows "\<exists>g'. slab_free e t p g = Inr g' \<and> heap_inv e g' \<and> unlocked g' \<and> ids_ok t g' \<and> drops g p (unat (pm_slot_size pg)) g' \<and>
    ptr_to_segment g p \<noteq> 0"
proof -
  note h = heap_invD [OF H] and A = activeD [OF heap_invD(4) [OF H] pp]
  have "16 \<le> unat (pm_slot_size pg)" by (rule page_geomD(1) [OF page_invD(6) [OF A(3)]])
  then have "unat p \<in> page_span pp" using slab_block_at(1) [OF h(4) pp p] by auto
  note at = ptr_to_page_at [OF H A(1) this]
  have sg: "ptr_to_segment g p \<noteq> 0" "ptr_to_page g p = Some pp" using at reg page_start_at(7) [OF h(4) A(1)] by simp_all
  obtain pg1 bm where c: "debug_cleared e pg p = Inr pg1" "pg1 = pg\<lparr>pm_debug_bitmap := bm\<rparr>" using clear_ok [OF A(3) p] by blast
  obtain tld g1 where tg: "tld_get e t g = (tld, g1)" by fastforce
  note T = tld_get_ok [OF e H i tg]
  have F: "h_segs g1 = h_segs g" "g_arenas g1 = g_arenas g" "g_large_lock g1 = g_large_lock g" using T tld_frameD by blast+
  have H1: "heap_inv e g1" "quiet g g1" and td: "tld \<noteq> 0 \<longleftrightarrow> t_tld g1 t \<noteq> None" using T by blast+
  have i1: "ids_ok t g1" using i T unfolding ids_ok_def by auto
  have p1: "active (h_segs g1) pp pg" "p \<in> page_live (h_mem g1) pg" using pp p F(1) T fresh_mem_live(1) [OF H _ pp, of "h_mem g1"] by simp_all
  define g2 where "g2 = upd_page pp (\<lambda>_. pg1) g1"
  have tg2: "tld_get e t (upd_page pp (\<lambda>_. pg1) g) = (tld, g2)" unfolding g2_def by (rule tld_get_upd_page [OF tg F(1)])
  have pg2: "get_page g2 pp = Some pg1" using p1(1) by (simp add: g2_def active_def)
  have eq: "slab_free e t p g = (case (if tld \<noteq> 0 then t_tld g2 t else None) of
      Some d \<Rightarrow> if pm_owner_tid pg1 = tl_thread_id d then
          (case page_free_slot_local p (h_mem g2) pg1 of (m, pg) \<Rightarrow>
             tld_stat_free t (ucast (pm_slot_size pg)) (upd_page pp (\<lambda>_. pg) (g2\<lparr>h_mem := m\<rparr>)))
        else Inr (slab_free_remote pp p pg1 g2)
    | None \<Rightarrow> Inr (slab_free_remote pp p pg1 g2))"
    using sg slab_block_at(4) [OF h(4) pp p] A(2) tg2
    by (simp add: slab_free_def deref_page_ok [OF A(1)] deref_page_ok [OF pg2] debug_free_cleared [OF A(1) c(1)])
  have td2: "(if tld \<noteq> 0 then t_tld g2 t else None) = t_tld g1 t" using td by (auto simp: g2_def)
  have fin: ?thesis if r: "slab_free e t p g = Inr g'" "heap_inv e g'" "drops g1 p (unat (pm_slot_size pg)) g'" "inside t g1 g'" for g'
  proof -
    have "locks g' = locks g" using r(4) F(2,3) by (simp add: inside_def locks_def)
    then have "unlocked g'" using u unlocked_locks [OF H] unlocked_locks [OF r(2)] by simp
    moreover have "ids_ok t g'" using i1 r(4) by (cases "t_tld g1 t"; cases "t_tld g' t") (auto simp: ids_ok_def inside_def)
    ultimately show ?thesis using r quiet_drops [OF H1(2) r(3)] sg(1) by blast
  qed
  have rem: ?thesis if "slab_free e t p g = Inr (slab_free_remote pp p pg1 g2)"
    using fin [OF that] slab_free_remote_ok [OF H1(1) p1 c(1) refl, folded g2_def] by blast
  show ?thesis
  proof (cases "t_tld g1 t")
    case None
    then show ?thesis using eq unfolding td2 by (intro rem) simp
  next
    case (Some d)
    show ?thesis
    proof (cases "pm_owner_tid pg = tl_thread_id d")
      case False
      then show ?thesis using eq Some c(2) unfolding td2 by (intro rem) simp
    next
      case True
      have ar: "tl_arena d \<noteq> None" by (rule owners_okD(3) [OF heap_invD(8) [OF H1(1)] p1(1) Some True])
      obtain m' pg' where f: "page_free_slot_local p (h_mem g1) pg1 = (m', pg')" by fastforce
      define g3 where "g3 = upd_page pp (\<lambda>_. pg') (g2\<lparr>h_mem := m'\<rparr>)"
      note S = free_step [OF H1(1) p1 c(1) disjI1 [OF f] g3_def [unfolded g2_def]]
      have "t_tld g3 t = Some d" using S(5) Some by simp
      from tld_stat_ok(2) [OF this ar] obtain g4 where s: "tld_stat_free t (ucast (pm_slot_size pg')) g3 = Inr g4" "calm g3 g4" "inside t g3 g4"
        by blast
      have hm: "h_mem g2 = h_mem g1" by (simp add: g2_def)
      have "slab_free e t p g = Inr g4" using eq Some True c(2) f s(1) unfolding td2 hm by (simp add: g3_def)
      then show ?thesis using fin calm_step [OF S(1) s(2)] drops_quiet [OF S(2)] inside_trans [OF S(4) s(3)] by blast
    qed
  qed
qed

end
