(* ===== verification/Api_Correct.thy ===== *)
theory Api_Correct
  imports Slab_Calls Malloc_Api
begin

unbundle bit_operations_syntax

text \<open>
  The public calls against the picture of the heap as a set of disjoint live blocks: start-up, allocation,
  free, zeroed allocation and the effect of the client's own writes.
\<close>

section \<open>Start-up\<close>

text \<open>Before the first call: static storage is zero, nothing has been allocated.\<close>

definition pristine :: "gstate \<Rightarrow> bool" where
  "pristine g \<longleftrightarrow> g_initialized g = 0 \<and> length (g_arenas g) = 64 \<and> \<not> g_large_lock g \<and>
     (\<forall>a < 64. g_arenas g ! a = zero_arena) \<and> reg_set (g_registry g) = {} \<and> h_segs g = (\<lambda>_. None) \<and> h_larges g = (\<lambda>_. None) \<and> t_tld g = (\<lambda>_. None)"

text \<open>Between two calls the heap is either pristine or in order, with every lock free.\<close>

definition heap_ok :: "env \<Rightarrow> gstate \<Rightarrow> bool" where
  "heap_ok e g \<longleftrightarrow> pristine g \<or> heap_inv e g \<and> unlocked g"

lemma pristine_zero: "pristine zero_gstate"
  by (auto simp: pristine_def zero_gstate_def config_simps reg_set_def)

lemma arenas_init:
  assumes "length (g_arenas g) = 64" "\<forall>a < 64. g_arenas g ! a = zero_arena" "n \<le> 64"
  defines "g' \<equiv> fold (\<lambda>i. arena_init i (of_nat i)) [0..<n] g"
  shows "g' = g\<lparr>g_arenas := g_arenas g'\<rparr> \<and> length (g_arenas g') = 64 \<and>
    (\<forall>a < 64. ar_bins (g_arenas g' ! a) = replicate 75 None \<and> ar_segments (g_arenas g' ! a) = 0 \<and> \<not> ar_lock (g_arenas g' ! a))"
  using assms(3) unfolding g'_def
proof (induction n)
  case 0
  then show ?case using assms(1,2) by (auto simp: zero_arena_def config_simps)
next
  case (Suc n)
  define h where "h = fold (\<lambda>i. arena_init i (of_nat i)) [0..<n] g"
  have h: "h = g\<lparr>g_arenas := g_arenas h\<rparr>" "length (g_arenas h) = 64"
    "\<forall>a < 64. ar_bins (g_arenas h ! a) = replicate 75 None \<and> ar_segments (g_arenas h ! a) = 0 \<and> \<not> ar_lock (g_arenas h ! a)"
    using Suc by (simp_all add: h_def)
  let ?z = "zero_arena\<lparr>ar_lock := False, ar_id := of_nat n, ar_thread_count := 0, ar_allocated := 0, ar_freed := 0, ar_alloc_count := 0, ar_free_count := 0\<rparr>"
  have "arena_init n (of_nat n) h = h\<lparr>g_arenas := (g_arenas h)[n := ?z]\<rparr>" by (simp add: arena_init_def upd_arena_def)
  also have "\<dots> = g\<lparr>g_arenas := (g_arenas h)[n := ?z]\<rparr>" by (subst h(1)) simp
  finally have "arena_init n (of_nat n) h = g\<lparr>g_arenas := (g_arenas h)[n := ?z]\<rparr>" .
  moreover have "fold (\<lambda>i. arena_init i (of_nat i)) [0..<Suc n] g = arena_init n (of_nat n) h" by (simp add: h_def)
  ultimately show ?case using h(2,3) Suc.prems by (auto simp: nth_list_update zero_arena_def config_simps)
qed

lemma empty_heap_inv:
  assumes "g_initialized g = 2" "tables_ok g" "g_arena_count g = 4" "length (g_arenas g) = 64"
    "\<forall>a < 64. ar_bins (g_arenas g ! a) = replicate 75 None \<and> ar_segments (g_arenas g ! a) = 0"
    "g_registry g = replicate SEGMENT_REGISTRY_SIZE 0" "h_segs g = (\<lambda>_. None)" "h_larges g = (\<lambda>_. None)" "g_large_list g = 0" "t_tld g = (\<lambda>_. None)"
  shows "heap_inv e g" "blocks g = {}"
proof -
  have reg: "region e g x = {}" for x by (cases x) (simp_all add: assms)
  have "registry_ok (g_registry g) (h_segs g)" by (auto simp: registry_ok_def assms reg_ok_empty reg_set_def)
  moreover have "layout_ok e (h_log g) (region e g)" by (simp add: layout_ok_def reg)
  moreover have "segs_ok e (h_mem g) (h_segs g)" by (simp add: segs_ok_def assms pg_at_def)
  moreover have "arena_ok g a" if "a < 4" for a
  proof -
    have "dll (bin_head a bin g) (bin_nxt g) (bin_prv g) (bin_node a bin g) []" if "unat bin < 75" for bin
      using that \<open>a < 4\<close> assms(5) by (simp add: dll_def bin_head_def)
    moreover have "seg_path a (h_segs g) (ar_segments (g_arenas g ! a)) []" using that assms(5) by simp
    ultimately show ?thesis unfolding arena_ok_def by blast
  qed
  moreover have "large_ok g" by (auto simp: large_ok_def dll_def assms large_head_def intro!: exI [of _ "[]"])
  moreover have "owners_ok g" by (simp add: owners_ok_def active_def pg_at_def assms)
  ultimately show "heap_inv e g" using assms by (simp add: heap_inv_def base_ok_def)
  show "blocks g = {}" by (auto simp: blocks_def slab_blocks_def large_blocks_def active_def pg_at_def assms)
qed

lemma pristine_blocks: "pristine g \<Longrightarrow> blocks g = {}"
  by (auto simp: pristine_def blocks_def slab_blocks_def large_blocks_def active_def pg_at_def)

lemma no_blocks: "blocks g = {} \<Longrightarrow> slabs g = {} \<and> large_recs g = {}"
  by (auto simp: blocks_def large_blocks_recs)

lemma malloc_init_ok:
  assumes "pristine g"
  shows "\<exists>g'. malloc_init g = Inr g' \<and> heap_inv e g' \<and> unlocked g' \<and> quiet g g' \<and> t_tld g' = (\<lambda>_. None) \<and>
    t_thread_id_counter g' = t_thread_id_counter g \<and> g_arena_next g' = 0 \<and> h_mem g' = h_mem g \<and> h_log g' = h_log g"
proof -
  note P = assms [unfolded pristine_def]
  define g1 where "g1 = size_class_init (g\<lparr>g_initialized := 1, g_large_lock := False, g_registry := replicate SEGMENT_REGISTRY_SIZE 0\<rparr>)"
  define g2 where "g2 = fold (\<lambda>i. arena_init i (of_nat i)) [0..<4] g1"
  define g3 where "g3 = g2\<lparr>g_arena_count := 4, g_arena_next := 0, g_large_list := 0, g_bootstrap_used := 0, g_initialized := 2\<rparr>"
  have f1: "g_arenas g1 = g_arenas g" "g_registry g1 = replicate SEGMENT_REGISTRY_SIZE 0" "h_segs g1 = (\<lambda>_. None)" "h_larges g1 = (\<lambda>_. None)"
    "t_tld g1 = (\<lambda>_. None)" "\<not> g_large_lock g1" "t_thread_id_counter g1 = t_thread_id_counter g" "h_mem g1 = h_mem g" "h_log g1 = h_log g" "tables_ok g1"
    using P by (simp_all add: g1_def) (simp_all add: size_class_init_def)
  have A: "g2 = g1\<lparr>g_arenas := g_arenas g2\<rparr>" "length (g_arenas g2) = 64"
    "\<forall>a < 64. ar_bins (g_arenas g2 ! a) = replicate 75 None \<and> ar_segments (g_arenas g2 ! a) = 0 \<and> \<not> ar_lock (g_arenas g2 ! a)"
    using arenas_init [of g1 4] P f1(1) unfolding g2_def by simp_all
  have f2: "g_registry g2 = replicate SEGMENT_REGISTRY_SIZE 0" "h_segs g2 = (\<lambda>_. None)" "h_larges g2 = (\<lambda>_. None)"
    "t_tld g2 = (\<lambda>_. None)" "\<not> g_large_lock g2" "t_thread_id_counter g2 = t_thread_id_counter g" "h_mem g2 = h_mem g" "h_log g2 = h_log g" "tables_ok g2"
    by (subst A(1); use f1 in \<open>simp add: tables_ok_def\<close>)+
  have r: "malloc_init g = Inr g3" using P by (simp add: malloc_init_def Let_def g3_def g2_def g1_def config_simps)
  have I: "heap_inv e g3" "blocks g3 = {}" by (rule empty_heap_inv; use f2 A in \<open>simp add: g3_def tables_ok_def\<close>)+
  have "unlocked g3" using f2(5) A by (simp add: unlocked_def g3_def)
  moreover have "quiet g g3" using I(2) pristine_blocks [OF assms] P no_blocks [of g] no_blocks [of g3] by (simp add: quiet_def keeps_def)
  ultimately show ?thesis using r I(1) f2 by (intro exI [of _ g3]) (simp add: g3_def)
qed

lemma ensure_init_ok:
  assumes "heap_ok e g" "ids_ok t g" "next_ok t g"
  shows "\<exists>g'. malloc_ensure_init g = Inr g' \<and> heap_inv e g' \<and> unlocked g' \<and> ids_ok t g' \<and> next_ok t g' \<and> quiet g g' \<and> h_mem g' = h_mem g \<and>
    (heap_inv e g \<longrightarrow> g' = g)"
proof (cases "pristine g")
  case True
  then have i: "g_initialized g = 0" "t_tld g = (\<lambda>_. None)" by (simp_all add: pristine_def)
  then have "\<not> heap_inv e g" using base_okD(1) [OF heap_invD(1)] by fastforce
  then show ?thesis
    using malloc_init_ok [OF True, of e] i assms(2) by (auto simp: malloc_ensure_init_def ids_ok_def next_ok_def)
next
  case False
  then have "heap_inv e g" "unlocked g" using assms(1) by (simp_all add: heap_ok_def)
  then show ?thesis using assms(2,3) base_okD(1) [OF heap_invD(1)] by (auto simp: malloc_ensure_init_def)
qed

section \<open>Allocation and free\<close>

lemma my_malloc_ok:
  assumes e: "env_ok e" and H: "heap_ok e g" and i: "ids_ok t g" and n: "next_ok t g" and sz: "unat sz + 262176 \<le> 2 ^ 64"
  shows "\<exists>p g'. my_malloc e t sz g = Inr (p, g') \<and> alloc_ok e t g (room_for sz) p g'"
proof -
  obtain g1 where g1: "malloc_ensure_init g = Inr g1" "heap_inv e g1" "unlocked g1" "ids_ok t g1" "next_ok t g1" "quiet g g1"
    using ensure_init_ok [OF H i n] by blast
  define s where "s = (if sz = 0 then 1 else sz)"
  have us: "unat s = room_for sz" "0 < unat s" "room_for s = room_for sz" "unat s + 262176 \<le> 2 ^ 64"
    using room_for_pos [of sz] sz by (auto simp: s_def room_for_def)
  have eq: "my_malloc e t sz g = (if s > MEDIUM_MAX then large_alloc e s g1 else slab_alloc e t s g1)"
    using g1(1) by (simp add: my_malloc_def s_def Let_def)
  have "\<exists>p g'. my_malloc e t sz g = Inr (p, g') \<and> alloc_ok e t g1 (room_for sz) p g'"
  proof (cases "s > MEDIUM_MAX")
    case True
    then show ?thesis using eq large_alloc_alloc_ok [OF e g1(2-4) us(2,4)] us(1) by auto
  next
    case False
    then show ?thesis
      using eq slab_alloc_inner_ok [OF e g1(2-5) us(4), of False] us(3) by (auto simp: slab_alloc_def)
  qed
  then show ?thesis using quiet_alloc_ok [OF g1(6)] by blast
qed

lemma in_bootstrap_iff: "env_ok e \<Longrightarrow> in_bootstrap e p \<longleftrightarrow> unat p \<in> span (bootstrap_buf e) 65536"
proof -
  assume "env_ok e"
  then have "unat (bootstrap_buf e + 65536) = unat (bootstrap_buf e) + 65536" by (subst unat_add_small) (auto simp: env_ok_def)
  then show ?thesis by (simp add: in_bootstrap_def config_simps word_le_nat_alt word_less_nat_alt)
qed

text \<open>A block that a free can find: its segment is in the registry.\<close>

definition findable :: "gstate \<Rightarrow> addr \<Rightarrow> bool" where
  "findable g p \<longleftrightarrow> h_segs g (p AND SEGMENT_MASK) \<noteq> None \<longrightarrow> p AND SEGMENT_MASK \<in> reg_set (g_registry g)"

lemma findable_few:
  assumes "heap_inv e g" "card (dom (h_segs g)) \<le> 256"
  shows "findable g p"
proof -
  have r: "finite (dom (h_segs g))" "reg_set (g_registry g) \<subseteq> dom (h_segs g)"
    "dom (h_segs g) = reg_set (g_registry g) \<or> card (reg_set (g_registry g)) = 256"
    using heap_invD(2) [OF assms(1)] by (auto simp: registry_ok_def)
  then have "dom (h_segs g) = reg_set (g_registry g)" using assms(2) card_subset_eq [OF r(1,2)] card_mono [OF r(1,2)] by auto
  then show ?thesis unfolding findable_def by blast
qed

lemma my_free_ok:
  assumes e: "env_ok e" and H: "heap_inv e g" and u: "unlocked g" and i: "ids_ok t g" and o: "owns g p s n" and f: "findable g p"
  shows "\<exists>g'. my_free e t p g = Inr g' \<and> heap_inv e g' \<and> unlocked g' \<and> ids_ok t g' \<and> drops g s n g'"
proof -
  note h = heap_invD [OF H]
  have bl: "(s, n) \<in> blocks g" "unat p \<in> span s n"
    using o block_pos [OF H, of s n] by (auto simp: owns_def blocks_def)
  obtain x where x: "span s n \<subseteq> region e g x" using block_region [OF H bl(1)] by blast
  have nb: "\<not> in_bootstrap e p" using layout_bootstrap [OF h(3)] x bl(2) in_bootstrap_iff [OF e] by blast
  from o consider (slab) "p = s" "(s, n) \<in> slab_blocks (h_mem g) (h_segs g)" | (large) "(s, n) \<in> large_blocks g" by (auto simp: owns_def)
  then show ?thesis
  proof cases
    case slab
    then obtain pp pg where pg: "active (h_segs g) pp pg" "p \<in> page_live (h_mem g) pg" "n = unat (pm_slot_size pg)"
      by (auto simp: slab_blocks_def)
    note st = page_start_at [OF h(4) activeD(1) [OF h(4) pg(1)]]
    have "unat p \<in> span (fst pp) 4194304" using slab_block_at(1) [OF h(4) pg(1,2)] st(4) bl(2) slab(1) pg(3) by blast
    then have "p AND SEGMENT_MASK = fst pp" by (rule segment_base [OF st(8)])
    then have "fst pp \<in> reg_set (g_registry g)" using f st(5) by (auto simp: findable_def)
    from slab_free_ok [OF e H u i pg(1,2) this] show ?thesis
      using slab_block_at(4) [OF h(4) pg(1,2)] nb slab(1) pg(3) by (auto simp: my_free_def)
  next
    case large
    then obtain l where l: "h_larges g s = Some l" "n = unat (la_size l)" by (auto simp: large_blocks_def)
    have p: "unat p \<in> region e g (Large s)" using bl(2) l by simp
    have z: "ptr_to_segment g p = 0" by (rule ptr_to_segment_large [OF H p]) simp
    have p0: "p \<noteq> 0" using bl(2) large_okD(2) [OF h(6) l(1)] by (auto simp: word_unat_eq_iff)
    obtain g' where g': "large_free p g = Inr g'" "large_removed e g s g'" "large_ok g'" "layout_ok e (h_log g') (region e g')"
      using large_free_ok [OF h(6,3) _ p] u by (auto simp: unlocked_def)
    have "large_frame g g'" using g'(2) by (simp add: large_removed_def)
    note F = large_frameD [OF this]
    have "unlocked g'" "ids_ok t g'" using u i by (simp_all add: unlocked_def ids_ok_def F)
    then show ?thesis using large_remove_inv [OF H g'(2-4) l(1)] g'(1) p0 nb z l(2) by (auto simp: my_free_def)
  qed
qed

text \<open>Anything else that is not in a segment is left alone.\<close>

lemma my_free_foreign:
  assumes "heap_inv e g" "unlocked g" "\<And>b. unat p \<notin> region e g (Large b)" "p = 0 \<or> in_bootstrap e p \<or> ptr_to_segment g p = 0"
  shows "my_free e t p g = Inr g"
  using assms(2,4) large_free_unknown [OF heap_invD(6) [OF assms(1)] _ assms(3)] by (auto simp: my_free_def unlocked_def)

end
