(* ===== verification/Client_Writes.thy ===== *)
theory Client_Writes
  imports Api_Correct
begin

text \<open>
  The client owns its blocks: whatever it writes inside one, the heap stays in order. The same holds for
  the \<open>memset\<close> of \<open>my_calloc\<close> and the \<open>memcpy\<close> of \<open>my_realloc\<close>.
\<close>

section \<open>Writing inside a block\<close>

lemma block_in_page:
  assumes H: "heap_inv e g" and b: "(s, n) \<in> blocks g" "a \<in> span s n" and qq: "get_page g qq = Some qg" "a \<in> page_span qq"
  shows "active (h_segs g) qq qg" "s \<in> page_live (h_mem g) qg" "n = unat (pm_slot_size qg)"
proof -
  note h = heap_invD [OF H] and S = page_start_at [OF heap_invD(4) [OF H] qq(1)]
  have r: "a \<in> region e g (Seg (fst qq))" using S(4,5) qq(2) by (auto simp del: span_iff)
  have "(s, n) \<notin> large_blocks g"
  proof
    assume l: "(s, n) \<in> large_blocks g"
    have "region e g (Large s) \<inter> region e g (Seg (fst qq)) = {}" using layout_disjoint [OF h(3), of "Large s" "Seg (fst qq)"] by blast
    then show False using large_block_region [OF l, of e] b(2) r by blast
  qed
  then obtain pp pg where p: "active (h_segs g) pp pg" "s \<in> page_live (h_mem g) pg" "n = unat (pm_slot_size pg)"
    using b(1) by (auto simp: blocks_def slab_blocks_def)
  have "pp = qq"
  proof (rule ccontr)
    assume "pp \<noteq> qq"
    then have "page_span pp \<inter> page_span qq = {}" using page_span_apart [OF h(3,4) activeD(1) [OF h(4) p(1)] qq(1)] by blast
    then show False using slab_block_at(1) [OF h(4) p(1,2)] p(3) b(2) qq(2) by blast
  qed
  then have "pg = qg" using p(1) qq(1) by (simp add: active_def)
  then show "active (h_segs g) qq qg" "s \<in> page_live (h_mem g) qg" "n = unat (pm_slot_size qg)" using p \<open>pp = qq\<close> by simp_all
qed

lemma write_page_inv:
  assumes H: "heap_inv e g" and b: "(s, n) \<in> blocks g" and w: "\<forall>x. unat x \<notin> span s n \<longrightarrow> m' x = h_mem g x" and qq: "active (h_segs g) qq qg"
  shows "page_inv e m' qg" "page_live m' qg = page_live (h_mem g) qg"
proof -
  note h = heap_invD [OF H] and A = activeD [OF heap_invD(4) [OF H] qq]
  note D = page_invD [OF A(3)] and S = page_start_at [OF h(4) A(1)]
  have "load64 m' x = load64 (h_mem g) x" if x: "x \<in> page_free (h_mem g) qg" for x
  proof -
    have sl: "x \<in> all_slots qg" using page_free_slots [OF D(1)] x by blast
    note f = all_slots_facts [OF D(6) sl]
    have ap: "span x (unat (pm_slot_size qg)) \<inter> span s n = {}"
    proof (rule ccontr)
      assume "\<not> ?thesis"
      then obtain a where a: "a \<in> span x (unat (pm_slot_size qg))" "a \<in> span s n" by blast
      have "a \<in> page_span qq" using f(5) S(2) a(1) by blast
      note B = block_in_page [OF H b a(2) A(1) this]
      have "x \<noteq> s" using x B(2) by (auto simp: page_live_def)
      then show False using all_slots_apart [OF D(6) sl slab_block_at(2) [OF h(4) qq B(2)]] B(3) a by blast
    qed
    have "16 \<le> unat (pm_slot_size qg)" by (rule page_geomD(1) [OF D(6)])
    then show ?thesis using f(2) ap w by (intro load64_bytes) (auto simp: disjoint_iff)
  qed
  note c = page_ok_cong [OF D(1) this]
  then show l: "page_live m' qg = page_live (h_mem g) qg" by simp
  have "m' x = 0" if x: "unat (page_start qg) + unat (pm_bump_offset qg) \<le> unat x" "unat x < unat (page_start qg) + 65536" for x
  proof -
    have "unat x \<notin> span s n"
    proof
      assume a: "unat x \<in> span s n"
      have "unat x \<in> page_span qq" unfolding S(2) [symmetric] using x by simp
      note B = block_in_page [OF H b a A(1) this]
      show False using live_slot(2) [OF D(1) B(2)] B(3) a x(1) by simp
    qed
    then show ?thesis using w D(3) x by (simp add: virgin_def)
  qed
  then have "virgin m' qg" by (simp add: virgin_def)
  then show "page_inv e m' qg" using c D l by (simp add: page_inv_def dbg_ok_def)
qed

lemma client_write_inv:
  assumes H: "heap_inv e g" and b: "(s, n) \<in> blocks g" and w: "\<forall>x. unat x \<notin> span s n \<longrightarrow> m' x = h_mem g x"
  shows "heap_inv e (g\<lparr>h_mem := m'\<rparr>)" "slab_blocks m' (h_segs g) = slab_blocks (h_mem g) (h_segs g)"
    "blocks (g\<lparr>h_mem := m'\<rparr>) = blocks g"
proof -
  note h = heap_invD [OF H]
  show s: "slab_blocks m' (h_segs g) = slab_blocks (h_mem g) (h_segs g)"
    unfolding slab_blocks_def using write_page_inv(2) [OF H b w] by (auto, blast+)
  then show "blocks (g\<lparr>h_mem := m'\<rparr>) = blocks g" by (simp add: blocks_def)
  have "page_wf e m' qq qg" if q: "get_page g qq = Some qg" for qq qg
  proof (cases "pm_state qg = PAGE_ACTIVE")
    case True
    then have a: "active (h_segs g) qq qg" using q by (simp add: active_def)
    show ?thesis using write_page_inv(1) [OF H b w a] activeD [OF h(4) a] by (simp add: page_wf_def)
  next
    case False
    have "m' x = h_mem g x" if "unat x \<in> page_span qq" for x
      using block_in_page(1) [OF H b _ q that] False w by (auto simp: active_def)
    then show ?thesis using segs_ok_wf [OF h(4) q] False by (auto simp: page_wf_def)
  qed
  then have "segs_ok e m' (h_segs g)" using h(4) by (simp add: segs_ok_def)
  then show "heap_inv e (g\<lparr>h_mem := m'\<rparr>)" using h by (simp add: heap_inv_def base_ok_def tables_ok_def)
qed

text \<open>The owner's view: what it owns stays what it was.\<close>

lemma usable_write:
  assumes "heap_inv e g" "(s, n) \<in> blocks g" "\<forall>x. unat x \<notin> span s n \<longrightarrow> m' x = h_mem g x"
  shows "usable (g\<lparr>h_mem := m'\<rparr>) p s' n' u \<longleftrightarrow> usable g p s' n' u"
  using client_write_inv(2) [OF assms] by (simp add: usable_def)

lemma alloc_write_ok:
  assumes A: "alloc_ok e t g sz p g'" and p: "p \<noteq> 0" and w: "\<forall>x. unat x \<notin> span p sz \<longrightarrow> m' x = h_mem g' x"
  shows "alloc_ok e t g sz p (g'\<lparr>h_mem := m'\<rparr>)"
proof -
  obtain s n u where a: "heap_inv e g'" "unlocked g'" "ids_ok t g'" "unat p mod 16 = 0" "adds g s n g'" "usable g' p s n u" "sz \<le> u"
    using A p by (auto simp: alloc_ok_def)
  have bl: "(s, n) \<in> blocks g'" using a(5) by (simp add: adds_def)
  have w': "\<forall>x. unat x \<notin> span s n \<longrightarrow> m' x = h_mem g' x" using w a(7) usableD(3,4) [OF a(6)] by auto
  note C = client_write_inv [OF a(1) bl w']
  have "adds g s n (g'\<lparr>h_mem := m'\<rparr>)"
  proof -
    have "m' x = h_mem g x" if "(s', n') \<in> blocks g" "unat x \<in> span s' n'" for s' n' x
    proof -
      have "unat x \<notin> span s n" using a(5) that unfolding adds_def by blast
      then show ?thesis using w' a(5) that unfolding adds_def keeps_def by metis
    qed
    moreover have "large_recs (g'\<lparr>h_mem := m'\<rparr>) = large_recs g'" by (simp add: large_recs_def)
    ultimately show ?thesis using a(5) C(2,3) unfolding adds_def keeps_def by simp
  qed
  moreover have "usable (g'\<lparr>h_mem := m'\<rparr>) p s n u" using a(6) usable_write [OF a(1) bl w'] by simp
  ultimately show ?thesis using C(1) a p by (auto simp: alloc_ok_def unlocked_def ids_ok_def)
qed

section \<open>Zeroed allocation\<close>

lemma block_fits:
  assumes H: "heap_inv e g" and b: "(s, n) \<in> blocks g"
  shows "unat s + n \<le> 2 ^ 48"
proof (cases "(s, n) \<in> large_blocks g")
  note h = heap_invD [OF H]
  case True
  then show ?thesis using large_okD(4) [OF h(6)] by (auto simp: large_blocks_def)
next
  note h = heap_invD [OF H]
  case False
  then obtain pp pg where p: "active (h_segs g) pp pg" "s \<in> page_live (h_mem g) pg" "n = unat (pm_slot_size pg)"
    using b by (auto simp: blocks_def slab_blocks_def)
  note S = page_start_at [OF h(4) activeD(1) [OF h(4) p(1)]]
  have g: "16 \<le> n" using page_geomD(1) [OF page_invD(6) [OF activeD(3) [OF h(4) p(1)]]] p(3) by simp
  then have "unat s + n - 1 \<in> span s n" by auto
  then have "unat s + n - 1 \<in> span (fst pp) 4194304" using slab_block_at(1) [OF h(4) p(1,2)] S(4) p(3) by blast
  then have "unat s + n - 1 < unat (fst pp) + 4194304" by simp
  then show ?thesis using S(6) g by linarith
qed

lemma usable_fits: "heap_inv e g \<Longrightarrow> usable g p s n u \<Longrightarrow> unat p + u \<le> 2 ^ 48"
  using block_fits usableD(2,4) by fastforce

lemma alloc_ok_fits: "alloc_ok e t g sz p g' \<Longrightarrow> p \<noteq> 0 \<Longrightarrow> unat p + sz \<le> 2 ^ 48"
  using usable_fits by (fastforce simp: alloc_ok_def)

lemma my_calloc_ok:
  assumes e: "env_ok e" and H: "heap_ok e g" and i: "ids_ok t g" and n: "next_ok t g"
    and sz: "unat count * unat sz + 262176 \<le> 2 ^ 64"
  shows "\<exists>p g'. my_calloc e t count sz g = Inr (p, g') \<and> alloc_ok e t g (max 1 (unat count * unat sz)) p g' \<and>
    (p \<noteq> 0 \<longrightarrow> zeroed_at g' p (max 1 (unat count * unat sz)))"
proof -
  obtain g1 where g1: "malloc_ensure_init g = Inr g1" "heap_inv e g1" "unlocked g1" "ids_ok t g1" "next_ok t g1" "quiet g g1"
    using ensure_init_ok [OF H i n] by blast
  define s where "s = (if count * sz = 0 then 1 else count * sz)"
  have m: "unat (count * sz) = unat count * unat sz" using sz by (intro unat_mult_lem [THEN iffD1]) simp
  have us: "unat s = max 1 (unat count * unat sz)" "0 < unat s" "room_for s = unat s" "unat s + 262176 \<le> 2 ^ 64"
    using room_for_pos [of "count * sz"] m sz by (auto simp: s_def room_for_def)
  define k where "k = unat count * unat sz"
  have k: "uint count * uint sz = int k" "k < 2 ^ 64" using sz by (simp_all add: k_def)
  then have nov: "\<not> uint count * uint sz \<ge> 2 ^ 64" by simp
  have eq: "my_calloc e t count sz g = (if s > MEDIUM_MAX then large_alloc e s g1
      else bindR (slab_alloc_zeroed e t s False g1) (\<lambda>(p, zeroed, g).
        if p \<noteq> 0 \<and> \<not> zeroed then Inr (p, g\<lparr>h_mem := mem_set (h_mem g) p 0 s\<rparr>) else Inr (p, g)))"
    unfolding my_calloc_def Let_def if_not_P [OF nov] s_def [symmetric] g1(1) by simp
  have "\<exists>p g'. my_calloc e t count sz g = Inr (p, g') \<and> alloc_ok e t g1 (unat s) p g' \<and> (p \<noteq> 0 \<longrightarrow> zeroed_at g' p (unat s))"
  proof (cases "s > MEDIUM_MAX")
    case True
    then show ?thesis using eq large_alloc_alloc_ok [OF e g1(2-4) us(2,4)] by auto
  next
    case False
    obtain p z g2 where a: "slab_alloc_inner e t s False g1 = Inr (p, z, g2)" "alloc_ok e t g1 (unat s) p g2"
        "p \<noteq> 0 \<longrightarrow> z \<longrightarrow> zeroed_at g2 p (unat s)" using slab_alloc_inner_ok [OF e g1(2-5) us(4), of False] us(3) by auto
    show ?thesis
    proof (cases "p \<noteq> 0 \<and> \<not> z")
      case True
      have fit: "unat p + unat s \<le> 2 ^ 64" using alloc_ok_fits [OF a(2)] True by simp
      note ms = mem_set_unat [OF fit]
      have "alloc_ok e t g1 (unat s) p (g2\<lparr>h_mem := mem_set (h_mem g2) p 0 s\<rparr>)"
        by (rule alloc_write_ok [OF a(2)]) (use True in \<open>simp_all add: ms\<close>)
      moreover have "zeroed_at (g2\<lparr>h_mem := mem_set (h_mem g2) p 0 s\<rparr>) p (unat s)" by (simp add: zeroed_at_def ms)
      ultimately show ?thesis using eq False a(1) True by (auto simp: slab_alloc_zeroed_def)
    next
      case F: False
      then show ?thesis using eq False a by (auto simp: slab_alloc_zeroed_def)
    qed
  qed
  then show ?thesis using quiet_alloc_ok [OF g1(6)] us(1) by auto
qed

end
