(* ===== verification/Realloc_Correct.thy ===== *)
theory Realloc_Correct
  imports Client_Writes
begin

unbundle bit_operations_syntax

text \<open>
  \<open>my_realloc\<close>, \<open>my_malloc_usable_size\<close> and \<open>my_memalign\<close> on the heap of disjoint blocks: the block a
  client holds keeps its contents across the calls made for other blocks and across its own reallocation.
\<close>

section \<open>A held block across other steps\<close>

lemma usable_quiet: "quiet g g' \<Longrightarrow> usable g' p s n u \<longleftrightarrow> usable g p s n u"
  by (simp add: quiet_def usable_def)

lemma usable_adds: "adds g s' n' g' \<Longrightarrow> usable g p s n u \<Longrightarrow> usable g' p s n u"
  unfolding adds_def usable_def by blast

lemma usable_drops:
  assumes "drops g s' n' g'" "usable g p s n u" "s \<noteq> s'"
  shows "usable g' p s n u"
proof -
  have "slabs g - {(s', n')} \<subseteq> slabs g'" "{r \<in> large_recs g. fst r \<noteq> s'} \<subseteq> large_recs g'" using assms(1) by (simp_all add: drops_def)
  then show ?thesis using assms(2,3) by (auto simp: usable_def)
qed

lemma block_nonzero:
  assumes "heap_inv e g" "(s, n) \<in> blocks g"
  shows "s \<noteq> 0"
  using assms(2) large_okD(2) [OF heap_invD(6) [OF assms(1)]] slab_block_at(4) [OF heap_invD(4) [OF assms(1)]]
  unfolding blocks_def slab_blocks_def large_blocks_def by blast

lemma block_start: "heap_inv e g \<Longrightarrow> (s, n) \<in> blocks g \<Longrightarrow> unat s \<in> span s n"
  using block_pos by fastforce

lemma usable_ptr:
  assumes "heap_inv e g" "usable g p s n u"
  shows "unat p \<in> span s n" "p \<noteq> 0" "env_ok e \<Longrightarrow> \<not> in_bootstrap e p"
proof -
  note U = usableD [OF assms(2)]
  show p: "unat p \<in> span s n" using assms(2) block_start [OF assms(1) U(2)] by (auto simp: usable_def)
  show "p \<noteq> 0" using U(3) block_nonzero [OF assms(1) U(2)] by (auto simp: word_unat_eq_iff)
  obtain x where "span s n \<subseteq> region e g x" using block_region [OF assms(1) U(2)] by blast
  then show "env_ok e \<Longrightarrow> \<not> in_bootstrap e p"
    using layout_bootstrap [OF heap_invD(3) [OF assms(1)]] p in_bootstrap_iff [of e p] by blast
qed

lemma block_start_unique:
  assumes "heap_inv e g" "(s, n) \<in> blocks g" "(s, n') \<in> blocks g"
  shows "n = n'"
  using blocks_apart [OF assms] block_start [OF assms(1,2)] block_start [OF assms(1,3)] by blast

text \<open>Where the pointer of a held block leads.\<close>

lemma usable_slab:
  assumes H: "heap_inv e g" and b: "(p, n) \<in> slabs g"
  obtains pp pg where "get_page g pp = Some pg" "active (h_segs g) pp pg" "n = unat (pm_slot_size pg)" "p AND SEGMENT_MASK = fst pp"
    "h_segs g (fst pp) \<noteq> None" "fst pp \<noteq> 0" "unat p \<in> page_span pp"
proof -
  note h = heap_invD [OF H]
  obtain pp pg where pg: "active (h_segs g) pp pg" "p \<in> page_live (h_mem g) pg" "n = unat (pm_slot_size pg)"
    using b by (auto simp: slab_blocks_def)
  note A = activeD [OF h(4) pg(1)]
  note st = page_start_at [OF h(4) A(1)]
  have "(p, n) \<in> blocks g" using b by (simp add: blocks_def)
  then have s: "unat p \<in> page_span pp" using block_start [OF H] slab_block_at(1) [OF h(4) pg(1,2)] pg(3) by blast
  then have "unat p \<in> span (fst pp) 4194304" using st(4) by blast
  then have "p AND SEGMENT_MASK = fst pp" by (rule segment_base [OF st(8)])
  then show ?thesis using that A(1) pg(1,3) st(5,7) s by auto
qed

lemma large_not_segment:
  assumes H: "heap_inv e g" and b: "(s, n) \<in> large_blocks g" and p: "unat p \<in> span s n"
  shows "h_segs g (p AND SEGMENT_MASK) = None"
proof (rule ccontr)
  assume a: "h_segs g (p AND SEGMENT_MASK) \<noteq> None"
  then have "unat p \<in> region e g (Seg (p AND SEGMENT_MASK))"
    using mod_less_divisor [of 4194304 "unat p"] by (auto simp: config_simps unat_and_not_mask)
  moreover have "region e g (Large s) \<inter> region e g (Seg (p AND SEGMENT_MASK)) = {}"
    using layout_disjoint [OF heap_invD(3) [OF H], of "Large s"] by blast
  ultimately show False using large_block_region [OF b, of e] p by blast
qed

lemma findable_keeps:
  assumes H: "heap_inv e g" "heap_inv e g'" and u: "usable g p s n u" and f: "findable g p"
    and r: "reg_set (g_registry g) \<subseteq> reg_set (g_registry g')" and l: "(s, n) \<in> large_blocks g \<longrightarrow> (s, n) \<in> large_blocks g'"
  shows "findable g' p"
proof (cases "(s, n) \<in> large_blocks g")
  case True
  then show ?thesis using large_not_segment [OF H(2) _ usable_ptr(1) [OF H(1) u]] l by (simp add: findable_def)
next
  case False
  then have "(p, n) \<in> slabs g" using u by (auto simp: usable_def large_blocks_recs)
  then obtain pp :: page_ptr where "p AND SEGMENT_MASK = fst pp" "h_segs g (fst pp) \<noteq> None" using usable_slab [OF H(1)] by metis
  then show ?thesis using f r unfolding findable_def by auto
qed

lemma findable_adds:
  assumes "heap_inv e g" "heap_inv e g'" "usable g p s n u" "findable g p" "adds g s' n' g'"
  shows "findable g' p"
  using assms(5) by (intro findable_keeps [OF assms(1-4)]) (auto simp: adds_def keeps_def large_blocks_recs)

section \<open>Copying\<close>

lemma mem_cpy_unat:
  assumes "unat dst + unat n \<le> 2 ^ 64"
  shows "mem_cpy m dst src n x = (if unat x \<in> span dst (unat n) then m (src + (x - dst)) else m x)"
proof -
  have "x - dst < n \<longleftrightarrow> unat dst \<le> unat x \<and> unat x < unat dst + unat n"
    using assms unat64_bound [of x] by (auto simp: word_less_nat_alt unat_sub_if')
  then show ?thesis by (simp add: mem_cpy_def)
qed

lemma unat_offset: "unat (p :: addr) + i < 2 ^ 64 \<Longrightarrow> unat (p + of_nat i) = unat p + i"
  by (simp add: unat_word_ariths unat_of_nat)

text \<open>
  One block gives way to another: the rest of the heap is untouched, and the new block overlaps none of it.
\<close>

definition swaps :: "gstate \<Rightarrow> addr \<Rightarrow> nat \<Rightarrow> addr \<Rightarrow> nat \<Rightarrow> gstate \<Rightarrow> bool" where
  "swaps g s n s' n' g' \<longleftrightarrow> blocks g' = insert (s', n') (blocks g - {(s, n)}) \<and>
     slabs g - {(s, n)} \<subseteq> slabs g' \<and> {r \<in> large_recs g. fst r \<noteq> s} \<subseteq> large_recs g' \<and>
     reg_set (g_registry g) \<subseteq> reg_set (g_registry g') \<and>
     (\<forall>s'' n'' x. (s'', n'') \<in> blocks g - {(s, n)} \<longrightarrow> unat x \<in> span s'' n'' \<longrightarrow> h_mem g' x = h_mem g x \<and> unat x \<notin> span s' n')"

definition realloc_ok :: "env \<Rightarrow> thread \<Rightarrow> gstate \<Rightarrow> addr \<Rightarrow> addr \<Rightarrow> nat \<Rightarrow> nat \<Rightarrow> nat \<Rightarrow> addr \<Rightarrow> gstate \<Rightarrow> bool" where
  "realloc_ok e t g p s n u sz q g' \<longleftrightarrow> heap_inv e g' \<and> unlocked g' \<and> ids_ok t g' \<and>
     (q = 0 \<and> quiet g g' \<or>
      q \<noteq> 0 \<and> (q = p \<or> unat q mod 16 = 0) \<and>
        (\<exists>s' n' u'. swaps g s n s' n' g' \<and> usable g' q s' n' u' \<and> sz \<le> u') \<and>
        (\<forall>i < min u sz. h_mem g' (q + of_nat i) = h_mem g (p + of_nat i)))"

lemma realloc_okI:
  assumes "heap_inv e g'" "unlocked g'" "ids_ok t g'" "q \<noteq> 0" "q = p \<or> unat q mod 16 = 0"
    "swaps g s n s' n' g'" "usable g' q s' n' u'" "sz \<le> u'" "\<And>i. i < min u sz \<Longrightarrow> h_mem g' (q + of_nat i) = h_mem g (p + of_nat i)"
  shows "realloc_ok e t g p s n u sz q g'"
  using assms unfolding realloc_ok_def by blast

lemma adds_drops_swaps:
  assumes "adds g s' n' g1" "drops g1 s n g2" "(s, n) \<in> blocks g" "s \<noteq> s'"
  shows "swaps g s n s' n' g2"
proof -
  have a: "blocks g1 = insert (s', n') (blocks g)" "slabs g \<subseteq> slabs g1" "large_recs g \<subseteq> large_recs g1"
    "reg_set (g_registry g) \<subseteq> reg_set (g_registry g1)"
    "\<And>s'' n'' x. (s'', n'') \<in> blocks g \<Longrightarrow> unat x \<in> span s'' n'' \<Longrightarrow> h_mem g1 x = h_mem g x \<and> unat x \<notin> span s' n'"
    using assms(1) unfolding adds_def keeps_def by blast+
  have d: "blocks g2 = blocks g1 - {(s, n)}" "slabs g1 - {(s, n)} \<subseteq> slabs g2" "{r \<in> large_recs g1. fst r \<noteq> s} \<subseteq> large_recs g2"
    "reg_set (g_registry g1) \<subseteq> reg_set (g_registry g2)"
    "\<And>s'' n'' x. (s'', n'') \<in> blocks g2 \<Longrightarrow> unat x \<in> span s'' n'' \<Longrightarrow> h_mem g2 x = h_mem g1 x"
    using assms(2) unfolding drops_def by blast+
  have "h_mem g2 x = h_mem g x \<and> unat x \<notin> span s' n'" if "(s'', n'') \<in> blocks g - {(s, n)}" "unat x \<in> span s'' n''" for s'' n'' x
    using that a(5) [of s'' n'' x] d(5) [of s'' n'' x] by (simp add: a(1) d(1) del: span_iff)
  moreover have "blocks g2 = insert (s', n') (blocks g - {(s, n)})" using a(1) d(1) assms(4) by auto
  moreover have "slabs g - {(s, n)} \<subseteq> slabs g2" "reg_set (g_registry g) \<subseteq> reg_set (g_registry g2)" "{r \<in> large_recs g. fst r \<noteq> s} \<subseteq> large_recs g2"
    using a(2-4) d(2-4) by blast+
  ultimately show ?thesis by (simp only: swaps_def simp_thms) blast
qed

lemma realloc_move_ok:
  assumes e: "env_ok e" and H: "heap_inv e g" "unlocked g" and i: "ids_ok t g" and nx: "next_ok t g"
    and U: "usable g p s n (unat old)" and f: "findable g p" and sz: "unat sz + 262176 \<le> 2 ^ 64"
  shows "\<exists>q g'. realloc_move e t p old sz g = Inr (q, g') \<and> realloc_ok e t g p s n (unat old) (unat sz) q g'"
proof -
  have ho: "heap_ok e g" using H by (simp add: heap_ok_def)
  obtain q g1 where m: "my_malloc e t sz g = Inr (q, g1)" "alloc_ok e t g (room_for sz) q g1"
    using my_malloc_ok [OF e ho i nx sz] by blast
  show ?thesis
  proof (cases "q = 0")
    case True
    then show ?thesis using m by (auto simp: realloc_move_def alloc_ok_def realloc_ok_def)
  next
    case q: False
    define k where "k = (if old < sz then old else sz)"
    have k: "unat k = min (unat old) (unat sz)" by (auto simp: k_def word_less_nat_alt)
    have fit: "unat q + unat k \<le> 2 ^ 64" "unat p + unat k \<le> 2 ^ 64"
      using alloc_ok_fits [OF m(2) q] usable_fits [OF H(1) U] k by (auto simp: room_for_def)
    define g2 where "g2 = g1\<lparr>h_mem := mem_cpy (h_mem g1) q p k\<rparr>"
    have "alloc_ok e t g (room_for sz) q g2" unfolding g2_def
      by (rule alloc_write_ok [OF m(2) q]) (use k in \<open>auto simp: mem_cpy_unat [OF fit(1)] room_for_def\<close>)
    then obtain s' n' u' where a: "heap_inv e g2" "unlocked g2" "ids_ok t g2" "unat q mod 16 = 0" "adds g s' n' g2" "usable g2 q s' n' u'" "room_for sz \<le> u'"
      using q by (auto simp: alloc_ok_def)
    note b = usableD(2) [OF U]
    have ne: "s \<noteq> s'"
    proof
      assume "s = s'"
      then have "unat s \<in> span s' n'" "span s' n' \<inter> span s n = {}" using a(5) b by (auto simp: adds_def)
      then show False using block_start [OF H(1) b] by blast
    qed
    have fd: "findable g2 p" by (rule findable_adds [OF H(1) a(1) U f a(5)])
    obtain g3 where g3: "my_free e t p g2 = Inr g3" "heap_inv e g3" "unlocked g3" "ids_ok t g3" "drops g2 s n g3"
      using my_free_ok [OF e a(1-3) usableD(1) [OF usable_adds [OF a(5) U]] fd] by blast
    have us: "usable g3 q s' n' u'" using usable_drops [OF g3(5) a(6)] ne by blast
    have r: "realloc_move e t p old sz g = Inr (q, g3)"
      using m(1) q g3(1) by (simp add: realloc_move_def Let_def g2_def k_def)
    have bytes: "h_mem g3 (q + of_nat j) = h_mem g (p + of_nat j)" if j: "j < min (unat old) (unat sz)" for j
    proof -
      have uq: "unat (q + of_nat j) = unat q + j" and up: "unat (p + of_nat j) = unat p + j" using fit j k by (auto intro!: unat_offset)
      have "unat (q + of_nat j) \<in> span s' n'" using uq usableD(3,4) [OF a(6)] a(7) j by (auto simp: room_for_def)
      then have "h_mem g3 (q + of_nat j) = h_mem g2 (q + of_nat j)"
        using g3(5) usableD(2) [OF us] unfolding drops_def by metis
      also have "\<dots> = h_mem g1 (p + of_nat j)" using uq k j by (simp add: g2_def mem_cpy_unat [OF fit(1)])
      also have "\<dots> = h_mem g (p + of_nat j)"
      proof -
        have "unat (p + of_nat j) \<in> span s n" using up usableD(3,4) [OF U] j by auto
        then show ?thesis using m(2) q b by (auto simp: alloc_ok_def adds_def keeps_def)
      qed
      finally show ?thesis .
    qed
    have "realloc_ok e t g p s n (unat old) (unat sz) q g3"
      by (rule realloc_okI [OF g3(2-4) q disjI2 [OF a(4)] adds_drops_swaps [OF a(5) g3(5) b ne] us _ bytes]) (use a(7) in \<open>simp add: room_for_def\<close>)
    then show ?thesis using r by blast
  qed
qed

section \<open>Reallocation in place\<close>

lemma swaps_same:
  assumes H: "heap_inv e g" and b: "(s, n) \<in> blocks g" and m: "h_mem g' = h_mem g" "h_segs g' = h_segs g" "g_registry g' = g_registry g"
    and l: "large_blocks g' = large_blocks g" "{r \<in> large_recs g. fst r \<noteq> s} \<subseteq> large_recs g'"
  shows "swaps g s n s n g'"
proof -
  have "unat x \<notin> span s n" if "(s'', n'') \<in> blocks g - {(s, n)}" "unat x \<in> span s'' n''" for s'' n'' x
    using blocks_apart [OF H b, of s'' n''] that by blast
  moreover have "blocks g' = insert (s, n) (blocks g - {(s, n)})" using b by (auto simp: blocks_def m l)
  ultimately show ?thesis unfolding swaps_def m using l(2) by blast
qed

lemma large_resize:
  assumes H: "heap_inv e g" and l: "h_larges g s = Some l" and sz: "unat sz \<le> unat (la_size l)"
    and g': "g' = upd_large s (\<lambda>l. l\<lparr>la_user_size := sz\<rparr>) g"
  shows "heap_inv e g'" "large_blocks g' = large_blocks g" "{r \<in> large_recs g. fst r \<noteq> s} \<subseteq> large_recs g'"
    "(s, unat (la_size l), sz) \<in> large_recs g'"
proof -
  note h = heap_invD [OF H]
  have L: "h_larges g' = (h_larges g)(s := Some (l\<lparr>la_user_size := sz\<rparr>))" using l by (simp add: g')
  have fr: "large_frame g g'" by (simp add: g' large_frame_def upd_large_def)
  have mm: "\<forall>x. mapped (h_log g) (unat x) \<longrightarrow> h_mem g' x = h_mem g x" by (simp add: g' upd_large_def)
  obtain xs where xs: "dll (large_head g) (large_nxt g) (large_prv g) (large_node g) xs" "set xs = dom (h_larges g)"
    using h(6) by (auto simp: large_ok_def)
  have "dll (large_head g') (large_nxt g') (large_prv g') (large_node g') xs"
  proof -
    have "large_head g' = large_head g" by (simp add: g' large_head_def)
    moreover have "large_nxt g' = large_nxt g" "large_prv g' = large_prv g" "large_node g' = large_node g"
      using l by (auto simp: fun_eq_iff large_list_defs L)
    ultimately show ?thesis using xs(1) by simp
  qed
  moreover have "la_base m = b \<and> b \<noteq> 0 \<and> 0 < unat (la_size m) \<and> unat b + unat (la_size m) \<le> 2 ^ 48 \<and> unat (la_user_size m) \<le> unat (la_size m)"
    if "h_larges g' b = Some m" for b m
  proof (cases "b = s")
    case True
    then show ?thesis using that large_okD [OF h(6) l] sz by (simp add: L) (use that in \<open>auto simp: L\<close>)
  next
    case False
    then show ?thesis using that large_okD [OF h(6), of b m] by (simp add: L)
  qed
  moreover have "set xs = dom (h_larges g')" using xs(2) l by (auto simp: L)
  ultimately have ok: "large_ok g'" unfolding large_ok_def by blast
  have "region e g' x = region e g x" for x using l by (cases x) (simp_all add: L, simp_all add: g' upd_large_def)
  then have "region e g' = region e g" by (rule ext)
  then have lay: "layout_ok e (h_log g') (region e g')" using h(3) by (simp add: g' upd_large_def)
  show "heap_inv e g'" by (rule large_frame_inv(1) [OF H fr mm ok lay])
  show "large_blocks g' = large_blocks g" using l unfolding large_blocks_def L by (auto split: if_splits intro: exI [of _ s])
  show "{r \<in> large_recs g. fst r \<noteq> s} \<subseteq> large_recs g'"
  proof
    fix r assume "r \<in> {r \<in> large_recs g. fst r \<noteq> s}"
    then obtain b m where r: "r = (b, unat (la_size m), la_user_size m)" "h_larges g b = Some m" "b \<noteq> s" unfolding large_recs_def by auto
    then have "h_larges g' b = Some m" by (simp add: L)
    then show "r \<in> large_recs g'" unfolding r(1) large_recs_def by blast
  qed
  show "(s, unat (la_size l), sz) \<in> large_recs g'" by (auto simp: large_recs_def L intro: exI [of _ "l\<lparr>la_user_size := sz\<rparr>"])
qed

lemma large_find_held:
  assumes H: "heap_inv e g" "unlocked g" and u: "(s, n, w) \<in> large_recs g" and p: "unat p \<in> span s n"
  obtains l where "h_larges g s = Some l" "n = unat (la_size l)" "w = la_user_size l" "large_find p g = Inr (s, g)" "s \<noteq> 0" "la_base l = s"
proof -
  note h = heap_invD [OF H(1)]
  obtain l where l: "h_larges g s = Some l" "n = unat (la_size l)" "w = la_user_size l" using u by (auto simp: large_recs_def)
  have r: "unat p \<in> region e g (Large s)" using p l by simp
  obtain la where la: "large_find p g = Inr (la, g)" "if la = 0 then \<forall>b. unat p \<notin> region e g (Large b)
     else unat p \<in> region e g (Large la) \<and> (\<exists>l. h_larges g la = Some l)"
    using large_find_ok [OF h(6), of p e] H(2) unfolding unlocked_def by blast
  then have "la = s" using r layout_disjoint [OF h(3), of "Large la" "Large s"] by (auto split: if_splits simp del: region.simps)
  then show ?thesis using that l la(1) large_okD(1,2) [OF h(6) l(1)] by blast
qed

text \<open>Every call on a held pointer: moved, resized in place, or refused with nothing changed.\<close>

lemma my_realloc_ok:
  assumes e: "env_ok e" and H: "heap_inv e g" "unlocked g" and i: "ids_ok t g" and nx: "next_ok t g"
    and U: "usable g p s n u" and f: "findable g p" and sz: "sz \<noteq> 0" "unat sz + 262176 \<le> 2 ^ 64"
  shows "\<exists>q g'. my_realloc e t p sz g = Inr (q, g') \<and> realloc_ok e t g p s n u (unat sz) q g'"
proof -
  note P = usable_ptr [OF H(1) U] and b = usableD(2) [OF U]
  have ini: "malloc_ensure_init g = Inr g" using base_okD(1) [OF heap_invD(1) [OF H(1)]] by (simp add: malloc_ensure_init_def)
  note eq = my_realloc_def [of e t p sz g, unfolded if_not_P [OF P(2)] if_not_P [OF sz(1)] ini bindR_simps if_not_P [OF P(3) [OF e]]]
  from U consider (slab) "p = s" "(s, n) \<in> slabs g" "u = n"
    | (large) w where "(s, n, w) \<in> large_recs g" "u = unat w" "unat p + u \<le> unat s + n" by (auto simp: usable_def)
  then show ?thesis
  proof cases
    case slab
    obtain pp pg where pg: "get_page g pp = Some pg" "n = unat (pm_slot_size pg)" "p AND SEGMENT_MASK = fst pp"
        "h_segs g (fst pp) \<noteq> None" "fst pp \<noteq> 0" "unat p \<in> page_span pp" using usable_slab [OF H(1)] slab(1,2) by metis
    have r: "fst pp \<in> reg_set (g_registry g)" using f pg(3,4) by (simp add: findable_def)
    define old :: u64 where "old = ucast (pm_slot_size pg)"
    have old: "unat old = u" using slab(3) pg(2) by (simp add: old_def unat_ucast_up)
    have eq2: "my_realloc e t p sz g = (if sz \<le> old \<and> size_to_bin g sz = pm_bin_idx pg then Inr (p, g) else realloc_move e t p old sz g)"
      unfolding eq using ptr_to_page_at [OF H(1) pg(1,6)] r pg(1,5) by (simp add: deref_page_ok old_def Let_def)
    have "realloc_ok e t g p s n u (unat sz) p g" if c: "sz \<le> old"
      using c old by (intro realloc_okI [OF H i P(2) _ swaps_same [OF H(1) b] U]) (auto simp: word_le_nat_alt)
    then show ?thesis using eq2 realloc_move_ok [OF e H i nx, of p s n old sz] U f sz(2) old by auto
  next
    case large
    obtain l where l: "h_larges g s = Some l" "n = unat (la_size l)" "w = la_user_size l" "large_find p g = Inr (s, g)" "s \<noteq> 0" "la_base l = s"
      using large_find_held [OF H large(1) P(1)] by blast
    have z: "ptr_to_segment g p = 0" by (rule ptr_to_segment_large [OF H(1), of p "Large s"]) (use P(1) l in simp_all)
    define g' where "g' = upd_large s (\<lambda>l. l\<lparr>la_user_size := sz\<rparr>) g"
    have eq2: "my_realloc e t p sz g = (if sz \<le> la_size l - (p - s) then Inr (p, g') else realloc_move e t p w sz g)"
      unfolding eq using z l by (simp add: realloc_large_def deref_large_def write_large_def g'_def)
    have "realloc_ok e t g p s n u (unat sz) p g'" if c: "sz \<le> la_size l - (p - s)"
    proof -
      have "unat (la_size l - (p - s)) = unat s + n - unat p"
        using P(1) l(2) by (auto simp: unat_sub_if' word_le_nat_alt)
      then have fit: "unat p + unat sz \<le> unat s + n" "unat sz \<le> unat (la_size l)"
        using c P(1) l(2) by (auto simp: word_le_nat_alt)
      note R = large_resize [OF H(1) l(1) fit(2) g'_def]
      have m: "h_mem g' = h_mem g" "h_segs g' = h_segs g" "g_registry g' = g_registry g" "unlocked g'" "ids_ok t g'"
        using H(2) i by (simp_all add: g'_def upd_large_def unlocked_def ids_ok_def)
      have "usable g' p s n (unat sz)" using R(4) P(1) fit(1) l(2) by (auto simp: usable_def)
      from realloc_okI [OF R(1) m(4,5) P(2) _ swaps_same [OF H(1) b m(1-3) R(2,3)] this] show ?thesis using m(1) by simp
    qed
    then show ?thesis using eq2 realloc_move_ok [OF e H i nx, of p s n w sz] U f sz(2) large(2) by auto
  qed
qed

lemma my_malloc_usable_size_ok:
  assumes H: "heap_inv e g" "unlocked g" and U: "usable g p s n u" and f: "findable g p"
  shows "my_malloc_usable_size p g = Inr (of_nat u, g)"
proof -
  note P = usable_ptr [OF H(1) U]
  from U consider (slab) "p = s" "(s, n) \<in> slabs g" "u = n"
    | (large) w where "(s, n, w) \<in> large_recs g" "u = unat w" by (auto simp: usable_def)
  then show ?thesis
  proof cases
    case slab
    obtain pp pg where pg: "get_page g pp = Some pg" "n = unat (pm_slot_size pg)" "p AND SEGMENT_MASK = fst pp"
        "h_segs g (fst pp) \<noteq> None" "fst pp \<noteq> 0" "unat p \<in> page_span pp" using usable_slab [OF H(1)] slab(1,2) by metis
    have r: "fst pp \<in> reg_set (g_registry g)" using f pg(3,4) by (simp add: findable_def)
    then show ?thesis using ptr_to_page_at [OF H(1) pg(1,6)] pg(1,2,5) slab(3) P(2) by (simp add: my_malloc_usable_size_def deref_page_ok)
  next
    case large
    obtain l where l: "h_larges g s = Some l" "n = unat (la_size l)" "w = la_user_size l" "large_find p g = Inr (s, g)" "s \<noteq> 0"
      using large_find_held [OF H large(1) P(1)] by blast
    have z: "ptr_to_segment g p = 0" by (rule ptr_to_segment_large [OF H(1), of p "Large s"]) (use P(1) l in simp_all)
    then show ?thesis using l large(2) P(2) by (simp add: my_malloc_usable_size_def large_usable_size_def deref_large_def)
  qed
qed

end
