(* ===== verification/Demo_Heap.thy ===== *)
theory Demo_Heap
  imports Realloc_Correct
begin

unbundle bit_operations_syntax

text \<open>
  Two concrete heaps on the kernel of \<open>demo_env\<close>: the first call of a process, once for a slot of a page and once
  for a large block. They show that the hypotheses of the theorems about calls can be met.
\<close>

lemma zero_ok [simp]: "heap_ok e zero_gstate" "ids_ok t zero_gstate" "next_ok t zero_gstate"
  using pristine_zero by (simp_all add: heap_ok_def ids_ok_def next_ok_def) (simp_all add: zero_gstate_def config_simps)

lemma demo_small_run:
  "(case my_malloc (demo_env False) 0 100 zero_gstate of Inl _ \<Rightarrow> False
    | Inr (p, g) \<Rightarrow> p \<noteq> 0 \<and> segment_is_registered (g_registry g) (p AND SEGMENT_MASK) \<and> g_arena_next g = 1)"
  by code_simp

lemma demo_large_run:
  "(case my_malloc (demo_env False) 0 200000 zero_gstate of Inl _ \<Rightarrow> False
    | Inr (p, g) \<Rightarrow> p \<noteq> 0 \<and> g_arena_next g = 0)"
  by code_simp

lemma demo_after:
  assumes "my_malloc (demo_env False) 0 sz zero_gstate = Inr (p, g)" "p \<noteq> 0" "unat sz + 262176 \<le> 2 ^ 64" "unat (g_arena_next g) < 2 ^ 31"
  obtains s n u where "heap_inv (demo_env False) g" "unlocked g" "ids_ok 0 g" "next_ok 0 g" "usable g p s n u" "room_for sz \<le> u"
proof -
  obtain q g' where "my_malloc (demo_env False) 0 sz zero_gstate = Inr (q, g')" "alloc_ok (demo_env False) 0 zero_gstate (room_for sz) q g'"
    using my_malloc_ok [OF demo_env_ok, of False zero_gstate 0 sz] assms(3) by auto
  then have "alloc_ok (demo_env False) 0 zero_gstate (room_for sz) p g" using assms(1) by simp
  then show ?thesis using that assms(2,4) by (auto simp: alloc_ok_def next_ok_def)
qed

lemma demo_small:
  obtains p g s n u where "my_malloc (demo_env False) 0 100 zero_gstate = Inr (p, g)" "heap_inv (demo_env False) g" "unlocked g"
    "ids_ok 0 g" "next_ok 0 g" "usable g p s n u" "100 \<le> u" "findable g p" "p \<noteq> 0"
proof -
  obtain p g where r: "my_malloc (demo_env False) 0 100 zero_gstate = Inr (p, g)" "p \<noteq> 0"
      "segment_is_registered (g_registry g) (p AND SEGMENT_MASK)" "g_arena_next g = 1"
    using demo_small_run by (auto split: sum.splits)
  obtain s n u where a: "heap_inv (demo_env False) g" "unlocked g" "ids_ok 0 g" "next_ok 0 g" "usable g p s n u" "room_for 100 \<le> u"
    using demo_after [OF r(1,2)] r(4) by auto
  have ok: "reg_ok (g_registry g)" "finite (dom (h_segs g))" "reg_set (g_registry g) \<subseteq> dom (h_segs g)"
    using heap_invD(2) [OF a(1)] by (auto simp: registry_ok_def)
  have "findable g p"
  proof (cases "h_segs g (p AND SEGMENT_MASK)")
    case (Some sg)
    then have "p AND SEGMENT_MASK \<noteq> 0" using segs_ok_hdr [OF heap_invD(4) [OF a(1)] Some] by (simp add: seg_hdr_ok_def)
    then show ?thesis using isin_iff [OF ok(1)] r(3) by (simp add: findable_def)
  qed (simp add: findable_def)
  then show ?thesis using that r a by (auto simp: room_for_def)
qed

lemma demo_large:
  obtains p g s n u where "my_malloc (demo_env False) 0 200000 zero_gstate = Inr (p, g)" "heap_inv (demo_env False) g" "unlocked g"
    "ids_ok 0 g" "next_ok 0 g" "usable g p s n u" "200000 \<le> u" "findable g p" "p \<noteq> 0"
proof -
  obtain p g where r: "my_malloc (demo_env False) 0 200000 zero_gstate = Inr (p, g)" "p \<noteq> 0" "g_arena_next g = 0"
    using demo_large_run by (auto split: sum.splits)
  obtain s n u where a: "heap_inv (demo_env False) g" "unlocked g" "ids_ok 0 g" "next_ok 0 g" "usable g p s n u" "room_for 200000 \<le> u"
    using demo_after [OF r(1,2)] r(3) by auto
  have "(s, n) \<in> large_blocks g"
  proof (rule ccontr)
    assume "(s, n) \<notin> large_blocks g"
    then have "(p, n) \<in> slabs g" "u = n" using a(5) by (auto simp: usable_def large_blocks_recs)
    then obtain pp pg where "n = unat (pm_slot_size pg)" "active (h_segs g) pp pg" using usable_slab [OF a(1)] by metis
    then show False using page_geomD(2) [OF page_invD(6) [OF activeD(3) [OF heap_invD(4) [OF a(1)]]]] a(6) \<open>u = n\<close> by (fastforce simp: room_for_def)
  qed
  then have "findable g p" using large_not_segment [OF a(1) _ usable_ptr(1) [OF a(1,5)]] by (simp add: findable_def)
  then show ?thesis using that r a by (auto simp: room_for_def)
qed

end
