(* ===== verification/Memalign_Correct.thy ===== *)
theory Memalign_Correct
  imports Realloc_Correct
begin

unbundle bit_operations_syntax

text \<open>
  Aligned allocation (\<open>my_memalign\<close>, \<open>my_posix_memalign\<close>, \<open>my_valloc\<close>): what the calls guarantee, and the
  requests for which they do not give an aligned or usable block.
\<close>

section \<open>Aligned allocation\<close>

lemma alloc_ok_le: "alloc_ok e t g sz p g' \<Longrightarrow> sz' \<le> sz \<Longrightarrow> alloc_ok e t g sz' p g'"
  unfolding alloc_ok_def using order_trans by blast

lemma alloc_ok_16: "alloc_ok e t g sz p g' \<Longrightarrow> unat p mod 16 = 0"
  by (auto simp: alloc_ok_def)

lemma pow2_dvd:
  assumes "is_pow2 al" "unat al \<le> 2 ^ k" "unat p mod 2 ^ k = 0"
  shows "unat p mod unat al = 0"
proof -
  obtain j where j: "j < 64" "al = 2 ^ j" using is_pow2D [OF assms(1)] by blast
  then have a: "unat al = 2 ^ j" by (simp add: unat_pow2)
  then have "(2 :: nat) ^ j dvd 2 ^ k" using assms(2) by (simp add: le_imp_power_dvd)
  moreover have "2 ^ k dvd unat p" using assms(3) by (rule mod_0_imp_dvd)
  ultimately have "2 ^ j dvd unat p" by (rule dvd_trans)
  then show ?thesis using a by simp
qed

text \<open>The rounding of the request in the slab case only makes it larger.\<close>

lemma memalign_size:
  assumes "is_pow2 al" "unat al \<le> 65536" "unat sz \<le> 131072"
  defines "a \<equiv> align_up (if sz < al then al else sz) al"
  shows "unat sz \<le> unat a" "unat al \<le> unat a"
proof -
  obtain j where j: "j < 64" "al = 2 ^ j" using is_pow2D [OF assms(1)] by blast
  define x where "x = (if sz < al then al else sz)"
  have x: "unat sz \<le> unat x" "unat al \<le> unat x" "unat x \<le> 131072" using assms(2,3) by (auto simp: x_def word_less_nat_alt)
  have "unat x \<le> unat (align_up x (2 ^ j))"
    using align_up_bounds(1) [OF j(1), of x] x(3) assms(2) j by (simp add: unat_pow2)
  then show "unat sz \<le> unat a" "unat al \<le> unat a" unfolding a_def x_def [symmetric] using x j(2) by simp_all
qed

text \<open>
  A valid request is served by a fresh block that is large enough. Its address has the alignment asked for when
  the large path serves it or the alignment is that of every block.
\<close>

definition aligned_request :: "u64 \<Rightarrow> u64 \<Rightarrow> bool" where
  "aligned_request al sz \<longleftrightarrow> al \<le> of_nat MIN_ALIGN \<or> sz > MEDIUM_MAX \<or> al > PAGE_SIZE_ALLOC"

lemma my_memalign_ok:
  assumes e: "env_ok e" and H: "heap_ok e g" and i: "ids_ok t g" and n: "next_ok t g" and al: "is_pow2 al"
    and sz: "unat sz + 2 * unat al + 262176 \<le> 2 ^ 64" "0 < unat sz \<or> al \<le> PAGE_SIZE_ALLOC"
  shows "\<exists>p g'. my_memalign e t al sz g = Inr (p, g') \<and> alloc_ok e t g (unat sz) p g' \<and> (aligned_request al sz \<longrightarrow> unat p mod unat al = 0)"
proof -
  obtain g1 where g1: "malloc_ensure_init g = Inr g1" "heap_inv e g1" "unlocked g1" "ids_ok t g1" "next_ok t g1" "quiet g g1"
    using ensure_init_ok [OF H i n] by blast
  have ok1: "heap_ok e g1" using g1(2,3) by (simp add: heap_ok_def)
  define a where "a = align_up (if sz < al then al else sz) al"
  have v: "\<not> (al = 0 \<or> al AND (al - 1) \<noteq> 0)" using al by (simp add: is_pow2_def)
  have eq: "my_memalign e t al sz g = (if al \<le> of_nat MIN_ALIGN then my_malloc e t sz g1
      else if sz > MEDIUM_MAX \<or> al > PAGE_SIZE_ALLOC \<or> a > MEDIUM_MAX then large_alloc_aligned e sz al g1 else slab_alloc e t a g1)"
    unfolding my_memalign_def g1(1) bindR_simps if_not_P [OF v] by (simp add: Let_def a_def)
  have "\<exists>p g'. my_memalign e t al sz g = Inr (p, g') \<and> alloc_ok e t g1 (unat sz) p g' \<and> (aligned_request al sz \<longrightarrow> unat p mod unat al = 0)"
  proof (cases "al \<le> of_nat MIN_ALIGN")
    case True
    have s: "unat sz + 262176 \<le> 2 ^ 64" using sz(1) by simp
    obtain p g' where p: "my_malloc e t sz g1 = Inr (p, g')" "alloc_ok e t g1 (room_for sz) p g'" using my_malloc_ok [OF e ok1 g1(4,5) s] by blast
    have "unat al \<le> 2 ^ 4" using True by (simp add: config_simps word_le_nat_alt)
    then show ?thesis using eq True p pow2_dvd [OF al, of 4 p] alloc_ok_16 [OF p(2)] alloc_ok_le [OF p(2), of "unat sz"]
      by (simp add: room_for_def)
  next
    case small: False
    show ?thesis
    proof (cases "sz > MEDIUM_MAX \<or> al > PAGE_SIZE_ALLOC \<or> a > MEDIUM_MAX")
      case True
      have "0 < unat sz"
      proof (rule ccontr)
        assume z: "\<not> 0 < unat sz"
        then have s0: "sz = 0" and "al \<le> PAGE_SIZE_ALLOC" using sz(2) by (simp_all add: word_unat_eq_iff)
        moreover obtain j where j: "j < 64" "al = 2 ^ j" using is_pow2D [OF al] by blast
        moreover have "a = al"
        proof -
          have "unat al \<le> 2 ^ j" "j \<le> 16"
            using j \<open>al \<le> PAGE_SIZE_ALLOC\<close> power_increasing_iff [of "2 :: nat" j 16] by (simp_all add: unat_pow2 config_simps word_le_nat_alt)
          moreover have "0 < unat al" using j by (simp add: unat_pow2)
          ultimately show ?thesis using align_up_small [of al j] s0 v j(2) by (simp add: a_def word_less_nat_alt)
        qed
        ultimately show False using True by (auto simp: config_simps word_less_nat_alt word_le_nat_alt)
      qed
      from large_alloc_aligned_alloc_ok [OF e g1(2-4) al this] sz(1) show ?thesis using eq small True by auto
    next
      case False
      have b: "unat al \<le> 65536" "unat sz \<le> 131072" "unat a \<le> 131072"
        using False by (auto simp: config_simps word_less_nat_alt not_less)
      note m = memalign_size [OF al b(1,2), folded a_def]
      obtain p z g' where p: "slab_alloc_inner e t a False g1 = Inr (p, z, g')" "alloc_ok e t g1 (room_for a) p g'"
        using slab_alloc_inner_ok [OF e g1(2-5), of a False] b(3) by auto
      have "\<not> aligned_request al sz" using small False m(2) b(3) by (auto simp: aligned_request_def config_simps word_less_nat_alt)
      then show ?thesis using eq small False p alloc_ok_le [OF p(2), of "unat sz"] m(1) by (auto simp: slab_alloc_def room_for_def)
    qed
  qed
  then obtain p g' where r: "my_memalign e t al sz g = Inr (p, g')" "alloc_ok e t g1 (unat sz) p g'" "aligned_request al sz \<longrightarrow> unat p mod unat al = 0"
    by (elim exE conjE) (rule that)
  then show ?thesis using quiet_alloc_ok [OF g1(6) r(2)] by (intro exI [of _ p] exI [of _ g'] conjI)
qed

end
