(* ===== verification/Thread_Exit.thy ===== *)
theory Thread_Exit
  imports Arena_Correct
begin

text \<open>
  The exit of a thread (\<open>tld_cleanup\<close>): its record is unmapped and its counters go to its arena; the blocks it
  allocated stay, and so does its name on the pages it owned.
\<close>

section \<open>Dropping the record of a thread\<close>

lemma drop_tld_inv:
  assumes H: "heap_inv e g" and d: "t_tld g t = Some d" and g': "g' = os_munmap (tl_self d) (page_size e) (g\<lparr>t_tld := (t_tld g)(t := None)\<rparr>)"
    and pos: "0 < unat (page_size e)"
  shows "heap_inv e g' \<and> quiet g g'"
proof -
  note h = heap_invD [OF H] and D = tld_okD [OF heap_invD(7) [OF H d]]
  have nz: "tl_self d \<noteq> 0" "page_size e > 0" using D(1) pos by (simp_all add: word_less_nat_alt)
  have fld: "h_segs g' = h_segs g" "g_arenas g' = g_arenas g" "g_registry g' = g_registry g" "h_larges g' = h_larges g"
    "g_large_list g' = g_large_list g" "t_tld g' = (t_tld g)(t := None)" "t_thread_id_counter g' = t_thread_id_counter g"
    "h_mem g' = h_mem g" "g_initialized g' = g_initialized g" "g_bin_size g' = g_bin_size g"
    "g_size_to_bin_small g' = g_size_to_bin_small g" "g_arena_count g' = g_arena_count g"
    by (simp_all add: g' os_munmap_def sys_munmap_def Let_def)
  have reg: "region e g' = (region e g)(Tld t := {})"
    by (rule ext, rename_tac x, case_tac x) (auto simp: fld)
  have "layout_ok e (h_log g') (region e g')"
    unfolding reg unfolding g' by (rule layout_remove [OF _ _ nz]) (use h(3) d in simp_all)
  moreover have "base_ok g'" using h(1) by (simp add: base_ok_def tables_ok_def fld)
  moreover have "arena_ok g' a = arena_ok g a" for a
    by (simp add: arena_ok_def bin_head_def bin_nxt_def [abs_def] bin_prv_def [abs_def] bin_node_def [abs_def] fld)
  moreover have "large_ok g'" using large_ok_cong [of g' g] h(6) fld by simp
  moreover have "tld_ok g' d'" if "t_tld g' t' = Some d'" for t' d'
    using that h(7) by (auto simp: fld tld_ok_def split: if_splits)
  moreover have "owners_ok g'" using h(8) unfolding owners_ok_def fld by (simp split: if_splits)
  ultimately have "heap_inv e g'" using h(2,4,5) by (simp add: heap_inv_def fld)
  moreover have "quiet g g'" by (simp add: quiet_def large_recs_def keeps_def fld)
  ultimately show ?thesis by blast
qed

lemma unlocked_upd_arena:
  assumes "heap_inv e g" "unlocked g" "\<And>ar. ar_lock (f ar) = ar_lock ar"
  shows "unlocked (upd_arena a f g)"
proof -
  have "ar_lock (g_arenas (upd_arena a f g) ! i) = ar_lock (g_arenas g ! i)" if "i < 64" for i
    using that assms(3) base_okD(4) [OF heap_invD(1) [OF assms(1)]] by (cases "i = a") (simp_all add: upd_arena_def)
  then show ?thesis using assms(2) by (simp add: unlocked_def)
qed

text \<open>The record of a thread is a mapping of its own, never part of the bootstrap buffer.\<close>

lemma tld_not_bootstrap:
  assumes e: "env_ok e" and H: "heap_inv e g" and d: "t_tld g t = Some d"
  shows "\<not> (tl_self d \<ge> bootstrap_buf e \<and> tl_self d < bootstrap_buf e + BOOTSTRAP_BUF_SIZE)" "0 < unat (page_size e)"
proof -
  obtain k where k: "12 \<le> k" "k \<le> 16" "page_size e = 2 ^ k" using env_ok_page [OF e] by blast
  then show pos: "0 < unat (page_size e)" by (simp add: unat_pow2)
  have "unat (tl_self d) \<notin> span (bootstrap_buf e) 65536"
    using layout_bootstrap [OF heap_invD(3) [OF H], of "unat (tl_self d)" "Tld t"] d pos by auto
  moreover have "unat (bootstrap_buf e + 65536) = unat (bootstrap_buf e) + 65536"
    using e by (subst unat_add_small) (auto simp: env_ok_def)
  ultimately show "\<not> (tl_self d \<ge> bootstrap_buf e \<and> tl_self d < bootstrap_buf e + BOOTSTRAP_BUF_SIZE)"
    by (auto simp: config_simps word_le_nat_alt word_less_nat_alt)
qed

lemma tld_cleanup_ok:
  assumes e: "env_ok e" and H: "heap_inv e g" and u: "unlocked g"
  shows "heap_inv e (tld_cleanup e t g) \<and> unlocked (tld_cleanup e t g) \<and> quiet g (tld_cleanup e t g) \<and> t_tld (tld_cleanup e t g) t = None"
proof (cases "t_tld g t")
  case None
  then show ?thesis using H u by (simp add: tld_cleanup_def)
next
  case (Some d)
  define g1 where "g1 = (case tl_arena d of None \<Rightarrow> g
                   | Some a \<Rightarrow> upd_arena a (\<lambda>ar. ar\<lparr>
                       ar_allocated := ar_allocated ar + (if tl_stat_allocated d \<noteq> 0 then tl_stat_allocated d else 0),
                       ar_freed := ar_freed ar + (if tl_stat_freed d \<noteq> 0 then tl_stat_freed d else 0),
                       ar_alloc_count := ar_alloc_count ar + (if tl_stat_alloc_count d \<noteq> 0 then tl_stat_alloc_count d else 0),
                       ar_free_count := ar_free_count ar + (if tl_stat_free_count d \<noteq> 0 then tl_stat_free_count d else 0),
                       ar_thread_count := ar_thread_count ar - 1\<rparr>) g)"
  have "calm g g1" by (cases "tl_arena d") (auto simp: g1_def arena_view_def intro: calm_arena_upd)
  then have I: "heap_inv e g1" "quiet g g1" using calm_step [OF H] by auto
  have d1: "t_tld g1 t = Some d" using Some by (cases "tl_arena d") (auto simp: g1_def upd_arena_def)
  have u1: "unlocked g1"
  proof (cases "tl_arena d")
    case (Some a)
    show ?thesis unfolding g1_def Some option.case by (rule unlocked_upd_arena [OF H u]) simp
  qed (use u in \<open>simp add: g1_def\<close>)
  note b = tld_not_bootstrap [OF e I(1) d1]
  define g2 where "g2 = os_munmap (tl_self d) (page_size e) (g1\<lparr>t_tld := (t_tld g1)(t := None)\<rparr>)"
  have "tld_cleanup e t g = g2" using Some b(1) by (auto simp: tld_cleanup_def g2_def g1_def [symmetric] Let_def os_page_size_def)
  moreover have "unlocked g2" "t_tld g2 t = None" using u1 by (simp_all add: g2_def unlocked_def os_munmap_def sys_munmap_def Let_def)
  moreover note drop_tld_inv [OF I(1) d1 g2_def b(2)]
  ultimately show ?thesis using quiet_trans [OF I(2)] by simp
qed

end
