(* ===== verification/Client_Runs.thy ===== *)
theory Client_Runs
  imports Demo_Heap Memalign_Correct Thread_Exit
begin

unbundle bit_operations_syntax

text \<open>
  What a program that uses the allocator can do, as a step relation: calls of any thread in any order, stores inside the
  blocks it holds, and exits of threads. Every state it can reach keeps the invariant, and no legal call fails in it.
\<close>

section \<open>Steps of a client\<close>

text \<open>
  The side conditions are the ones of the calls: sizes that do not wrap around, fewer than \<open>2 ^ 32 - 1\<close> thread
  identifiers and \<open>2 ^ 31\<close> arena choices, and pointers that the client holds.
\<close>

inductive client_step :: "env \<Rightarrow> gstate \<Rightarrow> gstate \<Rightarrow> bool" for e :: env where
  call_malloc: "ids_ok t g \<Longrightarrow> next_ok t g \<Longrightarrow> unat sz + 262176 \<le> 2 ^ 64 \<Longrightarrow>
    my_malloc e t sz g = Inr (p, g') \<Longrightarrow> client_step e g g'"
| call_calloc: "ids_ok t g \<Longrightarrow> next_ok t g \<Longrightarrow> unat count * unat sz + 262176 \<le> 2 ^ 64 \<or> 2 ^ 64 \<le> unat count * unat sz \<Longrightarrow>
    my_calloc e t count sz g = Inr (p, g') \<Longrightarrow> client_step e g g'"
| call_memalign: "ids_ok t g \<Longrightarrow> next_ok t g \<Longrightarrow>
    is_pow2 al \<longrightarrow> unat sz + 2 * unat al + 262176 \<le> 2 ^ 64 \<and> (0 < unat sz \<or> al \<le> PAGE_SIZE_ALLOC) \<Longrightarrow>
    my_memalign e t al sz g = Inr (p, g') \<Longrightarrow> client_step e g g'"
| call_realloc: "ids_ok t g \<Longrightarrow> next_ok t g \<Longrightarrow> unat sz + 262176 \<le> 2 ^ 64 \<Longrightarrow>
    p = 0 \<or> usable g p s n u \<and> findable g p \<Longrightarrow> my_realloc e t p sz g = Inr (q, g') \<Longrightarrow> client_step e g g'"
| call_free: "ids_ok t g \<Longrightarrow> p = 0 \<or> usable g p s n u \<and> findable g p \<Longrightarrow> my_free e t p g = Inr g' \<Longrightarrow> client_step e g g'"
| store: "usable g p s n u \<Longrightarrow> \<forall>x. unat x \<notin> span p u \<longrightarrow> m x = h_mem g x \<Longrightarrow> client_step e g (g\<lparr>h_mem := m\<rparr>)"
| thread_exit: "client_step e g (tld_cleanup e t g)"

inductive reachable :: "env \<Rightarrow> gstate \<Rightarrow> bool" for e :: env where
  start: "reachable e zero_gstate"
| step: "reachable e g \<Longrightarrow> client_step e g g' \<Longrightarrow> reachable e g'"

section \<open>Every step keeps the heap in order\<close>

lemma heap_ok_not_pristine: "heap_ok e g \<Longrightarrow> usable g p s n u \<Longrightarrow> heap_inv e g \<and> unlocked g"
  using pristine_blocks usableD(2) by (fastforce simp: heap_ok_def)

lemma alloc_ok_heap: "alloc_ok e t g sz p g' \<Longrightarrow> heap_ok e g'"
  by (simp add: alloc_ok_def heap_ok_def)

lemma alloc_okD:
  assumes "alloc_ok e t g sz p g'"
  shows "heap_inv e g' \<and> unlocked g' \<and>
    (p = 0 \<and> blocks g' = blocks g \<or>
     p \<noteq> 0 \<and> unat p mod 16 = 0 \<and>
       (\<exists>s n u. blocks g' = insert (s, n) (blocks g) \<and> (\<forall>s' n'. (s', n') \<in> blocks g \<longrightarrow> span s n \<inter> span s' n' = {}) \<and>
          usable g' p s n u \<and> sz \<le> u)) \<and>
    (\<forall>s n x. (s, n) \<in> blocks g \<longrightarrow> unat x \<in> span s n \<longrightarrow> h_mem g' x = h_mem g x)"
proof (cases "p = 0")
  case True
  then have a: "heap_inv e g'" "unlocked g'" "quiet g g'" using assms by (simp_all add: alloc_ok_def)
  have k: "\<forall>s n x. (s, n) \<in> blocks g \<longrightarrow> unat x \<in> span s n \<longrightarrow> h_mem g' x = h_mem g x" using a(3) by (simp add: quiet_def keeps_def del: span_iff)
  show ?thesis by (intro conjI disjI1) (rule a True quiet_blocks [OF a(3)] k)+
next
  case False
  then obtain s n u where a: "heap_inv e g'" "unlocked g'" "unat p mod 16 = 0" "adds g s n g'" "usable g' p s n u" "sz \<le> u"
    using assms by (auto simp: alloc_ok_def)
  have d: "blocks g' = insert (s, n) (blocks g)" "\<forall>s' n'. (s', n') \<in> blocks g \<longrightarrow> span s n \<inter> span s' n' = {}"
    "\<forall>s n x. (s, n) \<in> blocks g \<longrightarrow> unat x \<in> span s n \<longrightarrow> h_mem g' x = h_mem g x"
    using a(4) by (simp_all add: adds_def keeps_def del: span_iff)
  show ?thesis
    by (intro conjI disjI2 exI [of _ s] exI [of _ n] exI [of _ u]) (rule a False d)+
qed

lemma set_errno_calm: "calm g (set_errno t n g)"
  by (simp add: calm_def set_errno_def)

lemma set_errno_ok:
  assumes "heap_ok e g"
  shows "heap_ok e (set_errno t n g)"
proof (cases "pristine g")
  case True
  then show ?thesis by (simp add: heap_ok_def pristine_def set_errno_def)
next
  case False
  then show ?thesis using assms heap_inv_calm [OF set_errno_calm] by (auto simp: heap_ok_def unlocked_def set_errno_def)
qed

lemma my_calloc_overflow:
  assumes "2 ^ 64 \<le> unat count * unat sz"
  shows "my_calloc e t count sz g = Inr (0, set_errno t ENOMEM g)"
proof -
  have "uint count * uint sz = int (unat count * unat sz)" by simp
  then have "uint count * uint sz \<ge> 2 ^ 64" using assms by (metis of_nat_le_iff of_nat_numeral of_nat_power)
  then show ?thesis by (simp add: my_calloc_def)
qed

lemma my_memalign_invalid:
  assumes "\<not> is_pow2 al" "heap_ok e g" "ids_ok t g" "next_ok t g"
  shows "\<exists>g'. my_memalign e t al sz g = Inr (0, set_errno t EINVAL g') \<and> heap_ok e g' \<and> quiet g g'"
proof -
  obtain g' where g': "malloc_ensure_init g = Inr g'" "heap_inv e g'" "unlocked g'" "quiet g g'"
    using ensure_init_ok [OF assms(2-4)] by blast
  have "al = 0 \<or> al AND (al - 1) \<noteq> 0" using assms(1) by (auto simp: is_pow2_def)
  then show ?thesis unfolding my_memalign_def g'(1) bindR_simps using g'(2-4) by (auto simp: heap_ok_def)
qed

lemma my_realloc_zero:
  assumes "env_ok e" "heap_inv e g" "unlocked g" "ids_ok t g" "usable g p s n u" "findable g p"
  shows "\<exists>g'. my_realloc e t p 0 g = Inr (0, g') \<and> heap_inv e g' \<and> unlocked g' \<and> drops g s n g'"
  using my_free_ok [OF assms(1-4) usableD(1) [OF assms(5)] assms(6)] usable_ptr(2) [OF assms(2,5)]
  by (auto simp: my_realloc_def)

lemma client_step_ok:
  assumes e: "env_ok e" and S: "client_step e g g'" and H: "heap_ok e g"
  shows "heap_ok e g'"
  using S
proof cases
  case (call_malloc t sz p)
  then show ?thesis using my_malloc_ok [OF e H, of t sz] alloc_ok_heap by auto
next
  case (call_calloc t count sz p)
  show ?thesis
  proof (cases "2 ^ 64 \<le> unat count * unat sz")
    case True
    then show ?thesis using call_calloc my_calloc_overflow [OF True] set_errno_ok [OF H] by auto
  next
    case False
    then show ?thesis using call_calloc my_calloc_ok [OF e H, of t count sz] alloc_ok_heap by auto
  qed
next
  case (call_memalign t al sz p)
  show ?thesis
  proof (cases "is_pow2 al")
    case True
    then show ?thesis using call_memalign my_memalign_ok [OF e H, of t al sz] alloc_ok_heap by auto
  next
    case False
    then show ?thesis using call_memalign my_memalign_invalid [OF False H, of t sz] set_errno_ok by auto
  qed
next
  case (call_realloc t sz p s n u q)
  show ?thesis
  proof (cases "p = 0")
    case True
    then show ?thesis using call_realloc my_malloc_ok [OF e H, of t sz] alloc_ok_heap by (auto simp: my_realloc_def)
  next
    case False
    then have u: "usable g p s n u" "findable g p" using call_realloc by auto
    note I = heap_ok_not_pristine [OF H u(1)]
    show ?thesis
    proof (cases "sz = 0")
      case True
      then show ?thesis using call_realloc(1,5) my_realloc_zero [OF e _ _ _ u, of t] I by (auto simp: heap_ok_def)
    next
      case s: False
      obtain q' g1 where "my_realloc e t p sz g = Inr (q', g1)" "realloc_ok e t g p s n u (unat sz) q' g1"
        using my_realloc_ok [OF e _ _ _ _ u s] call_realloc I by blast
      then show ?thesis using call_realloc by (simp add: realloc_ok_def heap_ok_def)
    qed
  qed
next
  case (call_free t p s n u)
  show ?thesis
  proof (cases "p = 0")
    case True
    then show ?thesis using call_free H by (simp add: my_free_def)
  next
    case False
    then have u: "usable g p s n u" "findable g p" using call_free by auto
    then show ?thesis using call_free my_free_ok [OF e _ _ _ usableD(1) [OF u(1)] u(2), of t] heap_ok_not_pristine [OF H u(1)] by (auto simp: heap_ok_def)
  qed
next
  case (store p s n u m)
  note I = heap_ok_not_pristine [OF H store(2)] and U = usableD [OF store(2)]
  have "\<forall>x. unat x \<notin> span s n \<longrightarrow> m x = h_mem g x" using store(3) U(3,4) by auto
  then show ?thesis using client_write_inv(1) [OF _ U(2)] I store(1) by (simp add: heap_ok_def unlocked_def)
next
  case (thread_exit t)
  show ?thesis
  proof (cases "pristine g")
    case True
    then have "t_tld g t = None" by (simp add: pristine_def)
    then show ?thesis using thread_exit H by (simp add: tld_cleanup_def)
  next
    case False
    then show ?thesis using thread_exit H tld_cleanup_ok [OF e, of g t] by (simp add: heap_ok_def)
  qed
qed

lemma reachable_ok:
  assumes "env_ok e" "reachable e g"
  shows "heap_ok e g"
  using assms(2) by (induction rule: reachable.induct) (use client_step_ok [OF assms(1)] in auto)

text \<open>Blocks stay clear of the records of threads and of the metadata at the start of a segment.\<close>

lemma block_off_tld:
  assumes "heap_inv e g" "(s, n) \<in> blocks g"
  shows "span s n \<inter> region e g (Tld t) = {}"
proof -
  note h = heap_invD [OF assms(1)]
  have "\<exists>x. x \<noteq> Tld t \<and> span s n \<subseteq> region e g x"
    using slab_block_region [OF assms(1)] large_block_region [of s n g e] assms(2) unfolding blocks_def by (metis Un_iff owner.distinct(3,5) subset_refl)
  then show ?thesis using layout_disjoint [OF h(3), of _ "Tld t"] by blast
qed

lemma block_off_header:
  assumes H: "heap_inv e g" and b: "(s, n) \<in> blocks g" and sg: "h_segs g c = Some sg"
  shows "span s n \<inter> span c 65536 = {}"
proof (cases "(s, n) \<in> large_blocks g")
  note h = heap_invD [OF H]
  case True
  have "region e g (Large s) \<inter> region e g (Seg c) = {}" using layout_disjoint [OF h(3), of "Large s" "Seg c"] by blast
  then show ?thesis using large_block_region [OF True, of e] sg by auto
next
  note h = heap_invD [OF H]
  case False
  then obtain pp pg where p: "active (h_segs g) pp pg" "s \<in> page_live (h_mem g) pg" "n = unat (pm_slot_size pg)"
    using b by (auto simp: blocks_def slab_blocks_def)
  note A = activeD [OF h(4) p(1)]
  note S = page_start_at [OF h(4) A(1)]
  have sub: "span s n \<subseteq> page_span pp" using slab_block_at(1) [OF h(4) p(1,2)] p(3) by simp
  have i: "1 \<le> snd pp"
  proof (rule ccontr)
    assume "\<not> 1 \<le> snd pp"
    then have "pm_state pg = PAGE_FULL" using segs_ok_wf [OF h(4) A(1)] by (simp add: page_wf_def)
    then show False using A(2) by simp
  qed
  show ?thesis
  proof (cases "fst pp = c")
    case True
    then show ?thesis using sub i by (auto simp: page_span_def)
  next
    case F: False
    have "span c 65536 \<subseteq> region e g (Seg c)" using sg by auto
    moreover have "page_span pp \<subseteq> region e g (Seg (fst pp))" using S(4,5) by (auto simp del: span_iff)
    ultimately show ?thesis using sub layout_disjoint [OF h(3), of "Seg (fst pp)" "Seg c"] F by blast
  qed
qed

end
