(* ===== verification/Client_Demo.thy ===== *)
theory Client_Demo
  imports Client_Runs
begin

text \<open>
  Reachable states of a concrete run: one thread with a block, and two threads with a block and a cached page each.
\<close>

lemma demo_reachable:
  assumes "my_malloc (demo_env False) 0 sz zero_gstate = Inr (p, g)" "unat sz + 262176 \<le> 2 ^ 64"
  shows "reachable (demo_env False) g"
  by (rule reachable.step [OF reachable.start], rule client_step.call_malloc [OF _ _ assms(2,1)]) simp_all

lemma demo_two_run:
  "(case my_malloc (demo_env False) 0 100 zero_gstate of Inl _ \<Rightarrow> False
    | Inr (p, g) \<Rightarrow> t_thread_id_counter g < UINT32_MAX \<and>
      (case my_free (demo_env False) 1 p g of Inl _ \<Rightarrow> False
       | Inr g' \<Rightarrow> t_tld g' 1 \<noteq> None \<and> (case t_tld g' 0 of None \<Rightarrow> False | Some d \<Rightarrow> tl_bin_page d ! 12 \<noteq> None)))"
  by code_simp

lemma demo_two:
  obtains g d d' i pp where "reachable (demo_env False) g" "t_tld g 0 = Some d" "t_tld g 1 = Some d'" "i < 75" "tl_bin_page d ! i = Some pp"
proof -
  obtain p g s n u where r: "my_malloc (demo_env False) 0 100 zero_gstate = Inr (p, g)" "usable g p s n u" "findable g p" by (rule demo_small)
  have g: "t_thread_id_counter g < UINT32_MAX" "case my_free (demo_env False) 1 p g of Inl _ \<Rightarrow> False
       | Inr g' \<Rightarrow> t_tld g' 1 \<noteq> None \<and> (case t_tld g' 0 of None \<Rightarrow> False | Some d \<Rightarrow> tl_bin_page d ! 12 \<noteq> None)"
    using demo_two_run r(1) by auto
  obtain g' where g': "my_free (demo_env False) 1 p g = Inr g'" "t_tld g' 1 \<noteq> None"
      "case t_tld g' 0 of None \<Rightarrow> False | Some d \<Rightarrow> tl_bin_page d ! 12 \<noteq> None"
    using g(2) by (cases "my_free (demo_env False) 1 p g") auto
  obtain d d' pp where d: "t_tld g' 0 = Some d" "t_tld g' 1 = Some d'" "tl_bin_page d ! 12 = Some pp"
    using g'(2,3) by (cases "t_tld g' 0") auto
  have "client_step (demo_env False) g g'"
    by (rule client_step.call_free [OF _ disjI2 [OF conjI [OF r(2,3)]] g'(1)]) (use g(1) in \<open>simp add: ids_ok_def\<close>)
  then have "reachable (demo_env False) g'" by (rule reachable.step [OF demo_reachable [OF r(1)], rotated]) simp
  then show ?thesis using that [of g' d d' 12 pp] d by simp
qed

end
