(* ===== verification/Block_Store.thy ===== *)
theory Block_Store
  imports Client_Runs
begin

text \<open>
  The interface between the allocator and the code that only hands blocks out and takes them back: what a call that acquires a block
  and a call that releases one promise, without pages, segments or lists. Everything proved from these promises holds for each pair of
  calls that keeps them; \<open>my_malloc\<close>, \<open>my_calloc\<close> and \<open>my_memalign\<close> do, together with \<open>my_free\<close>.
\<close>

section \<open>The contract\<close>

fun release_list :: "('p \<Rightarrow> 'g \<Rightarrow> 'g result) \<Rightarrow> 'p list \<Rightarrow> 'g \<Rightarrow> 'g result" where
  "release_list release [] g = Inr g"
| "release_list release (p # ps) g = bindR (release p g) (release_list release ps)"

locale block_release =
  fixes ok :: "'g \<Rightarrow> bool" and live :: "'g \<Rightarrow> 'b set" and held :: "'g \<Rightarrow> 'p \<Rightarrow> 'b \<Rightarrow> bool" and content :: "'g \<Rightarrow> 'b \<Rightarrow> 'c"
    and release :: "'p \<Rightarrow> 'g \<Rightarrow> 'g result"
  assumes release: "ok g \<Longrightarrow> held g p b \<Longrightarrow> \<exists>g'. release p g = Inr g' \<and> ok g' \<and> live g' = live g - {b}"
    and release_held: "ok g \<Longrightarrow> held g p b \<Longrightarrow> release p g = Inr g' \<Longrightarrow> held g q c \<Longrightarrow> c \<noteq> b \<Longrightarrow> held g' q c"
    and release_content: "ok g \<Longrightarrow> held g p b \<Longrightarrow> release p g = Inr g' \<Longrightarrow> c \<in> live g' \<Longrightarrow> content g' c = content g c"
begin

lemma release_all:
  "ok g \<Longrightarrow> list_all2 (held g) ps bs \<Longrightarrow> distinct bs \<Longrightarrow>
    \<exists>g'. release_list release ps g = Inr g' \<and> ok g' \<and> live g' = live g - set bs \<and> (\<forall>c \<in> live g'. content g' c = content g c)"
proof (induction ps arbitrary: bs g)
  case (Cons p ps)
  then obtain b bs' where b: "bs = b # bs'" "held g p b" "list_all2 (held g) ps bs'" "b \<notin> set bs'" "distinct bs'"
    by (auto simp: list_all2_Cons1)
  obtain g1 where g1: "release p g = Inr g1" "ok g1" "live g1 = live g - {b}" using release [OF Cons.prems(1) b(2)] by blast
  have "list_all2 (held g1) ps bs'"
    using b(4) release_held [OF Cons.prems(1) b(2) g1(1)] by (intro list.rel_mono_strong [OF b(3)]) auto
  from Cons.IH [OF g1(2) this b(5)] obtain g' where g': "release_list release ps g1 = Inr g'" "ok g'" "live g' = live g1 - set bs'"
      "\<forall>c \<in> live g'. content g' c = content g1 c" by blast
  then show ?case using g1 b(1) release_content [OF Cons.prems(1) b(2) g1(1)] by auto
qed simp

end

locale block_store = block_release ok live held content release
  for ok :: "'g \<Rightarrow> bool" and live :: "'g \<Rightarrow> 'b set" and held :: "'g \<Rightarrow> addr \<Rightarrow> 'b \<Rightarrow> bool" and content :: "'g \<Rightarrow> 'b \<Rightarrow> 'c"
    and release :: "addr \<Rightarrow> 'g \<Rightarrow> 'g result" +
  fixes may :: "'g \<Rightarrow> bool" and acquire :: "'g \<Rightarrow> (addr \<times> 'g) result" and reach :: "'g \<Rightarrow> addr \<Rightarrow> bool"
  assumes acquire: "may g \<Longrightarrow> \<exists>p g'. acquire g = Inr (p, g') \<and> ok g' \<and>
      (p = 0 \<and> live g' = live g \<or> p \<noteq> 0 \<and> (\<exists>b. b \<notin> live g \<and> live g' = insert b (live g) \<and> (reach g' p \<longrightarrow> held g' p b)))"
    and acquire_content: "may g \<Longrightarrow> acquire g = Inr (p, g') \<Longrightarrow> c \<in> live g \<Longrightarrow> content g' c = content g c"
begin

lemma acquire_release:
  assumes "may g" "acquire g = Inr (p, g1)" "p \<noteq> 0" "reach g1 p"
  shows "\<exists>g2. release p g1 = Inr g2 \<and> ok g2 \<and> live g2 = live g \<and> (\<forall>c \<in> live g. content g2 c = content g c)"
proof -
  obtain b where b: "ok g1" "b \<notin> live g" "live g1 = insert b (live g)" "held g1 p b" using acquire [OF assms(1)] assms(2-4) by auto
  obtain g2 where g2: "release p g1 = Inr g2" "ok g2" "live g2 = live g1 - {b}" using release [OF b(1,4)] by blast
  have "live g2 = live g" using g2(3) b(2,3) by auto
  then show ?thesis using g2(1,2) release_content [OF b(1,4) g2(1)] acquire_content [OF assms(1,2)] by auto
qed

end

section \<open>The heap keeps it\<close>

definition call_ok :: "env \<Rightarrow> thread \<Rightarrow> gstate \<Rightarrow> bool" where
  "call_ok e t g \<longleftrightarrow> env_ok e \<and> heap_inv e g \<and> unlocked g \<and> ids_ok t g"

definition call_may :: "env \<Rightarrow> thread \<Rightarrow> bool \<Rightarrow> gstate \<Rightarrow> bool" where
  "call_may e t fits g \<longleftrightarrow> env_ok e \<and> heap_ok e g \<and> ids_ok t g \<and> next_ok t g \<and> fits"

definition holds :: "gstate \<Rightarrow> addr \<Rightarrow> addr \<times> nat \<Rightarrow> bool" where
  "holds g p b \<longleftrightarrow> (\<exists>u. usable g p (fst b) (snd b) u) \<and> findable g p"

definition bytes :: "gstate \<Rightarrow> addr \<times> nat \<Rightarrow> addr \<Rightarrow> u8" where
  "bytes g b x = (if unat x \<in> span (fst b) (snd b) then h_mem g x else 0)"

lemma bytes_iff: "(\<forall>c \<in> B. bytes g' c = bytes g c) \<longleftrightarrow> (\<forall>s n x. (s, n) \<in> B \<longrightarrow> unat x \<in> span s n \<longrightarrow> h_mem g' x = h_mem g x)"
proof -
  have "bytes g' c = bytes g c \<longleftrightarrow> (\<forall>x. unat x \<in> span (fst c) (snd c) \<longrightarrow> h_mem g' x = h_mem g x)" for c
    unfolding bytes_def fun_eq_iff by (auto simp del: span_iff)
  then show ?thesis by (simp add: Ball_def split_paired_All del: span_iff)
qed

lemma findable_drops:
  assumes "heap_inv e g" "heap_inv e g'" "usable g p s n u" "findable g p" "drops g s' n' g'" "s \<noteq> s'"
  shows "findable g' p"
proof (rule findable_keeps [OF assms(1-4)])
  show "reg_set (g_registry g) \<subseteq> reg_set (g_registry g')" using assms(5) by (simp add: drops_def)
  have "{r \<in> large_recs g. fst r \<noteq> s'} \<subseteq> large_recs g'" using assms(5) by (simp add: drops_def)
  then show "(s, n) \<in> large_blocks g \<longrightarrow> (s, n) \<in> large_blocks g'" using assms(6) by (auto simp: large_blocks_recs)
qed

interpretation free: block_release "call_ok e t" blocks holds bytes "my_free e t" for e t
proof
  fix g p b assume g: "call_ok e t g" "holds g p b"
  then obtain u where u: "usable g p (fst b) (snd b) u" "findable g p" by (auto simp: holds_def)
  have H: "env_ok e" "heap_inv e g" "unlocked g" "ids_ok t g" using g(1) by (simp_all add: call_ok_def)
  obtain g1 where g1: "my_free e t p g = Inr g1" "call_ok e t g1" "drops g (fst b) (snd b) g1"
    using my_free_ok [OF H usableD(1) [OF u(1)] u(2)] H(1) by (auto simp: call_ok_def)
  show "\<exists>g'. my_free e t p g = Inr g' \<and> call_ok e t g' \<and> blocks g' = blocks g - {b}"
    using g1 by (auto simp: drops_def)
  fix g' assume r: "my_free e t p g = Inr g'"
  have d: "drops g (fst b) (snd b) g'" "heap_inv e g'" using r g1 by (simp_all add: call_ok_def)
  show "holds g' q c" if c: "holds g q c" "c \<noteq> b" for q c
  proof -
    obtain w where w: "usable g q (fst c) (snd c) w" "findable g q" using c(1) by (auto simp: holds_def)
    have "fst c \<noteq> fst b" using block_start_unique [OF H(2)] usableD(2) [OF u(1)] usableD(2) [OF w(1)] c(2) by (metis prod.collapse)
    then show ?thesis using usable_drops [OF d(1) w(1)] findable_drops [OF H(2) d(2) w d(1)] by (auto simp: holds_def)
  qed
  show "bytes g' c = bytes g c" if "c \<in> blocks g'" for c
    using d(1) that by (cases c) (auto simp: drops_def bytes_def fun_eq_iff simp del: span_iff)
qed

lemma alloc_ok_store:
  assumes "alloc_ok e t g sz p g'" "env_ok e"
  shows "call_ok e t g' \<and> (p = 0 \<and> blocks g' = blocks g \<or>
    p \<noteq> 0 \<and> (\<exists>b. b \<notin> blocks g \<and> blocks g' = insert b (blocks g) \<and> (findable g' p \<longrightarrow> holds g' p b)))" (is "_ \<and> ?D")
    and "c \<in> blocks g \<Longrightarrow> bytes g' c = bytes g c"
proof -
  note D = alloc_okD [OF assms(1)]
  have "call_ok e t g'" using assms by (simp add: alloc_ok_def call_ok_def)
  moreover have ?D
  proof (cases "p = 0")
    case True
    then show ?thesis using D by simp
  next
    case False
    then obtain s n u where a: "adds g s n g'" "usable g' p s n u" using assms(1) by (auto simp: alloc_ok_def)
    have "(s, n) \<notin> blocks g" using a(1) unfolding adds_def by (force simp: span_iff)
    moreover have "blocks g' = insert (s, n) (blocks g)" using a(1) by (simp add: adds_def)
    moreover have "findable g' p \<longrightarrow> holds g' p (s, n)" using a(2) by (auto simp: holds_def)
    ultimately show ?thesis using False by blast
  qed
  ultimately show "call_ok e t g' \<and> ?D" by blast
  show "bytes g' c = bytes g c" if "c \<in> blocks g"
    using D that bytes_iff [of "blocks g" g' g] by blast
qed

text \<open>Every call that is known to allocate keeps the contract.\<close>

lemma store_of_alloc:
  assumes "\<And>g. call_may e t fits g \<Longrightarrow> \<exists>p g'. f g = Inr (p, g') \<and> alloc_ok e t g sz p g'"
  shows "block_store (call_ok e t) blocks holds bytes (my_free e t) (call_may e t fits) f findable"
proof (intro block_store.intro block_store_axioms.intro free.block_release_axioms)
  fix g assume m: "call_may e t fits g"
  then have e: "env_ok e" by (simp add: call_may_def)
  obtain p g' where r: "f g = Inr (p, g')" "alloc_ok e t g sz p g'" using assms [OF m] by blast
  show "\<exists>p g'. f g = Inr (p, g') \<and> call_ok e t g' \<and> (p = 0 \<and> blocks g' = blocks g \<or>
    p \<noteq> 0 \<and> (\<exists>b. b \<notin> blocks g \<and> blocks g' = insert b (blocks g) \<and> (findable g' p \<longrightarrow> holds g' p b)))"
    using r(1) alloc_ok_store(1) [OF r(2) e] by blast
  fix q g2 c assume "f g = Inr (q, g2)" "c \<in> blocks g"
  then show "bytes g2 c = bytes g c" using r alloc_ok_store(2) [OF r(2) e] by simp
qed

interpretation malloc: block_store "call_ok e t" blocks holds bytes "my_free e t"
  "call_may e t (unat sz + 262176 \<le> 2 ^ 64)" "my_malloc e t sz" findable for e t sz
  by (rule store_of_alloc) (auto simp: call_may_def intro: my_malloc_ok)

interpretation calloc: block_store "call_ok e t" blocks holds bytes "my_free e t"
  "call_may e t (unat count * unat sz + 262176 \<le> 2 ^ 64)" "my_calloc e t count sz" findable for e t count sz
proof (rule store_of_alloc)
  fix g assume "call_may e t (unat count * unat sz + 262176 \<le> 2 ^ 64) g"
  then show "\<exists>p g'. my_calloc e t count sz g = Inr (p, g') \<and> alloc_ok e t g (max 1 (unat count * unat sz)) p g'"
    using my_calloc_ok [of e g t count sz] unfolding call_may_def by blast
qed

interpretation memalign: block_store "call_ok e t" blocks holds bytes "my_free e t"
  "call_may e t (is_pow2 al \<and> unat sz + 2 * unat al + 262176 \<le> 2 ^ 64 \<and> (0 < unat sz \<or> al \<le> PAGE_SIZE_ALLOC))" "my_memalign e t al sz" findable
  for e t al sz
proof (rule store_of_alloc)
  fix g assume "call_may e t (is_pow2 al \<and> unat sz + 2 * unat al + 262176 \<le> 2 ^ 64 \<and> (0 < unat sz \<or> al \<le> PAGE_SIZE_ALLOC)) g"
  then show "\<exists>p g'. my_memalign e t al sz g = Inr (p, g') \<and> alloc_ok e t g (unat sz) p g'"
    using my_memalign_ok [of e g t al sz] unfolding call_may_def by blast
qed

end
