(* ===== verification/Zone_Correct.thy ===== *)
theory Zone_Correct
  imports Zone_Ops Client_Demo Block_Store
begin

unbundle bit_operations_syntax

text \<open>
  Properties of the zone callbacks: batches, ownership of addresses, the locks taken around \<open>fork\<close>, and what memory pressure
  does to the free lists of an empty page.
\<close>

section \<open>Batches\<close>

lemma zone_batch_free_list:
  "zone_batch_free e t ps g = bindR (release_list (my_free e t) ps g) (\<lambda>g. Inr (replicate (length ps) 0, g))"
proof (induction ps arbitrary: g)
  case (Cons p ps)
  then show ?case by (cases "my_free e t p g"; cases "release_list (my_free e t) ps (projr (my_free e t p g))") auto
qed simp

text \<open>
  C30. Freeing a batch of held pointers to different blocks returns, clears every entry of the array, takes exactly these blocks away
  and keeps the bytes of all others.
\<close>

theorem zone_batch_free_spec:
  assumes "env_ok e" "heap_inv e g" "unlocked g" "ids_ok t g" "list_all2 (holds g) ps bs" "distinct bs"
  shows "\<exists>g'. zone_batch_free e t ps g = Inr (replicate (length ps) 0, g') \<and> heap_inv e g' \<and> unlocked g' \<and> blocks g' = blocks g - set bs \<and>
    (\<forall>s n x. (s, n) \<in> blocks g' \<longrightarrow> unat x \<in> span s n \<longrightarrow> h_mem g' x = h_mem g x)"
proof -
  have "call_ok e t g" using assms(1-4) by (simp add: call_ok_def)
  from free.release_all [OF this assms(5,6)] show ?thesis unfolding bytes_iff by (auto simp: zone_batch_free_list call_ok_def)
qed

theorem zone_batch_free_spec_witness:
  "\<exists>p g g' b. my_malloc (demo_env False) 0 100 zero_gstate = Inr (p, g) \<and> b \<in> blocks g \<and>
     zone_batch_free (demo_env False) 0 [p] g = Inr ([0], g') \<and> blocks g' = blocks g - {b}"
proof -
  obtain p g s n u where r: "my_malloc (demo_env False) 0 100 zero_gstate = Inr (p, g)" "heap_inv (demo_env False) g" "unlocked g"
    "ids_ok 0 g" "usable g p s n u" "findable g p" by (rule demo_small)
  have "list_all2 (holds g) [p] [(s, n)]" using r(5,6) by (auto simp: holds_def)
  from zone_batch_free_spec [OF demo_env_ok r(2-4) this] show ?thesis using r(1) usableD(2) [OF r(5)] by auto
qed

section \<open>Ownership of addresses\<close>

text \<open>
  C31. \<open>zone_claimed_address\<close> returns without changing anything and answers exactly whether the address lies in the bootstrap buffer, in
  a registered segment or in a large block; in particular it claims every byte of every large block and, while no more than 256
  segments exist, every byte of every slot.
\<close>

theorem zone_claimed_address_spec:
  assumes "env_ok e" "heap_inv e g" "unlocked g"
  shows "\<exists>c. zone_claimed_address e p g = Inr (c, g) \<and>
    (c \<longleftrightarrow> p \<noteq> 0 \<and> (in_bootstrap e p \<or> p AND SEGMENT_MASK \<in> reg_set (g_registry g) \<or> (\<exists>s n. (s, n) \<in> large_blocks g \<and> unat p \<in> span s n))) \<and>
    (card (dom (h_segs g)) \<le> 256 \<longrightarrow> (\<forall>s n. (s, n) \<in> blocks g \<longrightarrow> unat p \<in> span s n \<longrightarrow> c))"
proof -
  note h = heap_invD [OF assms(2)]
  have rk: "reg_ok (g_registry g)" "reg_set (g_registry g) \<subseteq> dom (h_segs g)" using h(2) by (auto simp: registry_ok_def)
  have nz: "p AND SEGMENT_MASK \<noteq> 0" if "p AND SEGMENT_MASK \<in> reg_set (g_registry g)"
    using that rk(2) segs_ok_hdr [OF h(4)] by (fastforce simp: seg_hdr_ok_def)
  have seg: "ptr_to_segment g p \<noteq> 0 \<longleftrightarrow> p AND SEGMENT_MASK \<in> reg_set (g_registry g)"
    using isin_iff [OF rk(1), of "p AND SEGMENT_MASK"] nz by (auto simp: ptr_to_segment_def Let_def)
  obtain la where la: "large_find p g = Inr (la, g)" "if la = 0 then \<forall>b. unat p \<notin> region e g (Large b)
     else unat p \<in> region e g (Large la) \<and> (\<exists>l. h_larges g la = Some l)"
    using large_find_ok [OF h(6), of p e] assms(3) unfolding unlocked_def by blast
  have lg: "la \<noteq> 0 \<longleftrightarrow> (\<exists>s n. (s, n) \<in> large_blocks g \<and> unat p \<in> span s n)"
  proof
    assume "la \<noteq> 0"
    then obtain l where "h_larges g la = Some l" "unat p \<in> region e g (Large la)" using la(2) by (auto simp del: region.simps)
    then show "\<exists>s n. (s, n) \<in> large_blocks g \<and> unat p \<in> span s n" by (auto simp: large_blocks_def simp del: span_iff)
  next
    assume "\<exists>s n. (s, n) \<in> large_blocks g \<and> unat p \<in> span s n"
    then obtain s n where "(s, n) \<in> large_blocks g" "unat p \<in> span s n" by blast
    then have "unat p \<in> region e g (Large s)" using large_block_region by blast
    then show "la \<noteq> 0" using la(2) by (auto simp del: region.simps)
  qed
  define c where "c \<longleftrightarrow> p \<noteq> 0 \<and> (in_bootstrap e p \<or> p AND SEGMENT_MASK \<in> reg_set (g_registry g) \<or> (\<exists>s n. (s, n) \<in> large_blocks g \<and> unat p \<in> span s n))"
  have "zone_claimed_address e p g = Inr (c, g)"
    using la(1) seg lg by (auto simp: zone_claimed_address_def c_def simp del: span_iff)
  moreover have "c" if d: "card (dom (h_segs g)) \<le> 256" and b: "(s, n) \<in> blocks g" "unat p \<in> span s n" for s n
  proof -
    have p0: "p \<noteq> 0" using block_nonzero [OF assms(2) b(1)] b(2) by (auto simp: word_unat_eq_iff)
    show ?thesis
    proof (cases "(s, n) \<in> large_blocks g")
      case True
      then show ?thesis using p0 b(2) by (auto simp: c_def simp del: span_iff)
    next
      case False
      then have "(s, n) \<in> slabs g" using b(1) by (simp add: blocks_def)
      then obtain pp pg where pg: "active (h_segs g) pp pg" "s \<in> page_live (h_mem g) pg" "n = unat (pm_slot_size pg)"
        by (auto simp: slab_blocks_def)
      note st = page_start_at [OF h(4) activeD(1) [OF h(4) pg(1)]]
      have "unat p \<in> span (fst pp) 4194304" using slab_block_at(1) [OF h(4) pg(1,2)] st(4) b(2) pg(3) by blast
      then have "p AND SEGMENT_MASK = fst pp" by (rule segment_base [OF st(8)])
      then show ?thesis using findable_few [OF assms(2) d, of p] st(5) p0 by (auto simp: findable_def c_def)
    qed
  qed
  ultimately show ?thesis by (intro exI [of _ c]) (simp add: c_def del: span_iff)
qed

theorem zone_claimed_address_spec_witness:
  "\<exists>p g. my_malloc (demo_env False) 0 200000 zero_gstate = Inr (p, g) \<and> p \<noteq> 0 \<and> (\<exists>c. zone_claimed_address (demo_env False) p g = Inr (c, g))"
proof -
  obtain p g where r: "my_malloc (demo_env False) 0 200000 zero_gstate = Inr (p, g)" "heap_inv (demo_env False) g" "unlocked g" "p \<noteq> 0"
    by (rule demo_large)
  show ?thesis using r zone_claimed_address_spec [OF demo_env_ok r(2,3), of p] by blast
qed

section \<open>Good sizes\<close>

text \<open>Sizes up to the size of a class that are at least a size of the class belong to the class.\<close>

lemma same_class:
  assumes t: "tables_ok g" and s: "s \<le> MEDIUM_MAX" "s' \<le> MEDIUM_MAX" "s \<le> s'" "s' \<le> bin_to_size g (size_to_bin g s)" "s \<noteq> 0"
  shows "size_to_bin g s' = size_to_bin g s"
proof -
  define r r' where d: "r = unat (size_to_bin g s)" "r' = unat (size_to_bin g s')"
  note S = size_to_bin_spec [OF t s(1) d(1)] size_to_bin_spec [OF t s(2) d(2)]
  have le: "0 < unat s" "unat s \<le> unat s'" using s(3,5) by (simp_all add: word_le_nat_alt unat_gt_0)
  have up: "unat s' \<le> unat (bin_sizes ! r)" using s(4) bin_to_size_nat [OF t, of "size_to_bin g s"] S(1) by (simp add: d word_le_nat_alt)
  have "\<not> r < r'" "\<not> r' < r" using S le up by (auto simp: max_def)
  then show ?thesis by (simp add: d word_unat_eq_iff)
qed

lemma same_round:
  assumes "k \<le> 16" "unat s + 131072 \<le> 2 ^ 64" "s \<le> s'" "s' \<le> align_up s (2 ^ k)"
  shows "align_up s' (2 ^ k) = align_up s (2 ^ k)"
proof -
  let ?P = "(2 :: nat) ^ k"
  have k: "k < 64" "?P \<le> 65536" using assms(1) power_increasing [of k 16 "2 :: nat"] by auto
  have "unat s + ?P \<le> 2 ^ 64" using assms(2) k(2) by simp
  note a = align_up_bounds [OF k(1) this]
  have le: "unat s \<le> unat s'" "unat s' \<le> unat (align_up s (2 ^ k))" using assms(3,4) by (simp_all add: word_le_nat_alt)
  have "unat s' + ?P \<le> 2 ^ 64" using assms(2) k(2) le(2) a(2) by linarith
  note b = align_up_bounds [OF k(1) this]
  obtain m n where mn: "unat (align_up s (2 ^ k)) = ?P * m" "unat (align_up s' (2 ^ k)) = ?P * n" using a(3) b(3) by (meson dvdE mod_0_imp_dvd)
  then have "?P * m < ?P * (n + 1)" "?P * n < ?P * (m + 1)" using a b le by (simp_all add: algebra_simps)
  then have "m = n" unfolding mult_less_cancel1 by simp
  then show ?thesis using mn by (simp add: word_unat_eq_iff)
qed

text \<open>
  C32. \<open>zone_good_size\<close> gives the largest size that costs no more than the one asked for: it is at least that size (one byte for none), and every size from the one
  asked for up to it has the same good size, itself included. Up to 128 KB it is the size of the class that \<open>size_to_bin\<close> chooses, above it the size rounded up to whole
  pages.
\<close>

theorem zone_good_size_spec:
  assumes "env_ok e" "heap_inv e g" "unat sz + 131072 \<le> 2 ^ 64"
  shows "max 1 sz \<le> zone_good_size e g sz \<and> (\<forall>s. sz \<le> s \<and> s \<le> zone_good_size e g sz \<longrightarrow> zone_good_size e g s = zone_good_size e g sz) \<and>
    (if sz \<le> MEDIUM_MAX then zone_good_size e g sz = bin_to_size g (size_to_bin g (max 1 sz)) else unat (zone_good_size e g sz) mod unat (page_size e) = 0)"
proof -
  have t: "tables_ok g" by (rule base_okD(2) [OF heap_invD(1) [OF assms(2)]])
  obtain k where k: "12 \<le> k" "k \<le> 16" "page_size e = 2 ^ k" using env_ok_page [OF assms(1)] by blast
  have m: "(if x = 0 then 1 else x) = max 1 x" for x :: u64 by (auto simp: max_def word_le_nat_alt unat_gt_0 Suc_le_eq)
  have z: "zone_good_size e g x = (if max 1 x > MEDIUM_MAX then align_up (max 1 x) (2 ^ k) else bin_to_size g (size_to_bin g (max 1 x)))" for x
    unfolding zone_good_size_def m Let_def os_page_size_def k(3) align_up_def ..
  have one: "max 1 x > MEDIUM_MAX \<longleftrightarrow> \<not> x \<le> MEDIUM_MAX" for x :: u64 by (auto simp: max_def config_simps not_le)
  have mono: "max 1 sz \<le> max 1 s" if "sz \<le> s" for s using that by (auto simp: max_def)
  show ?thesis
  proof (cases "sz \<le> MEDIUM_MAX")
    case True
    let ?c = "bin_to_size g (size_to_bin g (max 1 sz))"
    have q: "max 1 sz \<le> MEDIUM_MAX" "max 1 sz \<noteq> 0" using True one [of sz] by (auto simp: max_def)
    define r where "r = unat (size_to_bin g (max 1 sz))"
    have r: "r < 75" "unat (max 1 sz) \<le> unat (bin_sizes ! r)" using size_to_bin_spec [OF t q(1) r_def] by auto
    have c: "unat ?c = unat (bin_sizes ! r)" using bin_to_size_nat [OF t] r(1) by (simp add: r_def)
    have "\<forall>x \<in> set bin_sizes. unat x \<le> 131072 \<and> 1 \<le> unat x" by (simp add: bin_sizes_def)
    then have cm: "?c \<le> MEDIUM_MAX" "1 \<le> ?c" using c r(1) nth_mem [of r bin_sizes] by (auto simp: bin_sizes_length word_le_nat_alt config_simps)
    have "zone_good_size e g s = ?c" if s: "sz \<le> s" "s \<le> ?c" for s
    proof -
      have "max 1 s \<le> ?c" "max 1 s \<le> MEDIUM_MAX" using s(2) cm by auto
      then show ?thesis using same_class [OF t q(1) _ mono [OF s(1)] _ q(2)] z [of s] by (simp add: not_less [symmetric])
    qed
    moreover have "zone_good_size e g sz = ?c" using z [of sz] one [of sz] True by simp
    moreover have "max 1 sz \<le> ?c" using r(2) c by (simp add: word_le_nat_alt)
    ultimately show ?thesis using True by simp
  next
    case False
    then have sz: "max 1 sz = sz" by (auto simp: max_def config_simps word_le_nat_alt)
    have G: "zone_good_size e g sz = align_up sz (2 ^ k)" using z [of sz] one [of sz] False sz by simp
    have "unat sz + 2 ^ k \<le> 2 ^ 64" using assms(3) k(2) power_increasing [of k 16 "2 :: nat"] by simp
    note a = align_up_bounds [OF _ this]
    have P: "unat (2 ^ k :: u64) = 2 ^ k" using k(2) by (simp add: unat_pow2)
    have "zone_good_size e g s = align_up sz (2 ^ k)" if s: "sz \<le> s" "s \<le> align_up sz (2 ^ k)" for s
    proof -
      have "\<not> s \<le> MEDIUM_MAX" "max 1 s = s" using False s(1) by (auto simp: max_def config_simps word_le_nat_alt)
      then show ?thesis using z [of s] one [of s] same_round [OF k(2) assms(3) s] by simp
    qed
    then show ?thesis using False G sz a k(2,3) P by (simp add: word_le_nat_alt)
  qed
qed

theorem zone_good_size_spec_witness:
  "\<exists>p g. my_malloc (demo_env False) 0 100 zero_gstate = Inr (p, g) \<and> 5000 \<le> zone_good_size (demo_env False) g 5000"
proof -
  obtain p g where r: "my_malloc (demo_env False) 0 100 zero_gstate = Inr (p, g)" "heap_inv (demo_env False) g" by (rule demo_small)
  have "unat (5000 :: u64) + 131072 \<le> 2 ^ 64" "max 1 (5000 :: u64) = 5000" by (simp_all add: max_def)
  then show ?thesis using r zone_good_size_spec [OF demo_env_ok r(2), of 5000] by metis
qed

section \<open>Locking around fork\<close>

text \<open>
  C33. From a state between calls \<open>zone_force_lock\<close> gets the lock of every arena and of the list of large blocks, taking them again would
  block for ever, and \<open>zone_force_unlock\<close> leads back to exactly the state before.
\<close>

theorem zone_lock_roundtrip:
  assumes "heap_inv e g" "unlocked g"
  shows "\<exists>g'. zone_force_lock g = Inr g' \<and> g_large_lock g' \<and> (\<forall>a < 4. ar_lock (g_arenas g' ! a)) \<and>
    zone_force_lock g' = Inl Deadlock \<and> zone_force_unlock g' = g"
proof -
  note b = base_okD [OF heap_invD(1) [OF assms(1)]]
  let ?as = "g_arenas g"
  let ?l = "\<lambda>a. (?as ! a)\<lparr>ar_lock := True\<rparr>"
  let ?g = "g\<lparr>g_arenas := ?as[0 := ?l 0, 1 := ?l 1, 2 := ?l 2, 3 := ?l 3], g_large_lock := True\<rparr>"
  have u: "ar_lock (?as ! a) = False" if "a < 64" for a using assms(2) that by (simp add: unlocked_def)
  have ul: "(?as ! a)\<lparr>ar_lock := False\<rparr> = ?as ! a" if "a < 64" for a using u [OF that] by (cases "?as ! a") simp
  have four: "[0..<nat (sint (g_arena_count g))] = [0, 1, 2, 3]" unfolding b(3) by code_simp
  have L: "zone_force_lock g = Inr ?g"
    using b(4) u assms(2)
    by (simp add: zone_force_lock_def four lock_arena_def upd_arena_def lock_large_def unlocked_def)
  have "?as[0 := ?l 0, 1 := ?l 1, 2 := ?l 2, 3 := ?l 3, 0 := ?as ! 0, 1 := ?as ! 1, 2 := ?as ! 2, 3 := ?as ! 3] = ?as"
    using b(4) by (intro nth_equalityI) (auto simp: nth_list_update)
  then have "zone_force_unlock ?g = g\<lparr>g_arenas := ?as, g_large_lock := False\<rparr>"
    using b(4) ul [of 0] ul [of 1] ul [of 2] ul [of 3]
    by (simp add: zone_force_unlock_def four unlock_arena_def upd_arena_def unlock_large_def)
  also have "\<dots> = g" using assms(2) by (cases g) (simp add: unlocked_def)
  finally have "zone_force_unlock ?g = g" .
  moreover have "zone_force_lock ?g = Inl Deadlock"
    using b(4) by (simp add: zone_force_lock_def four lock_arena_def)
  moreover have "ar_lock (g_arenas ?g ! a)" if "a < 4" for a
    using that b(4) by (simp add: nth_list_update)
  ultimately show ?thesis using L by (intro exI [of _ ?g]) simp
qed

theorem zone_lock_roundtrip_witness:
  "\<exists>p g g'. my_malloc (demo_env False) 0 200000 zero_gstate = Inr (p, g) \<and> zone_force_lock g = Inr g' \<and> zone_force_unlock g' = g"
proof -
  obtain p g where r: "my_malloc (demo_env False) 0 200000 zero_gstate = Inr (p, g)" "heap_inv (demo_env False) g" "unlocked g"
    by (rule demo_large)
  show ?thesis using r(1) zone_lock_roundtrip [OF r(2,3)] by blast
qed

section \<open>Memory pressure\<close>

lemma slot_bytes_in_page:
  assumes "page_geom pg" "i < unat (pm_capacity pg)" "k < 8"
  shows "slot_addr pg i + of_nat k - page_start pg < PAGE_SIZE_ALLOC"
proof -
  have "i * unat (pm_slot_size pg) + k < 65536" using unat_slot_addr(2) [OF assms(1,2)] page_geomD(1) [OF assms(1)] assms(3) by simp
  then have "unat (of_nat (i * unat (pm_slot_size pg) + k) :: addr) < 65536" by (subst unat_of_nat_small) auto
  then show ?thesis by (simp add: slot_addr_def word_less_nat_alt config_simps)
qed

text \<open>
  C35. Memory pressure breaks the free list of an empty page. \<open>zone_pressure_relief\<close> offers the 64 KB of every active page without
  allocated slots to the kernel but leaves the page's free list, whose links are stored in these very bytes, in place. When the kernel drops
  the bytes, a page with at least two slots on its local list is no longer well-formed: its list ends after one slot.
\<close>

theorem pressure_relief_breaks_page:
  assumes "page_ok (h_mem g) pg" "pm_state pg = PAGE_ACTIVE" "page_is_empty pg" "2 \<le> unat (pm_local_free_count pg)"
    "reclaims e (h_log g) = (\<lambda>_. True)"
  shows "\<not> page_ok (h_mem (snd (relieve_pages e [pg] n g))) pg"
proof
  let ?m = "h_mem (snd (relieve_pages e [pg] n g))"
  assume "page_ok ?m pg"
  then obtain L R where l: "page_geom pg" "page_lists ?m pg L R" by (auto simp: page_ok_def)
  then have len: "2 \<le> length L" "chain ?m (pm_local_free pg) L" "set L \<subseteq> slot_addr pg ` {..<bump_count pg}"
    using assms(4) by (auto simp: page_lists_def)
  then obtain x y ys where L: "L = x # y # ys" by (cases L; cases "List.tl L") auto
  then obtain i where i: "x = slot_addr pg i" "i < unat (pm_capacity pg)" using len(3) bump_count_le [OF l(1)] by auto
  have "page_start pg \<noteq> 0" using unat_page_start [OF l(1)] page_geomD(11) [OF l(1)] by auto
  then have m: "?m a = 0" if "a - page_start pg < PAGE_SIZE_ALLOC" for a
    using that assms(2,3,5) by (simp add: os_madvise_free_def sys_madvise_def config_simps)
  have "load64 ?m x = load64 (\<lambda>_. 0) x"
    by (rule load64_cong) (simp only: i(1) m [OF slot_bytes_in_page [OF l(1) i(2)]])
  also have "\<dots> = 0" by (rule bit_word_eqI) (simp add: bit_load64)
  finally show False using len(2) L by (auto simp del: relieve_pages.simps)
qed

lemma relief_demo:
  "(case page_alloc_slot (\<lambda>_. 0) demo_page of None \<Rightarrow> False | Some (p, m, pg) \<Rightarrow>
    (case page_alloc_slot m pg of None \<Rightarrow> False | Some (q, m, pg) \<Rightarrow>
      (case page_free_slot_local p m pg of (m, pg) \<Rightarrow> (case page_free_slot_local q m pg of (m, pg) \<Rightarrow>
        p \<noteq> 0 \<and> q \<noteq> 0 \<and> pm_state pg = PAGE_ACTIVE \<and> page_is_empty pg \<and> 2 \<le> unat (pm_local_free_count pg)))))"
  by code_simp

theorem pressure_relief_breaks_page_witness:
  "\<exists>m pg. page_ok m pg \<and> pm_state pg = PAGE_ACTIVE \<and> page_is_empty pg \<and>
     \<not> page_ok (h_mem (snd (relieve_pages (demo_env False) [pg] 0 (zero_gstate\<lparr>h_mem := m\<rparr>)))) pg"
proof -
  obtain p m1 pg1 q m2 pg2 where s: "page_alloc_slot (\<lambda>_. 0) demo_page = Some (p, m1, pg1)" "page_alloc_slot m1 pg1 = Some (q, m2, pg2)"
    using relief_demo by (auto split: option.splits)
  obtain m3 pg3 where t: "page_free_slot_local p m2 pg2 = (m3, pg3)" by (cases "page_free_slot_local p m2 pg2")
  obtain m4 pg4 where r: "page_alloc_slot (\<lambda>_. 0) demo_page = Some (p, m1, pg1)"
      "page_alloc_slot m1 pg1 = Some (q, m2, pg2)" "page_free_slot_local p m2 pg2 = (m3, pg3)" "page_free_slot_local q m3 pg3 = (m4, pg4)"
      "p \<noteq> 0" "q \<noteq> 0" "pm_state pg4 = PAGE_ACTIVE" "page_is_empty pg4" "2 \<le> unat (pm_local_free_count pg4)"
    using relief_demo s t by (cases "page_free_slot_local q m3 pg3") simp
  have a: "page_ok m1 pg1" "page_live m1 pg1 = {p}" using page_alloc_ok [OF demo_page_ok(1), of "\<lambda>_. 0"] demo_page_ok(2) [of "\<lambda>_. 0"] r(1,5)
    by (auto simp: alloc_post_def split: if_splits)
  have b: "page_ok m2 pg2" "page_live m2 pg2 = {p, q}" "q \<noteq> p" using page_alloc_ok [OF a(1)] a(2) r(2,6)
    by (auto simp: alloc_post_def split: if_splits)
  have c: "page_ok m3 pg3" "page_live m3 pg3 = {q}" using free_local_ok(1,2) [OF b(1) _ r(3)] b(2,3) by auto
  have "page_ok m4 pg4" using free_local_ok(1) [OF c(1) _ r(4)] c(2) by simp
  moreover from this have "\<not> page_ok (h_mem (snd (relieve_pages (demo_env False) [pg4] 0 (zero_gstate\<lparr>h_mem := m4\<rparr>)))) pg4"
    using r(7-9) by (intro pressure_relief_breaks_page) (simp_all add: demo_env_def)
  ultimately show ?thesis using r(7,8) by blast
qed

end
