(* ===== verification/Memalign_Runs.thy ===== *)
theory Memalign_Runs
  imports Malloc_Api
begin

text \<open>
  Runs of the aligned allocation calls from the initial state, on the kernel of \<open>demo_env\<close>, that do not give
  what the caller asked for.
\<close>

section \<open>Requests the calls get wrong\<close>

text \<open>
  Two requests for 256 bytes at alignment 256: the slots of the bin chosen are 272 bytes long, so that the second block
  does not have the alignment asked for.
\<close>

lemma my_memalign_misaligned:
  "(case my_memalign (demo_env False) 0 256 256 zero_gstate of Inl _ \<Rightarrow> False
    | Inr (p, g) \<Rightarrow> (case my_memalign (demo_env False) 0 256 256 g of Inl _ \<Rightarrow> False
        | Inr (q, _) \<Rightarrow> p \<noteq> 0 \<and> q \<noteq> 0 \<and> p mod 256 = 0 \<and> q mod 256 = 16))"
  by code_simp

text \<open>
  A request for 40000 bytes at alignment 4096 is passed on by the slab path without its alignment: the block starts 48 bytes after a
  page boundary.
\<close>

lemma memalign_40000_run:
  "(case my_memalign (demo_env False) 0 4096 40000 zero_gstate of Inl _ \<Rightarrow> False
    | Inr (p, _) \<Rightarrow> p \<noteq> 0 \<and> p mod 4096 = 48)"
  by code_simp

text \<open>
  A request for no bytes at an alignment above the page size yields a pointer one past the mapping made for it: freeing the
  pointer leaves the block allocated.
\<close>

lemma my_memalign_zero_outside:
  "(case my_memalign (demo_env False) 0 131072 0 zero_gstate of Inl _ \<Rightarrow> False
    | Inr (p, g) \<Rightarrow> p \<noteq> 0 \<and> g_large_alloc_count g = 1 \<and>
        (case h_larges g (g_large_list g) of None \<Rightarrow> False | Some l \<Rightarrow> p = la_base l + la_size l) \<and>
        (case my_free (demo_env False) 0 p g of Inl _ \<Rightarrow> False | Inr g' \<Rightarrow> g_large_alloc_count g' = 1))"
  by code_simp

end
