(* ===== verification/Defect_Runs.thy ===== *)
theory Defect_Runs
  imports Demo_Heap Client_Runs Memalign_Runs
begin

unbundle bit_operations_syntax

text \<open>
  Where the code departs from what it means to do or from its documents: the alignment of requests between 32 and 128 KB, the statistics of large blocks after a
  reallocation in place, the choice of an arena after 2^31 threads, a call made while the allocator initialises itself, and the
  size from which requests are mapped directly.
\<close>

section \<open>Aligned requests above the slab limit\<close>

lemma large_alloc_offset:
  assumes "env_ok e" "large_alloc e sz g = Inr (p, g')" "p \<noteq> 0"
  shows "unat p mod unat (page_size e) = 48"
proof -
  obtain j where j: "12 \<le> j" "j \<le> 16" "page_size e = 2 ^ j" using env_ok_page [OF assms(1)] by blast
  have up: "align_up LARGE_HEADER_SIZE 16 = 48" by (simp add: LARGE_HEADER_SIZE_48 align_up_def)
  have lt: "(2::nat) ^ 6 < 2 ^ j" using j(1) by (intro power_strict_increasing) auto
  then have pg: "(2 ^ j :: u64) > 16" using j(2) by (simp add: word_less_nat_alt unat_pow2)
  obtain b g1 where m: "os_mmap_aligned e (align_up (48 + sz) (2 ^ j)) (2 ^ j) g = (b, g1)" by fastforce
  have b: "b \<noteq> 0" "p = b + 48"
    using assms(2,3) m pg by (auto simp: large_alloc_def large_alloc_aligned_def Let_def config_simps os_page_size_def j(3) up
        bindR_eq_Inr split: if_splits)
  then obtain n where n: "mmap_ret e (h_log g) n = Some b"
    using m j(3) by (auto simp: os_mmap_aligned_def sys_mmap_def split: option.splits)
  note q = env_ok_mmap(3,4) [OF assms(1) n]
  have u: "unat (b + 48) = unat b + 48" using q(2) by (subst unat_add_small) auto
  have "unat (page_size e) = 2 ^ j" using j by (simp add: unat_pow2)
  moreover have "2 ^ j dvd unat b" using q(1) calculation by (simp add: mod_0_imp_dvd)
  then have "(unat b + 48) mod 2 ^ j = 48 mod 2 ^ j" by (metis add.commute mod_add_right_eq dvd_imp_mod_0 add.right_neutral)
  ultimately show ?thesis using b(2) u lt by simp
qed

lemma class_above_half:
  assumes "tables_ok g" "32464 < unat s" "s \<le> MEDIUM_MAX"
  shows "bin_to_size g (size_to_bin g s) > PAGE_SIZE_ALLOC div 2"
proof -
  define r where "r = unat (size_to_bin g s)"
  have r: "r < 75" "unat s \<le> unat (bin_sizes ! r)" using size_to_bin_spec [OF assms(1,3) r_def] by auto
  have "\<forall>x \<in> set bin_sizes. 32464 < unat x \<longrightarrow> 32768 < unat x" by (simp add: bin_sizes_def)
  moreover have "bin_sizes ! r \<in> set bin_sizes" using r(1) by (simp add: bin_sizes_length)
  ultimately have "32768 < unat (bin_sizes ! r)" using r(2) assms(2) by auto
  then show ?thesis using bin_to_size_nat [OF assms(1)] r(1) by (simp add: r_def word_less_nat_alt config_simps)
qed

text \<open>
  C36. No aligned request that the slab path takes over above its limit is aligned. When the size, rounded up to the alignment, lies above the largest class of half a
  page and not above 128 KB, \<open>my_memalign\<close> hands it to \<open>slab_alloc\<close>, which hands it to \<open>large_alloc\<close> without the alignment: every pointer returned lies
  48 bytes after a page boundary, and so is no multiple of any alignment of 32 bytes or more.
\<close>

theorem my_memalign_drops_alignment:
  assumes "env_ok e" "heap_ok e g" "ids_ok t g" "next_ok t g" "is_pow2 al" "32 \<le> al" "al \<le> PAGE_SIZE_ALLOC" "sz \<le> MEDIUM_MAX"
    "32464 < align_up (max sz al) al" "align_up (max sz al) al \<le> MEDIUM_MAX" "my_memalign e t al sz g = Inr (p, g')" "p \<noteq> 0"
  shows "unat p mod unat (page_size e) = 48 \<and> unat p mod unat al \<noteq> 0"
proof -
  obtain g1 where g1: "malloc_ensure_init g = Inr g1" "heap_inv e g1" using ensure_init_ok [OF assms(2-4)] by blast
  define a where "a = align_up (max sz al) al"
  have v: "\<not> (al = 0 \<or> al AND (al - 1) \<noteq> 0)" using assms(5) by (simp add: is_pow2_def)
  have mx: "(if sz < al then al else sz) = max sz al" by (auto simp: max_def)
  have s: "slab_alloc e t a g1 = Inr (p, g')"
    using assms(6-8,10,11) unfolding my_memalign_def g1(1) bindR_simps if_not_P [OF v] mx a_def
    by (auto simp: Let_def config_simps not_less word_le_nat_alt word_less_nat_alt split: if_splits)
  have t: "bin_to_size g1 (size_to_bin g1 a) > PAGE_SIZE_ALLOC div 2"
    using assms(9,10) base_okD(2) [OF heap_invD(1) [OF g1(2)]] by (intro class_above_half) (auto simp: a_def word_less_nat_alt)
  have "a \<noteq> 0" "\<not> a > MEDIUM_MAX" using assms(9,10) by (auto simp: a_def)
  then have "large_alloc e a g1 = Inr (p, g')" using s t by (auto simp: slab_alloc_def slab_alloc_inner_def Let_def bindR_eq_Inr)
  from large_alloc_offset [OF assms(1) this assms(12)] have o: "unat p mod unat (page_size e) = 48" .
  obtain j k where j: "12 \<le> j" "page_size e = 2 ^ j" "j \<le> 16" and k: "k < 64" "al = 2 ^ k" using env_ok_page [OF assms(1)] is_pow2D [OF assms(5)] by blast
  have "unat p mod 32 = 16"
  proof -
    have "(32 :: nat) dvd 2 ^ j" using j(1) le_imp_power_dvd [of 5 j "2 :: nat"] by simp
    then have "unat p mod 2 ^ j mod 32 = unat p mod 32" by (rule mod_mod_cancel)
    then show ?thesis using o j by (simp add: unat_pow2)
  qed
  moreover have "(2 :: nat) ^ 5 \<le> 2 ^ k" using assms(6) k by (simp add: word_le_nat_alt unat_pow2)
  then have "(2 :: nat) ^ 5 dvd 2 ^ k" using power_increasing_iff [of "2 :: nat" 5 k] by (intro le_imp_power_dvd) simp
  then have "unat p mod 2 ^ k mod 32 = unat p mod 32" by (intro mod_mod_cancel) simp
  ultimately have "unat p mod unat al \<noteq> 0" using k by (auto simp: unat_pow2)
  then show ?thesis using o by simp
qed

theorem my_memalign_drops_alignment_witness:
  "\<exists>p g'. my_memalign (demo_env False) 0 4096 40000 zero_gstate = Inr (p, g') \<and> p \<noteq> 0 \<and> unat p mod unat (4096 :: u64) \<noteq> 0"
proof -
  obtain p g' where r: "my_memalign (demo_env False) 0 4096 40000 zero_gstate = Inr (p, g')" "p \<noteq> 0"
    using memalign_40000_run by (auto split: sum.splits)
  have c: "is_pow2 4096" "(32 :: u64) \<le> 4096" "(4096 :: u64) \<le> PAGE_SIZE_ALLOC" "(40000 :: u64) \<le> MEDIUM_MAX"
    "32464 < align_up (max 40000 4096 :: u64) 4096" "align_up (max 40000 4096 :: u64) 4096 \<le> MEDIUM_MAX"
    by (simp_all add: is_pow2_def config_simps align_up_def max_def)
  from my_memalign_drops_alignment [OF demo_env_ok zero_ok c r] show ?thesis using r by blast
qed

section \<open>Statistics of large blocks\<close>

text \<open>
  A large block of 200000 bytes shrunk in place to 140000 bytes and freed: \<open>large_allocated\<close> was raised by 200000 and lowered by
  140000, so the allocator reports 60000 bytes in use when no block is left.
\<close>

lemma large_stat_drift:
  "(case my_malloc (demo_env False) 0 200000 zero_gstate of Inl _ \<Rightarrow> False | Inr (p, g) \<Rightarrow>
    (case my_realloc (demo_env False) 0 p 140000 g of Inl _ \<Rightarrow> False | Inr (q, g) \<Rightarrow>
      (case my_free (demo_env False) 0 q g of Inl _ \<Rightarrow> False | Inr g \<Rightarrow>
        q = p \<and> g_large_list g = 0 \<and> g_large_alloc_count g = 0 \<and> g_large_allocated g = 60000)))"
  by code_simp

section \<open>The round-robin counter\<close>

text \<open>
  \<open>arena_next\<close> is a signed 32-bit counter that is never reset: once it has passed 2^31 the remainder of the division by the number of
  arenas is negative and the next new thread gets an arena before the start of the array.
\<close>

lemma arena_get_wraps:
  assumes "t_tld g t = Some d" "tl_arena d = None" "tl_self d \<noteq> 0" "g_arena_count g = 4" "g_arena_next g = 2147483649"
  shows "arena_get e t g = Inl (Out_of_bounds (- 3))"
proof -
  have "sint (2147483649 :: 32 word) smod sint (4 :: 32 word) = - 3" by code_simp
  then show ?thesis using assms by (simp add: arena_get_def tld_get_def Let_def)
qed

lemma arena_get_wraps_witness:
  "arena_get (demo_env False) 0 (zero_gstate\<lparr>t_tld := [0 \<mapsto> zero_tld 4096], g_arena_count := 4, g_arena_next := 2147483649\<rparr>) =
     Inl (Out_of_bounds (- 3))"
  by (rule arena_get_wraps [of _ _ "zero_tld 4096"]) (simp_all add: zero_tld_def)

section \<open>A call made during initialisation\<close>

text \<open>
  A call of \<open>my_malloc\<close> while \<open>malloc_init\<close> runs in the same thread is not served from the bootstrap buffer: it waits for the
  initialisation to end.
\<close>

lemma malloc_in_init_spins:
  assumes "g_initialized g = 1"
  shows "my_malloc e t sz g = Inl Diverges"
  using assms by (simp add: my_malloc_def malloc_ensure_init_def malloc_init_def Let_def)

section \<open>The slab limit\<close>

text \<open>A request of 32 KB falls into a class of more than half a page, which \<open>slab_alloc_inner\<close> hands to \<open>large_alloc\<close>.\<close>

lemma slab_limit_below_32k:
  "bin_to_size (size_class_init g) (size_to_bin (size_class_init g) 32768) = 36528 \<and> (36528 :: u64) > PAGE_SIZE_ALLOC div 2"
proof -
  have "size_to_bin (size_class_init g) 32768 = 63"
    using tables_ok_init [of g] by (simp add: size_to_bin_def tables_ok_def config_simps bin_sizes_def bin_search.simps)
  then show ?thesis
    using tables_ok_init [of g] by (simp add: bin_to_size_def tables_ok_def config_simps bin_sizes_def)
qed

end
