(* ===== verification/Api_Props.thy ===== *)
theory Api_Props
  imports Client_Demo Block_Store
begin

unbundle bit_operations_syntax

text \<open>
  The promises of the public calls and of every run of a client, stated over the live blocks of the heap.
\<close>

section \<open>Runs\<close>

text \<open>
  C3. Whatever calls the threads make, in any order, whatever the client stores in its blocks and whichever threads exit, the
  heap is untouched or satisfies the invariant of all its parts, with every lock free.
\<close>

theorem reachable_invariant:
  assumes "env_ok e" "reachable e g"
  shows "heap_ok e g"
  using assms by (rule reachable_ok)

theorem reachable_invariant_witness:
  "env_ok (demo_env False) \<and> (\<exists>p g. my_malloc (demo_env False) 0 100 zero_gstate = Inr (p, g) \<and> p \<noteq> 0 \<and>
     reachable (demo_env False) g \<and> heap_ok (demo_env False) g)"
proof -
  obtain p g where r: "my_malloc (demo_env False) 0 100 zero_gstate = Inr (p, g)" "p \<noteq> 0" by (rule demo_small)
  show ?thesis using r demo_env_ok demo_reachable [OF r(1), simplified] reachable_invariant [OF demo_env_ok demo_reachable [OF r(1), simplified]] by blast
qed

text \<open>
  C4. In every reachable state two live blocks never overlap, every byte of a block is mapped, and no block touches the
  bootstrap buffer, the record of a thread or the metadata of a segment.
\<close>

theorem reachable_blocks_apart:
  assumes "env_ok e" "reachable e g" "(s, n) \<in> blocks g"
  shows "(\<forall>s' n'. (s', n') \<in> blocks g \<longrightarrow> (s', n') \<noteq> (s, n) \<longrightarrow> span s n \<inter> span s' n' = {}) \<and>
    (\<forall>a \<in> span s n. mapped (h_log g) a) \<and>
    span s n \<inter> span (bootstrap_buf e) 65536 = {} \<and>
    (\<forall>t d. t_tld g t = Some d \<longrightarrow> span s n \<inter> span (tl_self d) (unat (page_size e)) = {}) \<and>
    (\<forall>c sg. h_segs g c = Some sg \<longrightarrow> span s n \<inter> span c 65536 = {})"
proof -
  have H: "heap_inv e g" using reachable_ok [OF assms(1,2)] pristine_blocks assms(3) by (auto simp: heap_ok_def)
  have "span s n \<inter> span s' n' = {}" if "(s', n') \<in> blocks g" "(s', n') \<noteq> (s, n)" for s' n'
    using blocks_apart [OF H assms(3) that(1)] that(2) by metis
  moreover obtain x where x: "span s n \<subseteq> region e g x" using block_region [OF H assms(3)] by blast
  then have "span s n \<inter> span (bootstrap_buf e) 65536 = {}" using layout_bootstrap [OF heap_invD(3) [OF H]] by blast
  moreover have "span s n \<inter> span (tl_self d) (unat (page_size e)) = {}" if "t_tld g t = Some d" for t d
    using block_off_tld [OF H assms(3), of t] that by simp
  ultimately show ?thesis using block_mapped [OF H assms(3)] block_off_header [OF H assms(3)] by blast
qed

theorem reachable_blocks_apart_witness:
  "\<exists>p g s n. my_malloc (demo_env False) 0 100 zero_gstate = Inr (p, g) \<and> reachable (demo_env False) g \<and> (s, n) \<in> blocks g \<and>
     (\<forall>a \<in> span s n. mapped (h_log g) a) \<and> span s n \<inter> span (bootstrap_buf (demo_env False)) 65536 = {}"
proof -
  obtain p g s n u where r: "my_malloc (demo_env False) 0 100 zero_gstate = Inr (p, g)" "usable g p s n u" by (rule demo_small)
  note D = demo_reachable [OF r(1), simplified] and b = usableD(2) [OF r(2)]
  show ?thesis using r D b reachable_blocks_apart [OF demo_env_ok D b] by blast
qed

text \<open>
  C5. In every reachable state each legal call returns: no call dereferences a bad pointer, indexes out of bounds, waits for
  a lock forever, loops forever or is stopped by a check of the debug mode.
\<close>

theorem reachable_calls_return:
  assumes "env_ok e" "reachable e g" "ids_ok t g" "next_ok t g"
  shows "(\<forall>sz. unat sz + 262176 \<le> 2 ^ 64 \<longrightarrow> (\<exists>p g'. my_malloc e t sz g = Inr (p, g'))) \<and>
    (\<forall>count sz. unat count * unat sz + 262176 \<le> 2 ^ 64 \<or> 2 ^ 64 \<le> unat count * unat sz \<longrightarrow> (\<exists>p g'. my_calloc e t count sz g = Inr (p, g'))) \<and>
    (\<forall>p s n u. usable g p s n u \<longrightarrow> findable g p \<longrightarrow>
       (\<exists>g'. my_free e t p g = Inr g') \<and>
       (\<forall>sz. unat sz + 262176 \<le> 2 ^ 64 \<longrightarrow> (\<exists>q g'. my_realloc e t p sz g = Inr (q, g'))))"
proof -
  note H = reachable_ok [OF assms(1,2)]
  have "\<exists>p g'. my_malloc e t sz g = Inr (p, g')" if "unat sz + 262176 \<le> 2 ^ 64" for sz
    using my_malloc_ok [OF assms(1) H assms(3,4) that] by blast
  moreover have "\<exists>p g'. my_calloc e t count sz g = Inr (p, g')"
    if "unat count * unat sz + 262176 \<le> 2 ^ 64 \<or> 2 ^ 64 \<le> unat count * unat sz" for count sz
    using that my_calloc_ok [OF assms(1) H assms(3,4), of count sz] my_calloc_overflow [of count sz e t g] by blast
  moreover have "(\<exists>g'. my_free e t p g = Inr g') \<and> (\<forall>sz. unat sz + 262176 \<le> 2 ^ 64 \<longrightarrow> (\<exists>q g'. my_realloc e t p sz g = Inr (q, g')))"
    if u: "usable g p s n u" "findable g p" for p s n u
  proof -
    have I: "heap_inv e g" "unlocked g" using heap_ok_not_pristine [OF H u(1)] by auto
    have "\<exists>g'. my_free e t p g = Inr g'" using my_free_ok [OF assms(1) I assms(3) usableD(1) [OF u(1)] u(2)] by blast
    moreover have "\<exists>q g'. my_realloc e t p sz g = Inr (q, g')" if "unat sz + 262176 \<le> 2 ^ 64" for sz
      using my_realloc_zero [OF assms(1) I assms(3) u] my_realloc_ok [OF assms(1) I assms(3,4) u _ that] by (cases "sz = 0") blast+
    ultimately show ?thesis by blast
  qed
  ultimately show ?thesis by blast
qed

theorem reachable_calls_return_witness:
  "\<exists>p g g'. my_malloc (demo_env False) 0 100 zero_gstate = Inr (p, g) \<and> reachable (demo_env False) g \<and> p \<noteq> 0 \<and>
     my_free (demo_env False) 0 p g = Inr g'"
proof -
  obtain p g s n u where r: "my_malloc (demo_env False) 0 100 zero_gstate = Inr (p, g)" "ids_ok 0 g" "next_ok 0 g" "usable g p s n u" "findable g p" "p \<noteq> 0"
    by (rule demo_small)
  show ?thesis using r demo_reachable [OF r(1), simplified] reachable_calls_return [OF demo_env_ok demo_reachable [OF r(1), simplified] r(2,3)] by blast
qed

text \<open>
  C10. Two threads never have the same page in their caches, so that the lists a thread works on without a lock
  are its own.
\<close>

theorem reachable_caches_exclusive:
  assumes "env_ok e" "reachable e g" "t_tld g t = Some d" "t_tld g t' = Some d'" "t \<noteq> t'"
    "i < 75" "j < 75" "tl_bin_page d ! i = Some pp"
  shows "tl_bin_page d' ! j \<noteq> Some pp"
proof
  assume p: "tl_bin_page d' ! j = Some pp"
  have H: "heap_inv e g" using reachable_ok [OF assms(1,2)] assms(3) by (auto simp: heap_ok_def pristine_def)
  note h = heap_invD [OF H]
  obtain pg where "active (h_segs g) pp pg" "pm_owner_tid pg = tl_thread_id d" using tld_okD(6) [OF h(7) [OF assms(3)] assms(6,8)] by blast
  moreover obtain pg' where "active (h_segs g) pp pg'" "pm_owner_tid pg' = tl_thread_id d'" using tld_okD(6) [OF h(7) [OF assms(4)] assms(7) p] by blast
  ultimately show False using owners_okD(4) [OF h(8) assms(3-5)] by (simp add: active_def)
qed

theorem reachable_caches_exclusive_witness:
  "\<exists>g d d' i pp. reachable (demo_env False) g \<and> t_tld g 0 = Some d \<and> t_tld g 1 = Some d' \<and> i < 75 \<and>
     tl_bin_page d ! i = Some pp \<and> tl_bin_page d' ! i \<noteq> Some pp"
proof -
  obtain g d d' i pp where r: "reachable (demo_env False) g" "t_tld g 0 = Some d" "t_tld g 1 = Some d'" "i < 75" "tl_bin_page d ! i = Some pp"
    by (rule demo_two)
  have "(0 :: nat) \<noteq> 1" by simp
  from reachable_caches_exclusive [OF demo_env_ok r(1-3) this r(4,4,5)] show ?thesis using r by blast
qed

text \<open>Parts of the next property: what the invariant says of a page in use and of the record of a thread.\<close>

lemma active_page_typed:
  assumes H: "heap_inv e g" and a: "active (h_segs g) pp pg"
  shows "unat (pm_bin_idx pg) < 75" "pm_slot_size pg = of_nat (bin_slot (pm_bin_idx pg))" "unat (pm_used pg) \<le> unat (pm_capacity pg)"
    "pm_bump_offset pg \<le> pm_bump_end pg" "\<And>x. pm_arena pg = Some x \<Longrightarrow> x < 4" "malloc_debug e \<Longrightarrow> length (pm_debug_bitmap pg) = 512"
    "pm_owner_tid pg = UINT32_MAX \<or> pm_owner_tid pg < t_thread_id_counter g"
proof -
  note h = heap_invD [OF H] and I = page_invD [OF activeD(3) [OF heap_invD(4) [OF H] a]]
  show "unat (pm_bin_idx pg) < 75" using I(4) by (simp add: bin_small_def)
  show "pm_slot_size pg = of_nat (bin_slot (pm_bin_idx pg))" unfolding I(5) [symmetric] by simp
  have "card (page_live (h_mem g) pg) \<le> card (all_slots pg)"
    using page_live_slots [OF I(1)] by (intro card_mono) (simp_all add: all_slots_def)
  then show "unat (pm_used pg) \<le> unat (pm_capacity pg)" using card_page_live [OF I(1)] card_all_slots [OF I(6)] by simp
  show "pm_bump_offset pg \<le> pm_bump_end pg" by (rule page_geomD(7) [OF I(6)])
  show "pm_arena pg = Some x \<Longrightarrow> x < 4" for x using owners_okD(2) [OF h(8) a] by blast
  show "malloc_debug e \<Longrightarrow> length (pm_debug_bitmap pg) = 512" using I(2) by (simp add: dbg_ok_def)
  show "pm_owner_tid pg = UINT32_MAX \<or> pm_owner_tid pg < t_thread_id_counter g" using owners_okD(1) [OF h(8) a] .
qed

text \<open>
  C19. Every pointer and index the allocator follows leads to an object of its kind, in every reachable state after initialisation. The arrays
  of the global state, of the arenas, of the segments, of the threads and (in debug mode) of the pages in use have their declared lengths; every page record names
  its own segment and place in it; a page in use has a class in range and the slot size of that class, counters within their limits, an arena in range and an owner that
  is a thread number already given out or none; the head of every bin of the four arenas is followed, in both directions, by pages in use of that arena and class;
  the segments on an arena's list are segments of that arena; every registered address is a segment; the list of large blocks runs, in both directions, through exactly
  the large blocks; a thread's arena is in range, its number was given out, and the page it caches for a class is a page in use of that class which it owns.
\<close>

theorem reachable_well_typed:
  assumes "env_ok e" "reachable e g" "malloc_is_initialized g"
  shows "length (g_arenas g) = 64 \<and> length (g_registry g) = 256 \<and> length (g_bin_size g) = 75 \<and> length (g_size_to_bin_small g) = 17 \<and> g_arena_count g = 4 \<and>
    (\<forall>a < 64. length (ar_bins (g_arenas g ! a)) = 75) \<and>
    (\<forall>b sg. h_segs g b = Some sg \<longrightarrow> length (sg_pages sg) = 64 \<and>
       (\<forall>i < 64. pm_segment (sg_pages sg ! i) = b \<and> unat (pm_page_index (sg_pages sg ! i)) = i)) \<and>
    (\<forall>pp pg. active (h_segs g) pp pg \<longrightarrow> unat (pm_bin_idx pg) < 75 \<and> pm_slot_size pg = of_nat (bin_slot (pm_bin_idx pg)) \<and>
       unat (pm_used pg) \<le> unat (pm_capacity pg) \<and> pm_bump_offset pg \<le> pm_bump_end pg \<and> (\<forall>a. pm_arena pg = Some a \<longrightarrow> a < 4) \<and>
       (malloc_debug e \<longrightarrow> length (pm_debug_bitmap pg) = 512) \<and> (pm_owner_tid pg = UINT32_MAX \<or> pm_owner_tid pg < t_thread_id_counter g)) \<and>
    (\<forall>a < 4. (\<forall>bin. unat bin < 75 \<longrightarrow> (\<exists>xs. dll (bin_head a bin g) (bin_nxt g) (bin_prv g) (bin_node a bin g) xs)) \<and>
       (\<exists>bs. seg_path a (h_segs g) (ar_segments (g_arenas g ! a)) bs)) \<and>
    reg_set (g_registry g) \<subseteq> dom (h_segs g) \<and>
    (\<exists>xs. dll (large_head g) (large_nxt g) (large_prv g) (large_node g) xs \<and> set xs = dom (h_larges g)) \<and>
    (\<forall>t d. t_tld g t = Some d \<longrightarrow> length (tl_bin_page d) = 75 \<and> (\<forall>a. tl_arena d = Some a \<longrightarrow> a < 4) \<and> tl_thread_id d < t_thread_id_counter g \<and>
       (\<forall>i < 75. \<forall>pp. tl_bin_page d ! i = Some pp \<longrightarrow>
          (\<exists>pg. active (h_segs g) pp pg \<and> unat (pm_bin_idx pg) = i \<and> pm_owner_tid pg = tl_thread_id d)))"
proof -
  have "\<not> pristine g" using assms(3) by (auto simp: pristine_def malloc_is_initialized_def)
  then have H: "heap_inv e g" using reachable_ok [OF assms(1,2)] by (simp add: heap_ok_def)
  note h = heap_invD [OF H] and B = base_okD [OF heap_invD(1) [OF H]]
  have "length (g_bin_size g) = 75" "length (g_size_to_bin_small g) = 17"
    using B(2) by (simp_all add: tables_ok_def bin_sizes_length small_lookup_def config_simps)
  moreover have "length (g_registry g) = 256" "reg_set (g_registry g) \<subseteq> dom (h_segs g)" using h(2) reg_ok_length by (auto simp: registry_ok_def)
  moreover have "length (sg_pages sg) = 64 \<and> (\<forall>i < 64. pm_segment (sg_pages sg ! i) = b \<and> unat (pm_page_index (sg_pages sg ! i)) = i)"
    if sg: "h_segs g b = Some sg" for b sg
  proof -
    have l: "length (sg_pages sg) = 64" using segs_ok_hdr [OF h(4) sg] by (simp add: seg_hdr_ok_def)
    have "page_wf e (h_mem g) (b, i) (sg_pages sg ! i)" if "i < 64" for i
      using segs_ok_wf [OF h(4), of "(b, i)" "sg_pages sg ! i"] sg l that by (simp add: pg_at_def)
    then show ?thesis using l by (auto simp: page_wf_def unat_of_nat_index)
  qed
  moreover have "\<exists>xs. dll (large_head g) (large_nxt g) (large_prv g) (large_node g) xs \<and> set xs = dom (h_larges g)"
    using h(6) unfolding large_ok_def by blast
  ultimately show ?thesis
    using B(3-5) h(5) [unfolded arena_ok_def] tld_okD(3-6) [OF h(7)] active_page_typed [OF H]
    by (intro conjI allI impI; (assumption | blast | simp))
qed

theorem reachable_well_typed_witness:
  "\<exists>p g. my_malloc (demo_env False) 0 100 zero_gstate = Inr (p, g) \<and> reachable (demo_env False) g \<and> malloc_is_initialized g \<and>
     length (g_arenas g) = 64"
proof -
  obtain p g where r: "my_malloc (demo_env False) 0 100 zero_gstate = Inr (p, g)" "heap_inv (demo_env False) g" by (rule demo_small)
  have i: "malloc_is_initialized g" using base_okD(1) [OF heap_invD(1) [OF r(2)]] by (simp add: malloc_is_initialized_def)
  from reachable_well_typed [OF demo_env_ok demo_reachable [OF r(1), simplified] i] show ?thesis
    using r(1) i demo_reachable [OF r(1), simplified] by simp
qed

section \<open>Calls\<close>

text \<open>
  C1. \<open>my_malloc\<close> always returns. It gives NULL and leaves every block as it was, or it adds one block: aligned to 16 bytes,
  with room for the size asked for (one byte for a request of none), apart from every block that was live. No byte of a live block changes.
\<close>

theorem my_malloc_spec:
  assumes "env_ok e" "heap_ok e g" "ids_ok t g" "next_ok t g" "unat sz + 262176 \<le> 2 ^ 64"
  shows "\<exists>p g'. my_malloc e t sz g = Inr (p, g') \<and> heap_inv e g' \<and> unlocked g' \<and>
    (p = 0 \<and> blocks g' = blocks g \<or>
     p \<noteq> 0 \<and> unat p mod 16 = 0 \<and>
       (\<exists>s n u. blocks g' = insert (s, n) (blocks g) \<and> (\<forall>s' n'. (s', n') \<in> blocks g \<longrightarrow> span s n \<inter> span s' n' = {}) \<and>
          usable g' p s n u \<and> max 1 (unat sz) \<le> u)) \<and>
    (\<forall>s n x. (s, n) \<in> blocks g \<longrightarrow> unat x \<in> span s n \<longrightarrow> h_mem g' x = h_mem g x)"
proof -
  obtain p g' where r: "my_malloc e t sz g = Inr (p, g')" "alloc_ok e t g (max 1 (unat sz)) p g'"
    using my_malloc_ok [OF assms] by (auto simp: room_for_def)
  show ?thesis by (rule exI [of _ p], rule exI [of _ g'], rule conjI [OF r(1) alloc_okD [OF r(2)]])
qed

theorem my_malloc_spec_witness:
  "heap_ok (demo_env False) zero_gstate \<and> ids_ok 0 zero_gstate \<and> next_ok 0 zero_gstate \<and>
   (\<exists>p g s n u. my_malloc (demo_env False) 0 100 zero_gstate = Inr (p, g) \<and> unat p mod 16 = 0 \<and> blocks g = {(s, n)} \<and> usable g p s n u \<and> 100 \<le> u)"
proof -
  have b: "blocks zero_gstate = {}" by (rule pristine_blocks [OF pristine_zero])
  obtain p g where r: "my_malloc (demo_env False) 0 100 zero_gstate = Inr (p, g)" "p \<noteq> 0" by (rule demo_small)
  have "unat (100 :: u64) + 262176 \<le> 2 ^ 64" by simp
  from my_malloc_spec [OF demo_env_ok zero_ok this, of False 0]
  obtain s n u where "unat p mod 16 = 0" "blocks g = {(s, n)}" "usable g p s n u" "100 \<le> u"
    unfolding r(1) b by (elim exE conjE disjE) (use r(2) in simp_all)
  then show ?thesis using r(1) zero_ok by (intro conjI exI) auto
qed

text \<open>
  C2. Freeing a pointer the client holds, by whichever thread, returns and takes exactly its block away; the bytes of every other
  block are kept. A null pointer and a pointer into the bootstrap buffer are ignored.
\<close>

theorem my_free_spec:
  assumes "env_ok e" "heap_inv e g" "unlocked g" "ids_ok t g" "usable g p s n u" "findable g p"
  shows "(\<exists>g'. my_free e t p g = Inr g' \<and> heap_inv e g' \<and> unlocked g' \<and> (s, n) \<in> blocks g \<and> blocks g' = blocks g - {(s, n)} \<and>
      (\<forall>s' n' x. (s', n') \<in> blocks g' \<longrightarrow> unat x \<in> span s' n' \<longrightarrow> h_mem g' x = h_mem g x)) \<and>
    my_free e t 0 g = Inr g \<and> (\<forall>q. in_bootstrap e q \<longrightarrow> my_free e t q g = Inr g)"
proof -
  obtain g' where g': "my_free e t p g = Inr g'" "heap_inv e g'" "unlocked g'" "drops g s n g'"
    using my_free_ok [OF assms(1-4) usableD(1) [OF assms(5)] assms(6)] by blast
  then have "(s, n) \<in> blocks g" "blocks g' = blocks g - {(s, n)}"
    "\<forall>s' n' x. (s', n') \<in> blocks g' \<longrightarrow> unat x \<in> span s' n' \<longrightarrow> h_mem g' x = h_mem g x" unfolding drops_def by blast+
  moreover have "my_free e t 0 g = Inr g" "\<forall>q. in_bootstrap e q \<longrightarrow> my_free e t q g = Inr g" by (simp_all add: my_free_def)
  ultimately show ?thesis using g' by blast
qed

theorem my_free_spec_witness:
  "\<exists>p g s n u g'. my_malloc (demo_env False) 0 100 zero_gstate = Inr (p, g) \<and> usable g p s n u \<and> findable g p \<and>
     my_free (demo_env False) 0 p g = Inr g' \<and> blocks g' = blocks g - {(s, n)} \<and> (s, n) \<in> blocks g"
proof -
  obtain p g s n u where r: "my_malloc (demo_env False) 0 100 zero_gstate = Inr (p, g)" "heap_inv (demo_env False) g" "unlocked g"
    "ids_ok 0 g" "usable g p s n u" "findable g p" by (rule demo_small)
  obtain g' where "my_free (demo_env False) 0 p g = Inr g'" "(s, n) \<in> blocks g" "blocks g' = blocks g - {(s, n)}"
    using my_free_spec [OF demo_env_ok r(2-6)] by blast
  then show ?thesis using r(1,5,6) by blast
qed

text \<open>
  C11. Freeing what \<open>my_malloc\<close>, \<open>my_calloc\<close> or \<open>my_memalign\<close> has just returned gives back the live blocks of before, with their contents.
\<close>

theorem malloc_free_roundtrip:
  assumes "env_ok e" "heap_ok e g" "ids_ok t g" "next_ok t g"
    "unat sz + 262176 \<le> 2 ^ 64 \<and> my_malloc e t sz g = Inr (p, g1) \<or>
     unat count * unat sz + 262176 \<le> 2 ^ 64 \<and> my_calloc e t count sz g = Inr (p, g1) \<or>
     is_pow2 al \<and> 0 < unat sz \<and> unat sz + 2 * unat al + 262176 \<le> 2 ^ 64 \<and> my_memalign e t al sz g = Inr (p, g1)"
    "p \<noteq> 0" "findable g1 p"
  shows "\<exists>g2. my_free e t p g1 = Inr g2 \<and> blocks g2 = blocks g \<and>
    (\<forall>s n x. (s, n) \<in> blocks g \<longrightarrow> unat x \<in> span s n \<longrightarrow> h_mem g2 x = h_mem g x)"
proof -
  have m: "fits \<Longrightarrow> call_may e t fits g" for fits using assms(1-4) by (simp add: call_may_def)
  have "\<exists>g2. my_free e t p g1 = Inr g2 \<and> call_ok e t g2 \<and> blocks g2 = blocks g \<and> (\<forall>c \<in> blocks g. bytes g2 c = bytes g c)"
    using assms(5) malloc.acquire_release [OF m _ assms(6,7)] calloc.acquire_release [OF m _ assms(6,7)]
      memalign.acquire_release [OF m _ assms(6,7)] by blast
  then show ?thesis unfolding bytes_iff by blast
qed

theorem malloc_free_roundtrip_witness:
  "\<exists>p g g2. my_malloc (demo_env False) 0 100 zero_gstate = Inr (p, g) \<and> p \<noteq> 0 \<and> findable g p \<and>
     my_free (demo_env False) 0 p g = Inr g2 \<and> blocks g2 = {}"
proof -
  obtain p g where r: "my_malloc (demo_env False) 0 100 zero_gstate = Inr (p, g)" "p \<noteq> 0" "findable g p" by (rule demo_small)
  have "unat (100 :: u64) + 262176 \<le> 2 ^ 64" by simp
  from malloc_free_roundtrip [OF demo_env_ok zero_ok disjI1 [OF conjI [OF this r(1)]] r(2,3)] show ?thesis
    using r pristine_blocks [OF pristine_zero] by auto
qed

end
