(* ===== verification/Api_Props2.thy ===== *)
theory Api_Props2
  imports Client_Demo
begin

unbundle bit_operations_syntax

text \<open>
  The promises of zeroed, repeated and aligned allocation and of the usable size.
\<close>

section \<open>Zeroed allocation\<close>

text \<open>
  C7. \<open>my_calloc\<close> returns NULL with every block as it was, or a fresh block with room for \<open>count * sz\<close> bytes, all of them zero;
  no byte of a live block changes.
\<close>

theorem my_calloc_spec:
  assumes "env_ok e" "heap_ok e g" "ids_ok t g" "next_ok t g" "unat count * unat sz + 262176 \<le> 2 ^ 64"
  shows "\<exists>p g'. my_calloc e t count sz g = Inr (p, g') \<and>
    (p \<noteq> 0 \<longrightarrow> (\<forall>x. unat p \<le> unat x \<and> unat x < unat p + max 1 (unat count * unat sz) \<longrightarrow> h_mem g' x = 0)) \<and>
    heap_inv e g' \<and> unlocked g' \<and>
    (p = 0 \<and> blocks g' = blocks g \<or>
     p \<noteq> 0 \<and> unat p mod 16 = 0 \<and>
       (\<exists>s n u. blocks g' = insert (s, n) (blocks g) \<and> (\<forall>s' n'. (s', n') \<in> blocks g \<longrightarrow> span s n \<inter> span s' n' = {}) \<and>
          usable g' p s n u \<and> max 1 (unat count * unat sz) \<le> u)) \<and>
    (\<forall>s n x. (s, n) \<in> blocks g \<longrightarrow> unat x \<in> span s n \<longrightarrow> h_mem g' x = h_mem g x)"
proof -
  obtain p g' where r: "my_calloc e t count sz g = Inr (p, g')" "alloc_ok e t g (max 1 (unat count * unat sz)) p g'"
      "p \<noteq> 0 \<longrightarrow> zeroed_at g' p (max 1 (unat count * unat sz))"
    using my_calloc_ok [OF assms] by (elim exE conjE) (rule that)
  have z: "p \<noteq> 0 \<longrightarrow> (\<forall>x. unat p \<le> unat x \<and> unat x < unat p + max 1 (unat count * unat sz) \<longrightarrow> h_mem g' x = 0)"
    using r(3) by (simp add: zeroed_at_def)
  show ?thesis by (rule exI [of _ p], rule exI [of _ g'], rule conjI [OF r(1) conjI [OF z alloc_okD [OF r(2)]]])
qed

theorem my_calloc_spec_witness:
  "heap_ok (demo_env False) zero_gstate \<and> ids_ok 0 zero_gstate \<and> next_ok 0 zero_gstate \<and>
   (\<exists>p g. my_calloc (demo_env False) 0 3 40 zero_gstate = Inr (p, g) \<and> heap_inv (demo_env False) g \<and>
      (p \<noteq> 0 \<longrightarrow> (\<forall>x. unat p \<le> unat x \<and> unat x < unat p + 120 \<longrightarrow> h_mem g x = 0)))"
proof -
  have s: "unat (3 :: u64) * unat (40 :: u64) + 262176 \<le> 2 ^ 64" "max 1 (unat (3 :: u64) * unat (40 :: u64)) = 120" by simp_all
  obtain p g where "my_calloc (demo_env False) 0 3 40 zero_gstate = Inr (p, g)" "heap_inv (demo_env False) g"
      "p \<noteq> 0 \<longrightarrow> (\<forall>x. unat p \<le> unat x \<and> unat x < unat p + 120 \<longrightarrow> h_mem g x = 0)"
    using my_calloc_spec [OF demo_env_ok zero_ok s(1), of False 0] unfolding s(2) by (elim exE conjE) (rule that)
  then show ?thesis using zero_ok by blast
qed

text \<open>
  C34. When \<open>count * sz\<close> does not fit in 64 bits, \<open>my_calloc\<close> returns NULL, sets \<open>errno\<close> of the calling thread to \<open>ENOMEM\<close> and changes
  nothing else.
\<close>

theorem my_calloc_enomem:
  assumes "2 ^ 64 \<le> unat count * unat sz"
  shows "my_calloc e t count sz g = Inr (0, g\<lparr>t_errno := (t_errno g)(t := 12)\<rparr>)"
  using my_calloc_overflow [OF assms] by (simp add: set_errno_def ENOMEM_def)

theorem my_calloc_enomem_witness:
  "2 ^ 64 \<le> unat (4294967296 :: u64) * unat (4294967296 :: u64) \<and>
   my_calloc (demo_env False) 0 4294967296 4294967296 zero_gstate = Inr (0, zero_gstate\<lparr>t_errno := (t_errno zero_gstate)(0 := 12)\<rparr>)"
proof -
  have h: "2 ^ 64 \<le> unat (4294967296 :: u64) * unat (4294967296 :: u64)" by simp
  show ?thesis using h my_calloc_enomem [OF h, of "demo_env False" 0 zero_gstate] by simp
qed

section \<open>Reallocation\<close>

text \<open>
  C6. Reallocating a held block of \<open>u\<close> usable bytes returns. A size of 0 frees the block and returns NULL; the other blocks stay, with
  their bytes. For any other size NULL leaves every block as it was, the old one included, with all its bytes. Otherwise the new pointer has room
  for \<open>sz\<close> bytes, is the old one or a multiple of 16, the first \<open>min u sz\<close> bytes behind it are those of the old block, the new block takes the
  place of the old one, and the other blocks keep their bytes and do not overlap it.
\<close>

theorem my_realloc_spec:
  assumes "env_ok e" "heap_inv e g" "unlocked g" "ids_ok t g" "next_ok t g" "usable g p s n u" "findable g p" "unat sz + 262176 \<le> 2 ^ 64"
  shows "\<exists>q g'. my_realloc e t p sz g = Inr (q, g') \<and> heap_inv e g' \<and> unlocked g' \<and>
    (if sz = 0 then
       q = 0 \<and> blocks g' = blocks g - {(s, n)} \<and>
       (\<forall>s' n' x. (s', n') \<in> blocks g' \<longrightarrow> unat x \<in> span s' n' \<longrightarrow> h_mem g' x = h_mem g x)
     else if q = 0 then
       blocks g' = blocks g \<and> usable g' p s n u \<and>
       (\<forall>s' n' x. (s', n') \<in> blocks g \<longrightarrow> unat x \<in> span s' n' \<longrightarrow> h_mem g' x = h_mem g x)
     else (q = p \<or> unat q mod 16 = 0) \<and> (\<forall>i < min u (unat sz). h_mem g' (q + of_nat i) = h_mem g (p + of_nat i)) \<and>
       (\<exists>s' n' u'. blocks g' = insert (s', n') (blocks g - {(s, n)}) \<and> usable g' q s' n' u' \<and> unat sz \<le> u' \<and>
          (\<forall>s'' n'' x. (s'', n'') \<in> blocks g - {(s, n)} \<longrightarrow> unat x \<in> span s'' n'' \<longrightarrow> h_mem g' x = h_mem g x \<and> unat x \<notin> span s' n')))"
proof (cases "sz = 0")
  case True
  obtain g' where g': "my_realloc e t p 0 g = Inr (0, g')" "heap_inv e g'" "unlocked g'" "drops g s n g'"
    using my_realloc_zero [OF assms(1-4,6,7)] by blast
  have "blocks g' = blocks g - {(s, n)}" "\<forall>s' n' x. (s', n') \<in> blocks g' \<longrightarrow> unat x \<in> span s' n' \<longrightarrow> h_mem g' x = h_mem g x"
    using g'(4) unfolding drops_def by blast+
  then show ?thesis unfolding True using g'(1-3) by (intro exI [of _ 0] exI [of _ g']) (simp del: span_iff)
next
  case sz: False
  obtain q g' where r: "my_realloc e t p sz g = Inr (q, g')" "realloc_ok e t g p s n u (unat sz) q g'"
    using my_realloc_ok [OF assms(1-7) sz assms(8)] by blast
  then have I: "heap_inv e g'" "unlocked g'" by (simp_all add: realloc_ok_def)
  show ?thesis
  proof (cases "q = 0")
    case True
    then have Q: "quiet g g'" using r(2) by (simp add: realloc_ok_def)
    have "blocks g' = blocks g" "usable g' p s n u" using quiet_blocks [OF Q] usable_quiet [OF Q] assms(6) by simp_all
    moreover have "\<forall>s' n' x. (s', n') \<in> blocks g \<longrightarrow> unat x \<in> span s' n' \<longrightarrow> h_mem g' x = h_mem g x"
      using Q unfolding quiet_def keeps_def by blast
    ultimately show ?thesis using r(1) I True sz by (intro exI [of _ q] exI [of _ g']) (simp del: span_iff)
  next
    case False
    define al where "al \<longleftrightarrow> q = p \<or> unat q mod 16 = 0"
    from False obtain s' n' u' where w: "swaps g s n s' n' g'" "usable g' q s' n' u'" "unat sz \<le> u'" al
        "\<forall>i < min u (unat sz). h_mem g' (q + of_nat i) = h_mem g (p + of_nat i)"
      using r(2) unfolding realloc_ok_def al_def [symmetric] by blast
    have "blocks g' = insert (s', n') (blocks g - {(s, n)})"
      "\<forall>s'' n'' x. (s'', n'') \<in> blocks g - {(s, n)} \<longrightarrow> unat x \<in> span s'' n'' \<longrightarrow> h_mem g' x = h_mem g x \<and> unat x \<notin> span s' n'"
      using w(1) unfolding swaps_def by blast+
    then have "\<exists>s' n' u'. blocks g' = insert (s', n') (blocks g - {(s, n)}) \<and> usable g' q s' n' u' \<and> unat sz \<le> u' \<and>
        (\<forall>s'' n'' x. (s'', n'') \<in> blocks g - {(s, n)} \<longrightarrow> unat x \<in> span s'' n'' \<longrightarrow> h_mem g' x = h_mem g x \<and> unat x \<notin> span s' n')"
      using w(2,3) by blast
    then show ?thesis unfolding if_not_P [OF sz]
      by (intro exI [of _ q] exI [of _ g'], unfold if_not_P [OF False], intro conjI) (rule r(1) I w(5) w(4) [unfolded al_def] | assumption)+
  qed
qed

theorem my_realloc_spec_witness:
  "\<exists>p g s n u q g'. my_malloc (demo_env False) 0 100 zero_gstate = Inr (p, g) \<and> usable g p s n u \<and> findable g p \<and>
     my_realloc (demo_env False) 0 p 5000 g = Inr (q, g') \<and>
     (q \<noteq> 0 \<longrightarrow> (\<forall>i < min u 5000. h_mem g' (q + of_nat i) = h_mem g (p + of_nat i))) \<and> (q = 0 \<longrightarrow> blocks g' = blocks g)"
proof -
  obtain p g s n u where r: "my_malloc (demo_env False) 0 100 zero_gstate = Inr (p, g)" "heap_inv (demo_env False) g" "unlocked g"
    "ids_ok 0 g" "next_ok 0 g" "usable g p s n u" "findable g p" by (rule demo_small)
  have s: "(5000 :: u64) \<noteq> 0" "unat (5000 :: u64) + 262176 \<le> 2 ^ 64" "unat (5000 :: u64) = 5000" by simp_all
  obtain q g' where "my_realloc (demo_env False) 0 p 5000 g = Inr (q, g')"
      "q \<noteq> 0 \<longrightarrow> (\<forall>i < min u 5000. h_mem g' (q + of_nat i) = h_mem g (p + of_nat i))" "q = 0 \<longrightarrow> blocks g' = blocks g"
    using my_realloc_spec [OF demo_env_ok r(2-7) s(2)] unfolding s(3) if_not_P [OF s(1)] by (metis (no_types))
  then show ?thesis using r by blast
qed

text \<open>
  C22. The usable size of a held pointer is at least the size that was asked for, and asking for it changes nothing.
\<close>

theorem usable_size_covers_request:
  assumes "env_ok e" "heap_ok e g" "ids_ok t g" "next_ok t g" "unat sz + 262176 \<le> 2 ^ 64"
    "my_malloc e t sz g = Inr (p, g1)" "p \<noteq> 0" "findable g1 p"
  shows "\<exists>u. my_malloc_usable_size p g1 = Inr (u, g1) \<and> sz \<le> u"
proof -
  obtain s n u where a: "heap_inv e g1" "unlocked g1" "usable g1 p s n u" "room_for sz \<le> u"
    using my_malloc_ok [OF assms(1-5)] assms(6,7) by (auto simp: alloc_ok_def)
  have "u < 2 ^ 64" using usable_fits [OF a(1,3)] by simp
  then have "unat (of_nat u :: u64) = u" by (simp add: unat_of_nat)
  then have "sz \<le> of_nat u" using a(4) by (simp add: word_le_nat_alt room_for_def)
  then show ?thesis using my_malloc_usable_size_ok [OF a(1-3) assms(8)] by blast
qed

theorem usable_size_covers_request_witness:
  "\<exists>p g u. my_malloc (demo_env False) 0 100 zero_gstate = Inr (p, g) \<and> p \<noteq> 0 \<and> my_malloc_usable_size p g = Inr (u, g) \<and> 100 \<le> u"
proof -
  obtain p g where r: "my_malloc (demo_env False) 0 100 zero_gstate = Inr (p, g)" "p \<noteq> 0" "findable g p" by (rule demo_small)
  have "unat (100 :: u64) + 262176 \<le> 2 ^ 64" by simp
  from usable_size_covers_request [OF demo_env_ok zero_ok this r] show ?thesis using r by blast
qed

section \<open>Aligned allocation\<close>

text \<open>
  C13. \<open>my_memalign\<close> with an alignment that is not a power of two returns NULL with \<open>errno\<close> set to \<open>EINVAL\<close>. With a power of two it
  returns NULL or a fresh block with room for the request, and the block has the alignment asked for whenever that is at
  most 16 bytes or more than 64 KB, or the request is for more than 128 KB.
\<close>

theorem my_memalign_spec:
  assumes "env_ok e" "heap_ok e g" "ids_ok t g" "next_ok t g"
    "unat sz + 2 * unat al + 262176 \<le> 2 ^ 64" "0 < unat sz \<or> al \<le> 65536"
  shows "(\<not> is_pow2 al \<longrightarrow> (\<exists>g'. my_memalign e t al sz g = Inr (0, g') \<and> blocks g' = blocks g \<and> t_errno g' t = 22)) \<and>
    (is_pow2 al \<longrightarrow> (\<exists>p g'. my_memalign e t al sz g = Inr (p, g') \<and>
       (al \<le> 16 \<or> al > 65536 \<or> sz > 131072 \<longrightarrow> unat p mod unat al = 0) \<and> heap_inv e g' \<and> unlocked g' \<and>
       (p = 0 \<and> blocks g' = blocks g \<or>
        p \<noteq> 0 \<and> unat p mod 16 = 0 \<and>
          (\<exists>s n u. blocks g' = insert (s, n) (blocks g) \<and> (\<forall>s' n'. (s', n') \<in> blocks g \<longrightarrow> span s n \<inter> span s' n' = {}) \<and>
             usable g' p s n u \<and> unat sz \<le> u)) \<and>
       (\<forall>s n x. (s, n) \<in> blocks g \<longrightarrow> unat x \<in> span s n \<longrightarrow> h_mem g' x = h_mem g x)))"
proof (intro conjI impI)
  assume "\<not> is_pow2 al"
  then obtain g' where g': "my_memalign e t al sz g = Inr (0, set_errno t EINVAL g')" "quiet g g'"
    using my_memalign_invalid [OF _ assms(2-4)] by blast
  have "blocks (set_errno t EINVAL g') = blocks g" using quiet_blocks [OF g'(2)] quiet_blocks [OF quiet_calm [OF set_errno_calm]] by simp
  then show "\<exists>g'. my_memalign e t al sz g = Inr (0, g') \<and> blocks g' = blocks g \<and> t_errno g' t = 22"
    using g'(1) by (auto simp: set_errno_def EINVAL_def)
next
  assume p2: "is_pow2 al"
  have "0 < unat sz \<or> al \<le> PAGE_SIZE_ALLOC" using assms(6) by (simp add: config_simps)
  from my_memalign_ok [OF assms(1-4) p2 assms(5) this]
  obtain p g' where r: "my_memalign e t al sz g = Inr (p, g')" "alloc_ok e t g (unat sz) p g'" "aligned_request al sz \<longrightarrow> unat p mod unat al = 0"
    by (elim exE conjE) (rule that)
  have a: "al \<le> 16 \<or> al > 65536 \<or> sz > 131072 \<longrightarrow> unat p mod unat al = 0" using r(3) by (simp add: aligned_request_def config_simps)
  show "\<exists>p g'. my_memalign e t al sz g = Inr (p, g') \<and>
       (al \<le> 16 \<or> al > 65536 \<or> sz > 131072 \<longrightarrow> unat p mod unat al = 0) \<and> heap_inv e g' \<and> unlocked g' \<and>
       (p = 0 \<and> blocks g' = blocks g \<or>
        p \<noteq> 0 \<and> unat p mod 16 = 0 \<and>
          (\<exists>s n u. blocks g' = insert (s, n) (blocks g) \<and> (\<forall>s' n'. (s', n') \<in> blocks g \<longrightarrow> span s n \<inter> span s' n' = {}) \<and>
             usable g' p s n u \<and> unat sz \<le> u)) \<and>
       (\<forall>s n x. (s, n) \<in> blocks g \<longrightarrow> unat x \<in> span s n \<longrightarrow> h_mem g' x = h_mem g x)"
    by (rule exI [of _ p], rule exI [of _ g'], rule conjI [OF r(1) conjI [OF a alloc_okD [OF r(2)]]])
qed

theorem my_memalign_spec_witness:
  "is_pow2 1048576 \<and> (\<exists>p g. my_memalign (demo_env False) 0 1048576 200000 zero_gstate = Inr (p, g) \<and> unat p mod 1048576 = 0 \<and> heap_inv (demo_env False) g) \<and>
   (\<exists>g. my_memalign (demo_env False) 0 24 200000 zero_gstate = Inr (0, g) \<and> t_errno g 0 = 22)"
proof -
  have p: "is_pow2 1048576" using is_pow2_power [of 20] by simp
  have q: "\<not> is_pow2 24" by (simp add: is_pow2_def)
  have s: "unat (200000 :: u64) + 2 * unat (1048576 :: u64) + 262176 \<le> 2 ^ 64" "0 < unat (200000 :: u64) \<or> (1048576 :: u64) \<le> 65536"
    "unat (200000 :: u64) + 2 * unat (24 :: u64) + 262176 \<le> 2 ^ 64" "0 < unat (200000 :: u64) \<or> (24 :: u64) \<le> 65536" "unat (1048576 :: u64) = 1048576" by simp_all
  obtain p' g where "my_memalign (demo_env False) 0 1048576 200000 zero_gstate = Inr (p', g)" "unat p' mod 1048576 = 0" "heap_inv (demo_env False) g"
    using mp [OF conjunct2 [OF my_memalign_spec [OF demo_env_ok zero_ok s(1,2), of False 0]] p] unfolding s(5) by (elim exE conjE) (rule that, simp_all)
  moreover obtain g2 where "my_memalign (demo_env False) 0 24 200000 zero_gstate = Inr (0, g2)" "t_errno g2 0 = 22"
    using mp [OF conjunct1 [OF my_memalign_spec [OF demo_env_ok zero_ok s(3,4), of False 0]] q] by (elim exE conjE) (rule that)
  ultimately show ?thesis using p by (intro conjI exI) auto
qed

text \<open>
  C14. \<open>my_posix_memalign\<close> returns \<open>EINVAL\<close> and changes nothing when the alignment is below 8 or no power of two. Otherwise it returns \<open>ENOMEM\<close> and
  leaves \<open>*memptr\<close> and every block as they were, or 0 and stores in \<open>*memptr\<close> a pointer to a fresh block with room for the request, which overlaps no other block.
  No byte of a live block changes.
\<close>

theorem my_posix_memalign_spec:
  assumes "env_ok e" "heap_ok e g" "ids_ok t g" "next_ok t g" "unat sz + 2 * unat al + 262176 \<le> 2 ^ 64" "0 < unat sz \<or> al \<le> 65536"
  shows "\<exists>r q g'. my_posix_memalign e t memptr al sz g = Inr (r, q, g') \<and>
    (if al < 8 \<or> \<not> is_pow2 al then r = 22 \<and> q = memptr \<and> g' = g
     else heap_inv e g' \<and> unlocked g' \<and>
       (r = 12 \<and> q = memptr \<and> blocks g' = blocks g \<or>
        r = 0 \<and> q \<noteq> 0 \<and> (\<exists>s n u. blocks g' = insert (s, n) (blocks g) \<and> (\<forall>s' n'. (s', n') \<in> blocks g \<longrightarrow> span s n \<inter> span s' n' = {}) \<and>
          usable g' q s n u \<and> unat sz \<le> u)) \<and>
       (\<forall>s n x. (s, n) \<in> blocks g \<longrightarrow> unat x \<in> span s n \<longrightarrow> h_mem g' x = h_mem g x))"
proof (cases "al < 8 \<or> \<not> is_pow2 al")
  case True
  then have "al < 8 \<or> al AND (al - 1) \<noteq> 0" by (auto simp: is_pow2_def)
  then show ?thesis using True by (simp add: my_posix_memalign_def EINVAL_def)
next
  case False
  then have al: "is_pow2 al" "\<not> (al < 8 \<or> al AND (al - 1) \<noteq> 0)" by (auto simp: is_pow2_def)
  have "0 < unat sz \<or> al \<le> PAGE_SIZE_ALLOC" using assms(6) by (simp add: config_simps)
  from my_memalign_ok [OF assms(1-4) al(1) assms(5) this] obtain p g' where r: "my_memalign e t al sz g = Inr (p, g')" "alloc_ok e t g (unat sz) p g'"
    by (elim exE conjE) (rule that)
  note D = alloc_okD [OF r(2)]
  have eq: "my_posix_memalign e t memptr al sz g = Inr (if p = 0 then (12, memptr, g') else (0, p, g'))"
    unfolding my_posix_memalign_def if_not_P [OF al(2)] r(1) bindR_simps by (simp add: ENOMEM_def)
  show ?thesis
  proof (cases "p = 0")
    case True
    then show ?thesis unfolding if_not_P [OF False] using eq D by (intro exI [of _ 12] exI [of _ memptr] exI [of _ g']) (simp del: span_iff)
  next
    case p: False
    then have "\<exists>s n u. blocks g' = insert (s, n) (blocks g) \<and> (\<forall>s' n'. (s', n') \<in> blocks g \<longrightarrow> span s n \<inter> span s' n' = {}) \<and>
        usable g' p s n u \<and> unat sz \<le> u" using D by simp
    then show ?thesis unfolding if_not_P [OF False] using eq D p by (intro exI [of _ 0] exI [of _ p] exI [of _ g']) (simp del: span_iff)
  qed
qed

theorem my_posix_memalign_spec_witness:
  "(\<exists>r q g'. my_posix_memalign (demo_env False) 0 77 24 100 zero_gstate = Inr (r, q, g') \<and> r = 22 \<and> q = 77) \<and>
   (\<exists>r q g'. my_posix_memalign (demo_env False) 0 77 64 100 zero_gstate = Inr (r, q, g') \<and> (r = 0 \<or> q = 77))"
proof
  have a: "unat (100 :: u64) + 2 * unat (24 :: u64) + 262176 \<le> 2 ^ 64" "0 < unat (100 :: u64) \<or> (24 :: u64) \<le> 65536" "(24 :: u64) < 8 \<or> \<not> is_pow2 24"
    by (simp_all add: is_pow2_def)
  show "\<exists>r q g'. my_posix_memalign (demo_env False) 0 77 24 100 zero_gstate = Inr (r, q, g') \<and> r = 22 \<and> q = 77"
    using my_posix_memalign_spec [OF demo_env_ok zero_ok a(1,2), where memptr = 77, of False 0, unfolded if_P [OF a(3)]] by (elim exE conjE) (intro exI conjI)
  have b: "unat (100 :: u64) + 2 * unat (64 :: u64) + 262176 \<le> 2 ^ 64" "0 < unat (100 :: u64) \<or> (64 :: u64) \<le> 65536"
    "\<not> ((64 :: u64) < 8 \<or> \<not> is_pow2 64)" by (simp_all add: is_pow2_def)
  show "\<exists>r q g'. my_posix_memalign (demo_env False) 0 77 64 100 zero_gstate = Inr (r, q, g') \<and> (r = 0 \<or> q = 77)"
    using my_posix_memalign_spec [OF demo_env_ok zero_ok b(1,2), where memptr = 77, of False 0, unfolded if_not_P [OF b(3)]]
    by (elim exE conjE disjE) (rule exI, rule exI, rule exI, rule conjI, assumption, simp only: simp_thms)+
qed

section \<open>Thread exit\<close>

text \<open>
  C12. The exit of a thread takes nothing from anyone: every live block stays with its bytes, also the blocks the thread has allocated. What the
  thread has counted since its last flush is added to the counters of its arena, the arena has one thread less, and the thread's record is unmapped and forgotten.
\<close>

theorem tld_cleanup_spec:
  assumes "env_ok e" "heap_inv e g" "unlocked g" "t_tld g t = Some d" "tl_arena d = Some a" "g' = tld_cleanup e t g"
  shows "heap_inv e g' \<and> unlocked g' \<and> blocks g' = blocks g \<and>
    (\<forall>s n x. (s, n) \<in> blocks g \<longrightarrow> unat x \<in> span s n \<longrightarrow> h_mem g' x = h_mem g x) \<and>
    t_tld g' t = None \<and> (\<forall>x \<in> span (tl_self d) (unat (page_size e)). \<not> mapped (h_log g') x) \<and>
    ar_allocated (g_arenas g' ! a) = ar_allocated (g_arenas g ! a) + tl_stat_allocated d \<and>
    ar_freed (g_arenas g' ! a) = ar_freed (g_arenas g ! a) + tl_stat_freed d \<and>
    ar_alloc_count (g_arenas g' ! a) = ar_alloc_count (g_arenas g ! a) + tl_stat_alloc_count d \<and>
    ar_free_count (g_arenas g' ! a) = ar_free_count (g_arenas g ! a) + tl_stat_free_count d \<and>
    ar_thread_count (g_arenas g' ! a) = ar_thread_count (g_arenas g ! a) - 1"
proof -
  have c: "heap_inv e g'" "unlocked g'" "quiet g g'" "t_tld g' t = None" using tld_cleanup_ok [OF assms(1-3), of t] by (simp_all add: assms(6))
  note b = tld_not_bootstrap [OF assms(1,2,4)] and T = tld_okD [OF heap_invD(7) [OF assms(2,4)]]
  have "a < length (g_arenas g)" using T(5) assms(5) base_okD(4) [OF heap_invD(1) [OF assms(2)]] by auto
  moreover have "0 < page_size e" using b(2) by (simp add: word_less_nat_alt)
  moreover have "\<forall>s n x. (s, n) \<in> blocks g \<longrightarrow> unat x \<in> span s n \<longrightarrow> h_mem g' x = h_mem g x" using c(3) unfolding quiet_def keeps_def by blast
  ultimately show ?thesis using c quiet_blocks [OF c(3)] assms(4,5) b(1) T(1)
    by (auto simp: assms(6) tld_cleanup_def Let_def os_page_size_def os_munmap_mapped os_munmap_def sys_munmap_def upd_arena_def simp del: span_iff)
qed

lemma demo_thread:
  "(case my_malloc (demo_env False) 0 100 zero_gstate of Inl _ \<Rightarrow> False
    | Inr (p, g) \<Rightarrow> (case t_tld g 0 of None \<Rightarrow> False | Some d \<Rightarrow> tl_arena d = Some 0))"
  by code_simp

theorem tld_cleanup_spec_witness:
  "\<exists>p g d. my_malloc (demo_env False) 0 100 zero_gstate = Inr (p, g) \<and> t_tld g 0 = Some d \<and>
     blocks (tld_cleanup (demo_env False) 0 g) = blocks g \<and> t_tld (tld_cleanup (demo_env False) 0 g) 0 = None"
proof -
  obtain p g where r: "my_malloc (demo_env False) 0 100 zero_gstate = Inr (p, g)" "heap_inv (demo_env False) g" "unlocked g" by (rule demo_small)
  obtain d where "t_tld g 0 = Some d" "tl_arena d = Some 0" using demo_thread r(1) by (auto split: option.splits)
  from tld_cleanup_spec [OF demo_env_ok r(2,3) this refl] show ?thesis using r(1) \<open>t_tld g 0 = Some d\<close> by blast
qed

end
