(* ===== verification/Debug_Correct.thy ===== *)
theory Debug_Correct
  imports Api_Correct
begin

unbundle bit_operations_syntax

text \<open>
  The debug mode finds what it is meant to find: a free of anything but a live slot of a page aborts with the right message, and the
  heap check passes on every heap that is in order.
\<close>

section \<open>Pointers that are not slots\<close>

lemma debug_slot_index_other:
  assumes g: "page_geom pg" and p: "unat p \<in> span (page_start pg) 65536" and n: "p \<notin> all_slots pg"
  shows "debug_slot_index pg p = Inr UINT16_MAX"
proof -
  let ?s = "unat (pm_slot_size pg)"
  note G = page_geomD [OF g] and c = capacity_bounds [OF g]
  define k where "k = unat p - unat (page_start pg)"
  have k: "unat p = unat (page_start pg) + k" "k < 65536" using p by (auto simp: k_def)
  have le: "\<not> p < page_start pg" using k by (simp add: word_less_nat_alt)
  have off: "unat (p - page_start pg) = k" using k by (simp add: unat_sub_if')
  have us: "unat (ucast (pm_slot_size pg) :: u64) = ?s" by (simp add: unat_ucast_up)
  have nz: "pm_slot_size pg \<noteq> 0" using G(1) by auto
  have m: "unat ((p - page_start pg) mod ucast (pm_slot_size pg)) = k mod ?s"
    and d: "unat ((p - page_start pg) div ucast (pm_slot_size pg)) = k div ?s" by (simp_all add: unat_mod unat_div off us)
  have "unat (pm_capacity pg) \<le> k div ?s" if "k mod ?s = 0"
  proof (rule ccontr)
    assume "\<not> ?thesis"
    then have i: "k div ?s < unat (pm_capacity pg)" by simp
    have "unat (slot_addr pg (k div ?s)) = unat (page_start pg) + k div ?s * ?s"
      using unat_slot_addr(1) [OF g i] unat_page_start [OF g] by simp
    also have "k div ?s * ?s = k" using that by (metis add.right_neutral div_mult_mod_eq)
    finally have "p = slot_addr pg (k div ?s)" using k(1) by (simp add: word_unat_eq_iff)
    then show False using n i by (auto simp: all_slots_def)
  qed
  moreover have "k div ?s < 65536" using k(2) div_le_dividend [of k ?s] by linarith
  then have "unat (ucast ((p - page_start pg) div ucast (pm_slot_size pg)) :: u16) = k div ?s"
    using d by (simp add: unsigned_ucast_eq take_bit_nat_eq_self)
  moreover have "(p - page_start pg) mod ucast (pm_slot_size pg) = 0 \<longleftrightarrow> k mod ?s = 0" using m by (simp add: word_unat_eq_iff)
  ultimately show ?thesis using le nz by (auto simp: debug_slot_index_def Let_def word_less_nat_alt)
qed

lemma debug_check_dead:
  assumes I: "page_inv e m pg" and dbg: "malloc_debug e" and p: "unat p \<in> span (page_start pg) 65536" and n: "p \<notin> page_live m pg"
  shows "debug_check_and_mark_freed pg p = Inl (if p \<in> all_slots pg then Abort_double_free p else Abort_invalid_free p)"
proof (cases "p \<in> all_slots pg")
  case False
  then show ?thesis using debug_slot_index_other [OF page_invD(6) [OF I] p] by (simp add: debug_check_and_mark_freed_def)
next
  case True
  then obtain i where i: "p = slot_addr pg i" "i < unat (pm_capacity pg)" by (auto simp: all_slots_def)
  note d = debug_slot_index_slot [OF page_invD(6) [OF I] i(2)]
  have "\<not> slot_bit pg i" using page_invD(2) [OF I] dbg i n by (simp add: dbg_ok_def)
  then have "pm_debug_bitmap pg ! (i div 8) AND push_bit (i mod 8) 1 = 0" using and_bit_0 [of "i mod 8"] by (simp add: slot_bit_def)
  then show ?thesis using d i True by (simp add: debug_check_and_mark_freed_def Let_def)
qed

lemma my_free_dead:
  assumes e: "env_ok e" and H: "heap_inv e g" and dbg: "malloc_debug e" and pp: "active (h_segs g) pp pg" and p: "unat p \<in> page_span pp"
    and n: "p \<notin> page_live (h_mem g) pg" and r: "fst pp \<in> reg_set (g_registry g)"
  shows "my_free e t p g = Inl (if p \<in> all_slots pg then Abort_double_free p else Abort_invalid_free p)"
proof -
  note h = heap_invD [OF H]
  note A = activeD [OF h(4) pp]
  note S = page_start_at [OF h(4) A(1)]
  have sp: "unat p \<in> span (page_start pg) 65536" using p S(2) by blast
  have reg: "unat p \<in> region e g (Seg (fst pp))" using p S(4,5) by (auto simp del: span_iff)
  have nb: "\<not> in_bootstrap e p" using layout_bootstrap [OF h(3) reg] in_bootstrap_iff [OF e] by blast
  have nz: "p \<noteq> 0" using p S(7) by (auto simp: page_span_def word_unat_eq_iff)
  have st: "ptr_to_segment g p = fst pp" "ptr_to_page g p = Some pp" using ptr_to_page_at [OF H A(1) p] r by simp_all
  have "debug_free e pp p g = Inl (if p \<in> all_slots pg then Abort_double_free p else Abort_invalid_free p)"
    using debug_check_dead [OF A(3) dbg sp n] dbg A(1) by (simp add: debug_free_def deref_page_ok)
  then show ?thesis using nz nb st S(7) A(1,2) by (simp add: my_free_def slab_free_def deref_page_ok)
qed

section \<open>The check of a page\<close>

lemma bitmap_fold:
  "fold (\<lambda>b c. c + of_nat (length (filter (bit (bm ! b :: u8)) [0..<8]))) [0..<n] 0 =
     (of_nat (card {i. i < 8 * n \<and> bit (bm ! (i div 8)) (i mod 8)}) :: u16)"
proof (induction n)
  case 0
  then show ?case by simp
next
  case (Suc n)
  let ?A = "{i. i < 8 * n \<and> bit (bm ! (i div 8)) (i mod 8)}" and ?B = "{k. k < 8 \<and> bit (bm ! n) k}"
  have "{i. i < 8 * Suc n \<and> bit (bm ! (i div 8)) (i mod 8)} = ?A \<union> (\<lambda>k. 8 * n + k) ` ?B"
  proof (intro set_eqI iffI)
    fix i assume i: "i \<in> {i. i < 8 * Suc n \<and> bit (bm ! (i div 8)) (i mod 8)}"
    show "i \<in> ?A \<union> (\<lambda>k. 8 * n + k) ` ?B"
    proof (cases "i < 8 * n")
      case False
      then have n: "i div 8 = n" using i by auto
      then have "i = 8 * n + i mod 8" using mult_div_mod_eq [of 8 i] by simp
      then show ?thesis using i n by auto
    qed (use i in simp)
  qed auto
  moreover have "?A \<inter> (\<lambda>k. 8 * n + k) ` ?B = {}" by auto
  moreover have "card ((\<lambda>k. 8 * n + k) ` ?B) = card ?B" by (rule card_image) (simp add: inj_on_def)
  moreover have "length (filter (bit (bm ! n)) [0..<8]) = card ?B"
    by (subst distinct_card [symmetric]) (auto intro: arg_cong [of _ _ card])
  ultimately show ?case using Suc by (simp add: card_Un_disjoint)
qed

lemma bitmap_count_used:
  assumes I: "page_inv e m pg" and dbg: "malloc_debug e"
  shows "bitmap_count pg = pm_used pg"
proof -
  note D = page_invD [OF I]
  let ?c = "unat (pm_capacity pg)"
  have c: "?c \<le> 4096" by (rule capacity_bounds(1) [OF D(6)])
  have "{i. i < 8 * ((?c + 7) div 8) \<and> slot_bit pg i} = {i. i < ?c \<and> slot_addr pg i \<in> page_live m pg}"
  proof (intro set_eqI iffI)
    fix i assume i: "i \<in> {i. i < 8 * ((?c + 7) div 8) \<and> slot_bit pg i}"
    moreover have "(?c + 7) div 8 \<le> 4103 div 8" using c by (intro div_le_mono) simp
    ultimately have "i < 4096" by simp
    then have "i < ?c" using D(2) dbg i by (auto simp: dbg_ok_def not_le [symmetric])
    then show "i \<in> {i. i < ?c \<and> slot_addr pg i \<in> page_live m pg}" using D(2) dbg i by (simp add: dbg_ok_def)
  next
    fix i assume i: "i \<in> {i. i < ?c \<and> slot_addr pg i \<in> page_live m pg}"
    then have "i < ?c" by simp
    then have "i < 8 * ((?c + 7) div 8)" by linarith
    then show "i \<in> {i. i < 8 * ((?c + 7) div 8) \<and> slot_bit pg i}" using D(2) dbg i by (simp add: dbg_ok_def)
  qed
  moreover have "card {i. i < ?c \<and> slot_addr pg i \<in> page_live m pg} = card (page_live m pg)"
  proof -
    have im: "slot_addr pg ` {i. i < ?c \<and> slot_addr pg i \<in> page_live m pg} = page_live m pg"
      using page_live_slots [OF D(1)] by (auto simp: all_slots_def)
    have "inj_on (slot_addr pg) {i. i < ?c \<and> slot_addr pg i \<in> page_live m pg}"
      using slot_addr_inj [OF D(6)] by (auto simp: inj_on_def)
    from card_image [OF this] show ?thesis unfolding im by simp
  qed
  ultimately have "bitmap_count pg = of_nat (unat (pm_used pg))"
    unfolding bitmap_count_def bitmap_fold using card_page_live [OF D(1)] by (simp add: slot_bit_def)
  then show ?thesis by simp
qed

lemma free_walk_ok:
  assumes g: "page_geom pg"
  shows "chain m q L \<Longrightarrow> set L \<subseteq> all_slots pg \<Longrightarrow> (\<forall>i < unat (pm_capacity pg). slot_addr pg i \<in> set L \<longrightarrow> \<not> slot_bit pg i) \<Longrightarrow>
    unat w + length L \<le> unat (pm_capacity pg) \<Longrightarrow> free_walk m pg q w ok = Some (Inr (w + of_nat (length L), ok))"
proof (induction L arbitrary: q w)
  case Nil
  then show ?case by (simp add: free_walk.simps [of m pg 0])
next
  case (Cons x L)
  then have x: "q = x" "x \<noteq> 0" "chain m (load64 m x) L" by simp_all
  obtain i where i: "x = slot_addr pg i" "i < unat (pm_capacity pg)" using Cons.prems(2) by (auto simp: all_slots_def)
  note d = debug_slot_index_slot [OF g i(2)]
  have w: "unat (w + 1) = unat w + 1" using Cons.prems(4) capacity_bounds(1) [OF g] by (subst unat_add_small) simp_all
  have "\<not> pm_capacity pg < w + 1" using w Cons.prems(4) by (simp add: word_less_nat_alt)
  moreover have "\<not> slot_bit pg i" using Cons.prems(3) i by simp
  moreover have "free_walk m pg (load64 m x) (w + 1) ok = Some (Inr (w + 1 + of_nat (length L), ok))"
    using Cons.prems w by (intro Cons.IH [OF x(3)]) auto
  ultimately show ?case using x(1,2) d i(1) by (simp add: free_walk.simps [of m pg "slot_addr pg i"] Let_def slot_bit_def add.assoc)
qed

lemma page_check_ok:
  assumes I: "page_inv e m pg" and dbg: "malloc_debug e"
  shows "page_check m pg = Inr True"
proof -
  note D = page_invD [OF I] and c = capacity_bounds [OF page_invD(6) [OF I]] and G = page_geomD [OF page_invD(6) [OF I]]
  obtain L R where l: "page_lists m pg L R" using page_okE [OF D(1)] by blast
  have L: "chain m (pm_local_free pg) L" "set L \<subseteq> slot_addr pg ` {..<bump_count pg}" "unat (pm_local_free_count pg) = length L"
    "unat (pm_remote_free_count pg) = length R" "unat (pm_used pg) + length L + length R = bump_count pg" "set L \<subseteq> page_free m pg"
    using l page_free_lists [OF l] by (auto simp: page_lists_def)
  have bc: "bump_count pg \<le> unat (pm_capacity pg)" by (rule bump_count_le [OF D(6)])
  then have sl: "set L \<subseteq> all_slots pg" using L(2) by (auto simp: all_slots_def)
  have clear: "\<forall>i < unat (pm_capacity pg). slot_addr pg i \<in> set L \<longrightarrow> \<not> slot_bit pg i"
    using D(2) dbg L(6) by (auto simp: dbg_ok_def page_live_def)
  have walk: "free_walk m pg (pm_local_free pg) 0 True = Some (Inr (of_nat (length L), True))"
    using free_walk_ok [OF D(6) L(1) sl clear, of 0 True] L(5) bc by simp
  have cnt: "of_nat (length L) = pm_local_free_count pg" by (simp add: L(3) [symmetric])
  define rest :: u16 where "rest = (if pm_bump_end pg > pm_bump_offset pg then ucast ((pm_bump_end pg - pm_bump_offset pg) div pm_slot_size pg) else 0)"
  have "unat rest = unat (pm_capacity pg) - bump_count pg"
  proof (cases "pm_bump_end pg > pm_bump_offset pg")
    case True
    have "unat (pm_bump_end pg - pm_bump_offset pg) = (unat (pm_capacity pg) - bump_count pg) * unat (pm_slot_size pg)"
      using True G(5,6) by (simp add: unat_sub_if' word_less_nat_alt diff_mult_distrib)
    then have "unat ((pm_bump_end pg - pm_bump_offset pg) div pm_slot_size pg) = unat (pm_capacity pg) - bump_count pg"
      using G(1) by (simp add: unat_div)
    then show ?thesis using True c(1) by (simp add: rest_def unsigned_ucast_eq take_bit_nat_eq_self)
  next
    case False
    then have "unat (pm_capacity pg) * unat (pm_slot_size pg) \<le> bump_count pg * unat (pm_slot_size pg)" using G(5,6) by (simp only: word_less_nat_alt not_less)
    then show ?thesis using False bc G(1) by (simp add: rest_def)
  qed
  then have "unat (pm_used pg) + unat (pm_local_free_count pg) + unat (pm_remote_free_count pg) + unat rest = unat (pm_capacity pg)"
    using L(3-5) bc by simp
  then have "(of_nat (unat (pm_used pg) + unat (pm_local_free_count pg) + unat (pm_remote_free_count pg) + unat rest) :: u16) = of_nat (unat (pm_capacity pg))"
    by (simp only:)
  then have "pm_used pg + pm_local_free_count pg + pm_remote_free_count pg + rest = pm_capacity pg" by simp
  then show ?thesis
    using walk cnt bitmap_count_used [OF I dbg] G(1) by (auto simp: page_check_def Let_def ends_def rest_def [symmetric])
qed

section \<open>The check of the heap\<close>

lemma pages_check_ok:
  assumes "malloc_debug e" "\<forall>pg \<in> set pgs. pm_state pg = PAGE_UNUSED \<or> pm_state pg = PAGE_ACTIVE \<and> page_inv e (h_mem g) pg"
  shows "pages_check g pgs = Inr True"
  using assms(2) by (induction pgs) (use page_check_ok [OF _ assms(1)] in auto)

lemma data_pages_ok:
  assumes H: "heap_inv e g" and sg: "h_segs g b = Some sg" and pg: "pg \<in> set (drop PAGES_DATA_START (sg_pages sg))"
  shows "pm_state pg = PAGE_UNUSED \<or> pm_state pg = PAGE_ACTIVE \<and> page_inv e (h_mem g) pg"
proof -
  note h = heap_invD [OF H]
  obtain i where i: "i < length (sg_pages sg) - PAGES_DATA_START" "pg = sg_pages sg ! (PAGES_DATA_START + i)"
    using pg by (auto simp: in_set_conv_nth)
  then have "pg_at (h_segs g) (b, PAGES_DATA_START + i) = Some pg" using sg by (simp add: pg_at_def)
  from segs_ok_wf [OF h(4) this] show ?thesis by (auto simp: page_wf_def config_simps)
qed

lemma segs_check_ok:
  assumes H: "heap_inv e g" and dbg: "malloc_debug e"
  shows "seg_path a (h_segs g) b bs \<Longrightarrow> segs_check g b ok = Some (Inr ok)"
proof (induction bs arbitrary: b)
  case Nil
  then show ?case by (simp add: segs_check.simps [of g 0])
next
  case (Cons c bs)
  then obtain sg where sg: "b = c" "c \<noteq> 0" "h_segs g c = Some sg" "seg_path a (h_segs g) (sg_next sg) bs" by auto
  have "pages_check g (drop PAGES_DATA_START (sg_pages sg)) = Inr True"
    using data_pages_ok [OF H sg(3)] by (intro pages_check_ok [OF dbg]) blast
  then show ?case using sg Cons.IH [OF sg(4)] by (simp add: segs_check.simps [of g c])
qed

lemma arenas_check_ok:
  assumes "\<forall>a \<in> set as. \<not> ar_lock a \<and> segs_check g (ar_segments a) True = Some (Inr True)"
  shows "arenas_check g as = Inr True"
  using assms by (induction as) (auto simp: ends_def)

lemma debug_heap_check_ok:
  assumes H: "heap_inv e g" and u: "unlocked g" and dbg: "malloc_debug e"
  shows "debug_heap_check g = Inr True"
proof -
  note h = heap_invD [OF H] and B = base_okD [OF heap_invD(1) [OF H]]
  have "\<not> ar_lock a \<and> segs_check g (ar_segments a) True = Some (Inr True)" if in4: "a \<in> set (take 4 (g_arenas g))" for a
  proof -
    obtain i where i: "i < 4" "a = g_arenas g ! i" using in4 B(4) by (auto simp: in_set_conv_nth)
    obtain bs where "seg_path i (h_segs g) (ar_segments (g_arenas g ! i)) bs" using h(5) [OF i(1)] by (auto simp: arena_ok_def)
    then show ?thesis using segs_check_ok [OF H dbg] u i by (simp add: unlocked_def)
  qed
  then show ?thesis using B(3) arenas_check_ok by (simp add: debug_heap_check_def)
qed

end
