(* ===== verification/Debug_Props.thy ===== *)
theory Debug_Props
  imports Debug_Correct Client_Runs
begin

unbundle bit_operations_syntax

text \<open>
  The properties of the debug mode, with a heap of one slot that is freed twice as the concrete case.
\<close>

section \<open>A concrete heap\<close>

lemma debug_run:
  "(case my_malloc (demo_env True) 0 100 zero_gstate of Inl _ \<Rightarrow> False
    | Inr (p, g) \<Rightarrow> p \<noteq> 0 \<and> segment_is_registered (g_registry g) (p AND SEGMENT_MASK) \<and>
        (case ptr_to_page g p of None \<Rightarrow> False | Some pp \<Rightarrow>
           (case get_page g pp of None \<Rightarrow> False | Some pg \<Rightarrow> pm_state pg = PAGE_ACTIVE \<and> page_start pg = p)))"
  by code_simp

lemma debug_heap:
  obtains p g pp pg where "my_malloc (demo_env True) 0 100 zero_gstate = Inr (p, g)" "reachable (demo_env True) g" "heap_inv (demo_env True) g"
    "active (h_segs g) pp pg" "page_start pg = p" "fst pp \<in> reg_set (g_registry g)"
proof -
  obtain p g where g: "my_malloc (demo_env True) 0 100 zero_gstate = Inr (p, g)" "segment_is_registered (g_registry g) (p AND SEGMENT_MASK)"
      "case ptr_to_page g p of None \<Rightarrow> False | Some pp \<Rightarrow>
         (case get_page g pp of None \<Rightarrow> False | Some pg \<Rightarrow> pm_state pg = PAGE_ACTIVE \<and> page_start pg = p)"
    using debug_run by (cases "my_malloc (demo_env True) 0 100 zero_gstate") auto
  obtain pp where pp: "ptr_to_page g p = Some pp"
      "case get_page g pp of None \<Rightarrow> False | Some pg \<Rightarrow> pm_state pg = PAGE_ACTIVE \<and> page_start pg = p"
    using g(3) by (cases "ptr_to_page g p") auto
  obtain pg where pg: "get_page g pp = Some pg" "pm_state pg = PAGE_ACTIVE" "page_start pg = p"
    using pp(2) by (cases "get_page g pp") auto
  have "client_step (demo_env True) zero_gstate g" by (rule client_step.call_malloc [OF _ _ _ g(1)]) simp_all
  then have re: "reachable (demo_env True) g" by (rule reachable.step [OF reachable.start])
  obtain q g' where "my_malloc (demo_env True) 0 100 zero_gstate = Inr (q, g')" "alloc_ok (demo_env True) 0 zero_gstate (room_for 100) q g'"
    using my_malloc_ok [OF demo_env_ok, of True zero_gstate 0 100] by auto
  then have H: "heap_inv (demo_env True) g" using g(1) by (simp add: alloc_ok_def)
  have ok: "reg_ok (g_registry g)" using heap_invD(2) [OF H] by (simp add: registry_ok_def)
  have "fst pp = p AND SEGMENT_MASK" "fst pp \<noteq> 0"
    using pp(1) page_start_at(7) [OF heap_invD(4) [OF H] pg(1)] by (auto simp: ptr_to_page_def ptr_to_segment_def Let_def split: if_splits)
  then have "fst pp \<in> reg_set (g_registry g)" using isin_iff [OF ok] g(2) by simp
  then show ?thesis using that [OF g(1) re H _ pg(3)] pg(1,2) by (simp add: active_def)
qed

section \<open>Properties\<close>

text \<open>
  C17. In debug mode a free of any address inside a page in use that is not a live slot of the page stops the program: with the message for
  a double free when the address is a slot that is free, with the message for an invalid pointer otherwise.
\<close>

theorem debug_free_detects:
  assumes "env_ok e" "heap_inv e g" "malloc_debug e" "active (h_segs g) pp pg" "fst pp \<in> reg_set (g_registry g)"
    "unat p \<in> page_span pp" "p \<notin> page_live (h_mem g) pg"
  shows "my_free e t p g = Inl (if p \<in> all_slots pg then Abort_double_free p else Abort_invalid_free p)"
  by (rule my_free_dead [OF assms(1-4,6,7,5)])

theorem debug_free_detects_witness:
  "\<exists>p g. my_malloc (demo_env True) 0 100 zero_gstate = Inr (p, g) \<and>
     my_free (demo_env True) 0 (p + 8) g = Inl (Abort_invalid_free (p + 8))"
proof -
  obtain p g pp pg where r: "my_malloc (demo_env True) 0 100 zero_gstate = Inr (p, g)" "heap_inv (demo_env True) g"
    "active (h_segs g) pp pg" "page_start pg = p" "fst pp \<in> reg_set (g_registry g)" by (rule debug_heap)
  note A = activeD [OF heap_invD(4) [OF r(2)] r(3)]
  note S = page_start_at [OF heap_invD(4) [OF r(2)] A(1)] and G = page_invD(1,6) [OF A(3)]
  have "unat p + 65536 \<le> 2 ^ 48" using unat_page_start [OF G(2)] page_geomD(10,12) [OF G(2)] r(4) by simp
  then have u: "unat (p + 8) = unat p + 8" by (subst unat_add_small) simp_all
  then have s: "unat (p + 8) \<in> page_span pp" unfolding S(2) [symmetric] r(4) by simp
  have "unat p mod 16 = 0" using unat_page_start [OF G(2)] page_geomD(9) [OF G(2)] r(4) by (auto simp: mod_0_imp_dvd)
  then have "unat (p + 8) mod 16 = 8" using u by (simp add: mod_add_eq [symmetric, of "unat p"])
  then have n: "p + 8 \<notin> all_slots pg" using all_slots_facts [OF G(2), of "p + 8"] by auto
  then have "p + 8 \<notin> page_live (h_mem g) pg" using page_live_slots [OF G(1)] by blast
  from debug_free_detects [OF demo_env_ok r(2) _ r(3,5) s this, of 0] show ?thesis using r(1) n by (simp add: demo_env_def)
qed

text \<open>
  C18. In debug mode the heap check reports no error in any state a client can reach: its four checks of every page (bitmap against used
  count, free list entries clear, free list length, sum of the slot counts) always hold.
\<close>

theorem debug_heap_check_passes:
  assumes "env_ok e" "reachable e g" "malloc_debug e" "malloc_is_initialized g"
  shows "debug_heap_check g = Inr True"
proof -
  have "\<not> pristine g" using assms(4) by (auto simp: pristine_def malloc_is_initialized_def)
  then have "heap_inv e g" "unlocked g" using reachable_ok [OF assms(1,2)] by (auto simp: heap_ok_def)
  then show ?thesis using debug_heap_check_ok assms(3) by blast
qed

theorem debug_heap_check_passes_witness:
  "\<exists>p g. my_malloc (demo_env True) 0 100 zero_gstate = Inr (p, g) \<and> reachable (demo_env True) g \<and> debug_heap_check g = Inr True"
proof -
  obtain p g where r: "my_malloc (demo_env True) 0 100 zero_gstate = Inr (p, g)" "reachable (demo_env True) g" "heap_inv (demo_env True) g"
    by (rule debug_heap)
  have "malloc_debug (demo_env True)" "malloc_is_initialized g"
    using base_okD(1) [OF heap_invD(1) [OF r(3)]] by (simp_all add: demo_env_def malloc_is_initialized_def)
  from debug_heap_check_passes [OF demo_env_ok r(2) this] show ?thesis using r(1,2) by blast
qed

end
