(* ===== verification/Treiber_Concurrent.thy ===== *)
theory Treiber_Concurrent
  imports Malloc_Atomic
begin

unbundle bit_operations_syntax

text \<open>
  The loops of \<open>treiber_push\<close> and \<open>treiber_collect\<close> (\<open>include/malloc_atomic.h\<close>) taken apart into their atomic actions, with
  any number of threads running them at once: the load of the head, the plain store of the link, the compare-and-swap, which may
  fail without cause (\<open>atomic_compare_exchange_weak\<close>). Sequentially consistent order is assumed, as the acquire and release
  orders of the source give on the one location the threads race for.
\<close>

section \<open>Steps\<close>

text \<open>Where a thread is: the variables \<open>node\<close> and \<open>old\<close> of the source are kept with the position.\<close>

datatype pc = Idle | Push_load addr | Push_link addr u64 | Push_cas addr u64 | Collect_load | Collect_cas u64

text \<open>What a step makes known: nothing, that \<open>treiber_push\<close> returned, or what \<open>treiber_collect\<close> returned.\<close>

datatype event = Tau | Pushed addr | Got addr

text \<open>\<open>atomic_compare_exchange_weak\<close>; \<open>weak\<close> is a failure without cause. What the call did and the new value of the location.\<close>

definition tagged_cas :: "bool \<Rightarrow> u64 \<Rightarrow> u64 \<Rightarrow> u64 \<Rightarrow> bool \<times> u64" where
  [simp]: "tagged_cas weak expected desired v = (if v = expected \<and> \<not> weak then (True, desired) else (False, v))"

fun push_step :: "u64 \<Rightarrow> bool \<Rightarrow> pc \<Rightarrow> mem \<Rightarrow> u64 \<Rightarrow> event \<times> pc \<times> mem \<times> u64" where
  "push_step off weak (Push_load node) m head = (Tau, Push_link node head, m, head)"
| "push_step off weak (Push_link node old) m head = (Tau, Push_cas node old, store64 m (node + off) (old AND PTR_MASK), head)"
| "push_step off weak (Push_cas node old) m head =
     (case tagged_cas weak old (tagged_make node (ucast (drop_bit TAG_SHIFT old) + 1)) head of (won, head) \<Rightarrow>
      if won then (Pushed node, Idle, m, head) else (Tau, Push_load node, m, head))"
| "push_step off weak pc m head = (Tau, pc, m, head)"

fun collect_step :: "bool \<Rightarrow> pc \<Rightarrow> mem \<Rightarrow> u64 \<Rightarrow> event \<times> pc \<times> mem \<times> u64" where
  "collect_step weak Collect_load m head =
     (if head AND PTR_MASK = 0 then (Got 0, Idle, m, head) else (Tau, Collect_cas head, m, head))"
| "collect_step weak (Collect_cas old) m head =
     (case tagged_cas weak old (tagged_make 0 (ucast (drop_bit TAG_SHIFT old) + 1)) head of (won, head) \<Rightarrow>
      if won then (Got (old AND PTR_MASK), Idle, m, head) else (Tau, Collect_load, m, head))"
| "collect_step weak pc m head = (Tau, pc, m, head)"

text \<open>The next atomic action of a thread, whichever loop it is in.\<close>

fun treiber_step :: "u64 \<Rightarrow> bool \<Rightarrow> pc \<Rightarrow> mem \<Rightarrow> u64 \<Rightarrow> event \<times> pc \<times> mem \<times> u64" where
  "treiber_step off weak Idle m head = (Tau, Idle, m, head)"
| "treiber_step off weak Collect_load m head = collect_step weak Collect_load m head"
| "treiber_step off weak (Collect_cas old) m head = collect_step weak (Collect_cas old) m head"
| "treiber_step off weak pc m head = push_step off weak pc m head"

record conc =
  c_mem :: mem
  c_head :: u64
  c_pc :: "thread \<Rightarrow> pc"

fun in_flight :: "pc \<Rightarrow> addr option" where
  "in_flight (Push_load p) = Some p"
| "in_flight (Push_link p old) = Some p"
| "in_flight (Push_cas p old) = Some p"
| "in_flight _ = None"

definition node_ok :: "addr \<Rightarrow> bool" where
  "node_ok p \<longleftrightarrow> p \<noteq> 0 \<and> unat p < 2 ^ 48 \<and> unat p mod 8 = 0"

text \<open>
  The threads together. A call hands in a node that is neither on the stack nor being pushed (a slot is freed once); stores of the
  program change anything but the links of those nodes.
\<close>

inductive conc_step :: "thread \<Rightarrow> event \<Rightarrow> conc \<Rightarrow> conc \<Rightarrow> bool" where
  call_push: "c_pc s t = Idle \<Longrightarrow> node_ok p \<Longrightarrow> \<forall>t'. in_flight (c_pc s t') \<noteq> Some p \<Longrightarrow>
    \<forall>xs. stack (c_mem s) (c_head s) xs \<longrightarrow> p \<notin> set xs \<Longrightarrow> conc_step t Tau s (s\<lparr>c_pc := (c_pc s)(t := Push_load p)\<rparr>)"
| call_collect: "c_pc s t = Idle \<Longrightarrow> conc_step t Tau s (s\<lparr>c_pc := (c_pc s)(t := Collect_load)\<rparr>)"
| run: "c_pc s t \<noteq> Idle \<Longrightarrow> treiber_step 0 weak (c_pc s t) (c_mem s) (c_head s) = (ev, pc', m', h') \<Longrightarrow>
    conc_step t ev s \<lparr>c_mem = m', c_head = h', c_pc = (c_pc s)(t := pc')\<rparr>"
| other_store: "\<forall>x. (\<exists>t'. in_flight (c_pc s t') = Some x) \<longrightarrow> load64 m' x = load64 (c_mem s) x \<Longrightarrow>
    \<forall>xs. stack (c_mem s) (c_head s) xs \<longrightarrow> (\<forall>x \<in> set xs. load64 m' x = load64 (c_mem s) x) \<Longrightarrow>
    conc_step t Tau s (s\<lparr>c_mem := m'\<rparr>)"

inductive conc_run :: "conc \<Rightarrow> event list \<Rightarrow> conc \<Rightarrow> bool" for s :: conc where
  none: "conc_run s [] s"
| more: "conc_run s evs s1 \<Longrightarrow> conc_step t ev s1 s2 \<Longrightarrow> conc_run s (evs @ [ev]) s2"

section \<open>The abstract stack\<close>

fun abs_step :: "event \<Rightarrow> addr list \<Rightarrow> addr list" where
  "abs_step Tau xs = xs"
| "abs_step (Pushed p) xs = p # xs"
| "abs_step (Got p) xs = []"

definition conc_ok :: "conc \<Rightarrow> addr list \<Rightarrow> bool" where
  "conc_ok s xs \<longleftrightarrow> stack (c_mem s) (c_head s) xs \<and> (\<forall>x \<in> set xs. node_ok x) \<and>
     (\<forall>t p. in_flight (c_pc s t) = Some p \<longrightarrow> node_ok p \<and> p \<notin> set xs) \<and>
     (\<forall>t t' p. in_flight (c_pc s t) = Some p \<longrightarrow> in_flight (c_pc s t') = Some p \<longrightarrow> t = t') \<and>
     (\<forall>t p old. c_pc s t = Push_cas p old \<longrightarrow> load64 (c_mem s) p = old AND PTR_MASK)"

lemma conc_okD:
  assumes "conc_ok s xs"
  shows "stack (c_mem s) (c_head s) xs" "\<And>x. x \<in> set xs \<Longrightarrow> node_ok x"
    "\<And>t p. in_flight (c_pc s t) = Some p \<Longrightarrow> node_ok p" "\<And>t p. in_flight (c_pc s t) = Some p \<Longrightarrow> p \<notin> set xs"
    "\<And>t t' p. in_flight (c_pc s t) = Some p \<Longrightarrow> in_flight (c_pc s t') = Some p \<Longrightarrow> t = t'"
    "\<And>t p old. c_pc s t = Push_cas p old \<Longrightarrow> load64 (c_mem s) p = old AND PTR_MASK"
  using assms unfolding conc_ok_def by blast+

lemma node_ok_aligned: "node_ok p \<Longrightarrow> unat p mod 8 = 0"
  by (simp add: node_ok_def)

text \<open>Moving a thread to another position of the same call, the shared state unchanged.\<close>

lemma conc_ok_move:
  assumes C: "conc_ok s xs" and f: "in_flight pc' = in_flight (c_pc s t)" and n: "\<forall>p old. pc' \<noteq> Push_cas p old"
  shows "conc_ok (s\<lparr>c_pc := (c_pc s)(t := pc')\<rparr>) xs"
proof -
  note D = conc_okD [OF C]
  have fl: "in_flight (((c_pc s)(t := pc')) t') = in_flight (c_pc s t')" for t' using f by simp
  show ?thesis unfolding conc_ok_def using D n by (auto simp: fl simp del: fun_upd_apply) (auto split: if_splits)
qed

lemma stack_unique: "stack m h xs \<Longrightarrow> stack m h ys \<Longrightarrow> xs = ys"
  unfolding stack_def by (rule chain_unique)

lemma conc_ok_link:
  assumes C: "conc_ok s xs" and p: "c_pc s t = Push_link p old"
  shows "conc_ok (s\<lparr>c_mem := store64 (c_mem s) p (old AND PTR_MASK), c_pc := (c_pc s)(t := Push_cas p old)\<rparr>) xs"
proof -
  note D = conc_okD [OF C]
  have fp: "in_flight (c_pc s t) = Some p" using p by simp
  let ?m = "store64 (c_mem s) p (old AND PTR_MASK)"
  have fl: "in_flight (((c_pc s)(t := Push_cas p old)) t') = in_flight (c_pc s t')" for t' using p by simp
  have "stack ?m (c_head s) xs"
    using D(1,2) D(3,4) [OF fp] unfolding stack_def by (intro chain_store_notin) (auto simp: node_ok_def)
  moreover have "load64 ?m q = old' AND PTR_MASK" if q: "((c_pc s)(t := Push_cas p old)) t' = Push_cas q old'" for t' q old'
  proof (cases "t' = t")
    case True
    then show ?thesis using q by simp
  next
    case False
    then have c: "c_pc s t' = Push_cas q old'" using q by simp
    then have "q \<noteq> p" using D(5) [OF fp, of t'] False by auto
    then have "load64 ?m q = load64 (c_mem s) q"
      using D(3) [OF fp] D(3) [of t' q] c by (intro load64_store64_apart) (auto simp: node_ok_def)
    then show ?thesis using D(6) [OF c] by simp
  qed
  ultimately show ?thesis using D unfolding conc_ok_def by (simp add: fl del: fun_upd_apply)
qed

lemma conc_ok_push:
  assumes C: "conc_ok s xs" and p: "c_pc s t = Push_cas p old" and h: "c_head s = old"
  shows "conc_ok (s\<lparr>c_head := tagged_make p k, c_pc := (c_pc s)(t := Idle)\<rparr>) (p # xs)"
proof -
  note D = conc_okD [OF C]
  have fp: "in_flight (c_pc s t) = Some p" using p by simp
  have "tagged_ptr_get (tagged_make p k) = p" using D(3) [OF fp] by (intro get_make) (simp add: node_ok_def)
  moreover have "load64 (c_mem s) p = tagged_ptr_get (c_head s)" using D(6) [OF p] h by (simp add: tagged_ptr_get_def)
  ultimately have "stack (c_mem s) (tagged_make p k) (p # xs)" using D(1) D(3) [OF fp] by (simp add: stack_def node_ok_def)
  moreover have "q \<noteq> p" if "in_flight (((c_pc s)(t := Idle)) t') = Some q" for t' q
    using that D(5) [OF fp, of t'] by (auto split: if_splits)
  ultimately show ?thesis using D D(3) [OF fp] unfolding conc_ok_def by (auto split: if_splits)
qed

lemma conc_ok_collect:
  assumes C: "conc_ok s xs" and h: "tagged_ptr_get h' = 0"
  shows "conc_ok (s\<lparr>c_head := h', c_pc := (c_pc s)(t := Idle)\<rparr>) []"
  using conc_okD [OF C] h unfolding conc_ok_def by (auto simp: stack_def split: if_splits)

lemma got_chain: "stack m h xs \<Longrightarrow> chain m (h AND PTR_MASK) xs"
  by (simp add: stack_def tagged_ptr_get_def)

lemma treiber_step_ok:
  assumes C: "conc_ok s xs" and r: "treiber_step 0 weak (c_pc s t) (c_mem s) (c_head s) = (ev, pc', m', h')" and i: "c_pc s t \<noteq> Idle"
  shows "conc_ok \<lparr>c_mem = m', c_head = h', c_pc = (c_pc s)(t := pc')\<rparr> (abs_step ev xs) \<and> (\<forall>p. ev = Got p \<longrightarrow> chain m' p xs)"
proof (cases "c_pc s t")
  case (Push_load p)
  then show ?thesis using r conc_ok_move [OF C, of "Push_link p (c_head s)" t] by (cases s) auto
next
  case (Push_link p old)
  then show ?thesis using r conc_ok_link [OF C Push_link] by (cases s) auto
next
  case (Push_cas p old)
  then show ?thesis using r conc_ok_push [OF C Push_cas] conc_ok_move [OF C, of "Push_load p" t] by (cases s) (auto split: if_splits)
next
  case Collect_load
  have e: "c_head s AND PTR_MASK = 0 \<Longrightarrow> xs = []" using got_chain [OF conc_okD(1) [OF C]] by auto
  then show ?thesis
    using Collect_load r conc_ok_move [OF C, of "Collect_cas (c_head s)" t] conc_ok_move [OF C, of Idle t] by (cases s) (auto split: if_splits)
next
  case (Collect_cas old)
  then show ?thesis
    using r conc_ok_collect [OF C, of "tagged_make 0 (ucast (drop_bit TAG_SHIFT old) + 1)" t] conc_ok_move [OF C, of Collect_load t]
      got_chain [OF conc_okD(1) [OF C]] by (cases s) (auto split: if_splits)
next
  case Idle
  then show ?thesis using i by simp
qed

lemma conc_step_ok:
  assumes C: "conc_ok s xs" and S: "conc_step t ev s s'"
  shows "conc_ok s' (abs_step ev xs) \<and> (\<forall>p. ev = Got p \<longrightarrow> chain (c_mem s') p xs)"
  using S
proof cases
  case (call_push p)
  note D = conc_okD [OF C]
  have "p \<notin> set xs" using call_push D(1) by blast
  then show ?thesis using call_push C unfolding conc_ok_def by (auto split: if_splits)
next
  case call_collect
  then show ?thesis using conc_ok_move [OF C, of Collect_load t] by simp
next
  case (run weak pc' m' h')
  then show ?thesis using treiber_step_ok [OF C] by simp
next
  case (other_store m')
  note D = conc_okD [OF C]
  have "stack m' (c_head s) xs"
    using D(1) other_store(4) chain_cong [of xs m' "c_mem s"] unfolding stack_def by blast
  moreover have "load64 m' p = old AND PTR_MASK" if "c_pc s t' = Push_cas p old" for t' p old
  proof -
    have "in_flight (c_pc s t') = Some p" using that by simp
    then show ?thesis using other_store(3) D(6) [OF that] by metis
  qed
  ultimately show ?thesis using D unfolding other_store(1,2) conc_ok_def by simp
qed

definition conc_init :: "mem \<Rightarrow> conc" where
  "conc_init m = \<lparr>c_mem = m, c_head = 0, c_pc = (\<lambda>_. Idle)\<rparr>"

lemma conc_run_ok:
  assumes "conc_run (conc_init m) evs s"
  shows "conc_ok s (fold abs_step evs [])"
  using assms
proof (induction rule: conc_run.induct)
  case none
  then show ?case by (simp add: conc_ok_def conc_init_def stack_def)
next
  case (more evs s1 t ev s2)
  then show ?case using conc_step_ok by simp
qed

section \<open>Schedules\<close>

text \<open>
  Running the threads in a given order. Each entry of the schedule also says whether a compare-and-swap that is tried in this step fails
  without cause.
\<close>

fun run_sched :: "(thread \<times> bool) list \<Rightarrow> conc \<Rightarrow> event list \<times> conc" where
  "run_sched [] s = ([], s)"
| "run_sched ((t, weak) # ts) s =
     (case treiber_step 0 weak (c_pc s t) (c_mem s) (c_head s) of (ev, pc', m', h') \<Rightarrow>
        case run_sched ts \<lparr>c_mem = m', c_head = h', c_pc = (c_pc s)(t := pc')\<rparr> of (evs, s') \<Rightarrow> (ev # evs, s'))"

definition spurious :: "(thread \<times> bool) list \<Rightarrow> nat" where
  "spurious ts = length (filter snd ts)"

text \<open>How many more steps a thread takes at most while the head stays what it is.\<close>

fun work :: "u64 \<Rightarrow> pc \<Rightarrow> nat" where
  "work h Idle = 0"
| "work h (Push_load p) = 3"
| "work h (Push_link p old) = (if old = h then 2 else 5)"
| "work h (Push_cas p old) = (if old = h then 1 else 4)"
| "work h Collect_load = 2"
| "work h (Collect_cas old) = (if old = h then 1 else 3)"

lemma work_le: "work h p \<le> 5"
  by (cases p) auto

lemma treiber_step_tau:
  assumes "treiber_step 0 weak p m h = (Tau, p', m', h')" "p \<noteq> Idle"
  shows "h' = h \<and> work h p' < work h p + (if weak then 3 else 0) \<and> p' \<noteq> Idle"
  using assms by (cases p) (auto split: if_splits)

text \<open>Moving one thread changes the sum by what it changes for that thread.\<close>

lemma sum_work_upd:
  assumes "finite T" "t \<in> T"
  shows "(\<Sum>t' \<in> T. work h (((c_pc s)(t := p)) t')) + work h (c_pc s t) = (\<Sum>t' \<in> T. work h (c_pc s t')) + work h p"
proof -
  have "(\<Sum>t' \<in> T - {t}. work h (((c_pc s)(t := p)) t')) = (\<Sum>t' \<in> T - {t}. work h (c_pc s t'))" by (rule sum.cong) auto
  then show ?thesis using sum.remove [OF assms, of "\<lambda>t'. work h (((c_pc s)(t := p)) t')"] sum.remove [OF assms, of "\<lambda>t'. work h (c_pc s t')"] by simp
qed

lemma run_sched_work:
  assumes "finite T" "\<forall>t \<in> T. c_pc s t \<noteq> Idle" "fst ` set ts \<subseteq> T" "\<forall>ev \<in> set (fst (run_sched ts s)). ev = Tau"
  shows "length ts \<le> (\<Sum>t \<in> T. work (c_head s) (c_pc s t)) + 3 * spurious ts"
  using assms(2-4)
proof (induction ts arbitrary: s)
  case Nil
  then show ?case by simp
next
  case (Cons tw ts)
  obtain t weak where tw: "tw = (t, weak)" by (cases tw)
  obtain ev p' m' h' where st: "treiber_step 0 weak (c_pc s t) (c_mem s) (c_head s) = (ev, p', m', h')" by (metis prod_cases4)
  define s1 where "s1 = \<lparr>c_mem = m', c_head = h', c_pc = (c_pc s)(t := p')\<rparr>"
  have rs: "fst (run_sched (tw # ts) s) = ev # fst (run_sched ts s1)" using st by (simp add: tw s1_def split: prod.splits)
  then have ev: "ev = Tau" "\<forall>ev \<in> set (fst (run_sched ts s1)). ev = Tau" using Cons.prems(3) by simp_all
  have t: "t \<in> T" "c_pc s t \<noteq> Idle" using Cons.prems(1,2) tw by auto
  note w = treiber_step_tau [OF st [unfolded ev(1)] t(2)]
  have "\<forall>t' \<in> T. c_pc s1 t' \<noteq> Idle" using Cons.prems(1) w by (simp add: s1_def)
  then have "length ts \<le> (\<Sum>t \<in> T. work (c_head s1) (c_pc s1 t)) + 3 * spurious ts" using Cons.IH ev(2) Cons.prems(2) by simp
  moreover have "(\<Sum>t' \<in> T. work (c_head s1) (c_pc s1 t')) + work (c_head s) (c_pc s t) = (\<Sum>t' \<in> T. work (c_head s) (c_pc s t')) + work (c_head s) p'"
    using sum_work_upd [OF assms(1) t(1), of "c_head s" s p'] w by (simp add: s1_def del: fun_upd_apply)
  ultimately show ?case using w by (cases weak) (simp_all add: tw spurious_def)
qed

text \<open>
  A thread that is not interfered with runs each loop once, and has then done what the one-step operations of \<open>Malloc_Atomic\<close> say:
  a push in three steps, a collect in one step on the empty stack and in two otherwise.
\<close>

lemma treiber_solo:
  "(\<forall>p. c_pc s t = Push_load p \<longrightarrow>
      run_sched [(t, False), (t, False), (t, False)] s = ([Tau, Tau, Pushed p],
        s\<lparr>c_mem := fst (treiber_push (c_mem s) (c_head s) p 0), c_head := snd (treiber_push (c_mem s) (c_head s) p 0), c_pc := (c_pc s)(t := Idle)\<rparr>)) \<and>
   (c_pc s t = Collect_load \<longrightarrow>
      run_sched (if fst (treiber_collect (c_head s)) = 0 then [(t, False)] else [(t, False), (t, False)]) s =
        ((if fst (treiber_collect (c_head s)) = 0 then [] else [Tau]) @ [Got (fst (treiber_collect (c_head s)))],
         s\<lparr>c_head := snd (treiber_collect (c_head s)), c_pc := (c_pc s)(t := Idle)\<rparr>))"
  by (cases s) (auto simp: treiber_push_def treiber_collect_def Let_def)

section \<open>Properties\<close>

text \<open>
  C8. However the threads interleave, the lock-free list behaves as a stack on which a push and a collect take effect at once: after
  any run the memory holds the stack that the completed operations give when executed one by one in the order of their
  compare-and-swaps, and a collect returns the chain of everything pushed since the last one. No freed slot is lost, and
  none is returned twice.
\<close>

theorem treiber_linearizable:
  assumes "conc_run (conc_init m) evs s"
  shows "stack (c_mem s) (c_head s) (fold abs_step evs []) \<and> distinct (fold abs_step evs []) \<and>
    (\<forall>t ev s'. conc_step t ev s s' \<longrightarrow>
       stack (c_mem s') (c_head s') (abs_step ev (fold abs_step evs [])) \<and>
       (\<forall>p. ev = Got p \<longrightarrow> chain (c_mem s') p (fold abs_step evs [])))"
proof -
  note C = conc_run_ok [OF assms]
  have "distinct (fold abs_step evs [])" using conc_okD(1) [OF C] chain_distinct unfolding stack_def by blast
  then show ?thesis using conc_okD(1) [OF C] conc_step_ok [OF C] conc_okD(1) by blast
qed

theorem treiber_linearizable_witness:
  "\<exists>s. conc_run (conc_init (\<lambda>_. 0)) [Tau, Tau, Tau, Pushed 4096] s \<and> stack (c_mem s) (c_head s) [4096]"
proof -
  let ?s = "conc_init (\<lambda>_. 0)"
  let ?p = "\<lambda>x. (\<lambda>_. Idle)(0 := x)"
  define s1 where "s1 = \<lparr>c_mem = (\<lambda>_. 0), c_head = 0, c_pc = ?p (Push_load 4096)\<rparr>"
  define s2 where "s2 = \<lparr>c_mem = (\<lambda>_. 0), c_head = 0, c_pc = ?p (Push_link 4096 0)\<rparr>"
  define s3 where "s3 = \<lparr>c_mem = store64 (\<lambda>_. 0) 4096 0, c_head = 0, c_pc = ?p (Push_cas 4096 0)\<rparr>"
  define s4 where "s4 = \<lparr>c_mem = store64 (\<lambda>_. 0) 4096 0, c_head = tagged_make 4096 1, c_pc = ?p Idle\<rparr>"
  have a1: "conc_step 0 Tau ?s s1" using conc_step.call_push [of ?s 0 4096] by (simp add: s1_def conc_init_def node_ok_def stack_def)
  have a2: "conc_step 0 Tau s1 s2"
    using conc_step.run [of s1 0 False Tau "Push_link 4096 0" "\<lambda>_. 0" 0] by (simp add: s1_def s2_def)
  have a3: "conc_step 0 Tau s2 s3"
    using conc_step.run [of s2 0 False Tau "Push_cas 4096 0" "store64 (\<lambda>_. 0) 4096 0" 0] by (simp add: s2_def s3_def)
  have a4: "conc_step 0 (Pushed 4096) s3 s4"
    using conc_step.run [of s3 0 False "Pushed 4096" Idle "store64 (\<lambda>_. 0) 4096 0" "tagged_make 4096 1"] by (simp add: s3_def s4_def)
  note r = conc_run.more [OF conc_run.more [OF conc_run.more [OF conc_run.more [OF conc_run.none a1] a2] a3] a4]
  show ?thesis using r treiber_linearizable [OF r] by (intro exI [of _ s4]) simp
qed

text \<open>
  C9. The loops are lock-free, up to the failures without cause that \<open>atomic_compare_exchange_weak\<close> may show: when \<open>k\<close> threads are
  inside an operation, then among any \<open>5 * k + 3 * f + 1\<close> steps of theirs, in whatever order they run, of which at most \<open>f\<close> are hit by such a
  failure, some operation completes.
\<close>

theorem treiber_lock_free:
  assumes "finite T" "\<forall>t \<in> T. c_pc s t \<noteq> Idle" "fst ` set ts \<subseteq> T" "spurious ts \<le> f" "5 * card T + 3 * f < length ts"
  shows "\<exists>ev \<in> set (fst (run_sched ts s)). ev \<noteq> Tau"
proof (rule ccontr)
  assume "\<not> ?thesis"
  then have "length ts \<le> (\<Sum>t \<in> T. work (c_head s) (c_pc s t)) + 3 * spurious ts" using run_sched_work [OF assms(1-3)] by blast
  moreover have "(\<Sum>t \<in> T. work (c_head s) (c_pc s t)) \<le> (\<Sum>t \<in> T. 5)" by (rule sum_mono) (rule work_le)
  ultimately show False using assms(4,5) by simp
qed

theorem treiber_lock_free_witness:
  "\<exists>ev \<in> set (fst (run_sched [(0, False), (1, False), (0, False), (0, True), (1, False), (1, False), (0, False), (1, False), (0, False), (1, False),
        (0, False), (1, False), (0, False), (1, False)]
      \<lparr>c_mem = (\<lambda>_. 0), c_head = 0, c_pc = (\<lambda>t. if t = 0 then Push_load 4096 else Push_load 8192)\<rparr>)). ev \<noteq> Tau"
  by (rule treiber_lock_free [of "{0, 1}" _ _ 1]) (auto simp: spurious_def)

end
