(* ===== verification/Spec2Isabelle.thy ===== *)
theory Spec2Isabelle
  imports Zone_Correct Memalign_Runs Defect_Runs Api_Props Api_Props2 Debug_Props Treiber_Concurrent
begin

text \<open>
  A verification library for the memory allocator under \<open>src/\<close>, a replacement for the \<open>malloc\<close> family of macOS.

  \<^bold>\<open>The program.\<close> Requests are sorted into 75 size classes (\<open>size_class.c\<close>). A class of at most half a page is served from slots of
  64 KB pages (\<open>page.c\<close>); pages live in 4 MB segments (\<open>segment.c\<close>) found again from an address through a hash set; segments
  belong to one of four arenas, each with a lock and one list of pages per class (\<open>arena.c\<close>). A thread keeps a page per class that it owns
  and allocates from it without a lock (\<open>slab.c\<close>, \<open>tld.c\<close>); a free by another thread goes through a lock-free stack on
  the page (\<open>malloc_atomic.h\<close>). Larger requests are mappings of their own on a global list (\<open>large.c\<close>). \<open>malloc.c\<close> is the public interface,
  \<open>init.c\<close> starts the allocator up, \<open>os.c\<close> talks to the kernel, \<open>debug.c\<close> checks frees against a bitmap, \<open>zone.c\<close> hands the functions to
  the system.

  \<^bold>\<open>The model.\<close> One theory per part, with the names of the source:

  \<^item> \<open>Alloc_Prelude\<close>: machine types, byte memory, rounding, results. A call returns \<open>Inl\<close> an error (an abort of the debug mode, a bad
    dereference, an index outside its array, a division by zero, a loop or a lock that never ends) or \<open>Inr\<close> a value.
  \<^item> \<open>Malloc_Config\<close>, \<open>Malloc_Types\<close>: the two headers. A structure is a record whose fields keep their C widths. The state \<open>gstate\<close> is
    \<open>g_state\<close> with the headers of segments and large blocks (stores indexed by address), the thread records (indexed by thread), the
    bytes of memory and the log of system calls.
  \<^item> \<open>Size_Class\<close>, \<open>Os_Layer\<close>, \<open>Malloc_Atomic\<close>, \<open>Segment_Registry\<close>, \<open>Page_Slots\<close>: the leaves, each with its own correctness. The table of classes
    is computed with IEEE double arithmetic written out on integers.
  \<^item> \<open>Segment_Ops\<close>, \<open>Debug_Check\<close>, \<open>Tld_Init\<close>, \<open>Arena_Ops\<close>, \<open>Large_Ops\<close>, \<open>Slab_Ops\<close>, \<open>Malloc_Api\<close>, \<open>Zone_Ops\<close>: \<open>segment.c\<close>, \<open>debug.c\<close>, \<open>tld.c\<close> and \<open>init.c\<close>,
    \<open>arena.c\<close>, \<open>large.c\<close>, \<open>slab.c\<close>, \<open>malloc.c\<close>, \<open>zone.c\<close>. Every operation is one definition over the state, composed as in the source. Loops over
    pointers are partial functions whose value for a cyclic list would be \<open>Diverges\<close>; that they end is proved.
  \<^item> \<open>Treiber_Concurrent\<close>: the loops of the lock-free stack once more, as atomic steps of any number of threads.

  The kernel is the parameter \<open>env\<close>: page size, what \<open>mmap\<close> answers, what a dropped page reads as, where the linker put the
  bootstrap buffer, and the debug switch. \<open>env_ok\<close> states what POSIX promises (a mapping is page-aligned, was not mapped before, lies below
  2^48 and apart from the program's own data); \<open>demo_env\<close> is a concrete kernel that satisfies it.

  \<^bold>\<open>The interfaces.\<close> \<open>size_table\<close> (lookup in a sorted table), \<open>bounded_addr_set\<close> (the registry as a set), \<open>slot_pool\<close> (allocating and freeing slots, for both
  kinds of free), \<open>dll_ops\<close> (doubly-linked lists, for bins and large blocks), \<open>block_release\<close> and \<open>block_store\<close> (acquiring and releasing
  blocks, for \<open>my_malloc\<close>, \<open>my_calloc\<close>, \<open>my_memalign\<close> with \<open>my_free\<close>) are locales; each is interpreted on the definitions of the model.

  \<^bold>\<open>The invariant.\<close> \<open>Heap_Layout\<close>, \<open>Large_Correct\<close>, \<open>Page_Inv\<close> and \<open>Heap_Inv\<close> build \<open>heap_inv\<close>: tables and sizes of arrays, the registry, owners of addresses
  that never overlap, well-formed pages (free lists, counters, zeros in the part never handed out, bitmap), lists of the arenas and of the large
  blocks, thread caches and page owners. \<open>blocks\<close> are the live blocks it describes; \<open>quiet\<close>, \<open>adds\<close> and \<open>drops\<close> say how an operation changes
  them. \<open>Heap_Steps\<close>, \<open>Heap_Maps\<close>, \<open>Segment_Correct\<close>, \<open>Arena_Correct\<close>, \<open>Slab_Correct\<close>, \<open>Slab_Calls\<close>, \<open>Api_Correct\<close>, \<open>Client_Writes\<close>,
  \<open>Realloc_Correct\<close>, \<open>Memalign_Correct\<close>, \<open>Thread_Exit\<close> and \<open>Debug_Correct\<close> prove it kept by every operation, from the inside out.

  \<^bold>\<open>The results.\<close>
  \<^item> \<open>Api_Props\<close>, \<open>Api_Props2\<close>: each public call returns, and adds, removes or replaces exactly one block that overlaps no other, has room for
    the request and, for \<open>my_calloc\<close>, reads as zero; nothing happens to the bytes of other blocks. \<open>Client_Runs\<close> describes all a client can do
    (calls of any thread in any order, stores in its blocks, thread exits); in every state it reaches the invariant holds, blocks are apart, no page is
    cached twice, and no legal call can fail. The exit of a thread loses neither blocks nor counts.
  \<^item> \<open>Treiber_Concurrent\<close>: under every interleaving the list of remote frees is a stack (linearizability); the loops are lock-free, up to a given number
    of failures of the weak compare-and-swap that have no cause.
  \<^item> \<open>Debug_Props\<close>: bad frees abort with the right message; the heap check passes in every reachable state.
  \<^item> \<open>Zone_Correct\<close>: batches, ownership of addresses, good sizes, locking around \<open>fork\<close>, and a defect of the reaction to memory pressure.
  \<^item> \<open>Size_Class\<close>, \<open>Os_Layer\<close>, \<open>Malloc_Atomic\<close>, \<open>Segment_Registry\<close>, \<open>Page_Slots\<close>, \<open>Large_Correct\<close>: the contracts of the leaves.
  \<^item> \<open>Memalign_Runs\<close>, \<open>Defect_Runs\<close>: cases in which the code does not do what it means to do.

  \<^bold>\<open>Side conditions\<close>, each the point where the code itself stops working:
  \<^item> \<open>unat sz + 262176 \<le> 2 ^ 64\<close>: sizes whose total wraps around (\<open>large_alloc_wraps\<close>);
  \<^item> \<open>findable\<close>: the pointer's segment is in the registry, always true up to 256 segments (\<open>findable_few\<close>; beyond, \<open>register_full_table\<close>);
  \<^item> \<open>ids_ok\<close>: fewer than 2^32 - 1 threads so far, since \<open>thread_id\<close> wraps around and the largest id means \<open>no owner\<close>;
  \<^item> \<open>next_ok\<close>: the arena counter has not passed 2^31, or the thread has its arena already (\<open>arena_get_wraps\<close>);
  \<^item> a positive size for alignments above 64 KB (\<open>my_memalign_zero_outside\<close>).

  \<^bold>\<open>Bounds.\<close> No fuel is used. Sizes, counters and tags are words of their C width; arrays have their declared lengths.

  \<^bold>\<open>Not modelled.\<close> The kernel's answer to an \<open>mmap\<close> is a function of its length and of the successful system calls before it: a kernel that refuses a call and grants
  the same call right after, with nothing mapped or unmapped between, is not represented. Ranges are not rounded to pages; all lengths passed are multiples of the
  page size (\<open>Os_Layer\<close>). Calls of different threads are atomic, except for the stack of remote frees, whose steps interleave; weak
  memory is not modelled (the races of the fast path with remote frees are on that stack and on counters updated atomically). The pthread key,
  \<open>pthread_once\<close> (\<open>tld_key_create\<close>, \<open>tld_init\<close>) and the list of zones belong to the system's libraries: the value of the key is the
  store \<open>t_tld\<close>, the list of zones a parameter of \<open>zone_register\<close>. The fields of system structures that \<open>zone.c\<close> leaves NULL and the texts that
  \<open>debug.c\<close> prints are left out; an abort is the error that names its message. \<open>treiber_pop\<close>, \<open>arena_free\<close>, \<open>segment_destroy\<close> and
  \<open>page_retire\<close> are modelled, but no code calls them and no invariant is claimed for the whole heap across them.
\<close>

end
